(* ===== verification/Prelude.thy ===== *)
theory Prelude
  imports Main "HOL-Library.Word"
begin

text \<open>
  What the component theories share: the C integer types, the faults an execution can run
  into, the interleaving of threads as runs of a step function, and the locales in which
  safety and progress of a concurrent program are stated once.

  A multi-threaded program of the repository is modelled by a step function
  \<open>step :: 'a \<Rightarrow> 's \<Rightarrow> 's option\<close>: an action \<open>'a\<close> names the thread that moves (and what the
  scheduler chooses for it), \<open>'s\<close> is the whole memory with every thread's program point, and
  \<open>None\<close> says that the action cannot happen in this state (the thread is blocked or finished).
\<close>

section \<open>Machine integers and faults\<close>

type_synonym u8 = "8 word"
type_synonym u32 = "32 word"
type_synonym size_t = "64 word"

text \<open>The ways in which an execution of the C code stops being defined.\<close>

datatype fault =
    Out_of_bounds    \<comment> \<open>an array or heap block accessed outside of its extent\<close>
  | Null_pointer     \<comment> \<open>a null pointer dereferenced\<close>
  | Dangling         \<comment> \<open>a pointer to a block that is not allocated dereferenced\<close>
  | Uninitialised    \<comment> \<open>an object of indeterminate value used\<close>
  | Int_overflow     \<comment> \<open>a signed \<open>int\<close> computation outside of 32 bits\<close>
  | Div_by_zero
  | Bad_size         \<comment> \<open>an array of a size that is not positive declared\<close>
  | Not_owner        \<comment> \<open>a mutex unlocked by a thread that does not hold it\<close>
  | Bad_comparator   \<comment> \<open>\<open>qsort\<close> called with a function that is no comparison\<close>

type_synonym 'a res = "fault + 'a"

text \<open>Sequencing of computations that can fault.\<close>

definition and_then :: "'e + 'a \<Rightarrow> ('a \<Rightarrow> 'e + 'b) \<Rightarrow> 'e + 'b" where
  "and_then r f = (case r of Inl e \<Rightarrow> Inl e | Inr x \<Rightarrow> f x)"

lemma and_then_simps [simp]:
  "and_then (Inl e) f = Inl e"
  "and_then (Inr x) f = f x"
  by (simp_all add: and_then_def)

lemma and_then_Inr_iff:
  "and_then r f = Inr y \<longleftrightarrow> (\<exists>x. r = Inr x \<and> f x = Inr y)"
  by (cases r) auto

text \<open>The values of a C \<open>int\<close>.\<close>

definition int_ok :: "int \<Rightarrow> bool" where
  "int_ok x \<longleftrightarrow> - (2 ^ 31) \<le> x \<and> x < 2 ^ 31"

text \<open>
  C division and remainder on \<open>int\<close> truncate towards zero; both are undefined for a zero
  divisor.
\<close>

definition c_div :: "int \<Rightarrow> int \<Rightarrow> int" where
  "c_div a b = sgn a * sgn b * (\<bar>a\<bar> div \<bar>b\<bar>)"

definition c_mod :: "int \<Rightarrow> int \<Rightarrow> int" where
  "c_mod a b = a - c_div a b * b"

lemma c_div_nonneg [simp]: "0 \<le> a \<Longrightarrow> 0 < b \<Longrightarrow> c_div a b = a div b"
  by (cases "a = 0") (simp_all add: c_div_def)

lemma c_mod_nonneg [simp]: "0 \<le> a \<Longrightarrow> 0 < b \<Longrightarrow> c_mod a b = a mod b"
  by (simp add: c_mod_def minus_div_mult_eq_mod)

section \<open>Lists\<close>

lemma nth_list_update_if:
  "i < length xs \<Longrightarrow> xs[i := x] ! j = (if i = j then x else xs ! j)"
  by (auto simp: nth_list_update)

lemma map_upt_eqI:
  "length xs = n \<Longrightarrow> (\<And>i. i < n \<Longrightarrow> f i = xs ! i) \<Longrightarrow> map f [0..<n] = xs"
  by (rule nth_equalityI) simp_all

section \<open>Counting threads\<close>

text \<open>
  The number of threads of a finite set whose program point satisfies a predicate, and how it
  changes when one thread moves.
\<close>

definition count_at :: "'t set \<Rightarrow> ('c \<Rightarrow> bool) \<Rightarrow> ('t \<Rightarrow> 'c) \<Rightarrow> nat" where
  "count_at T P f = card {t \<in> T. P (f t)}"

lemma count_at_upd:
  assumes "finite T" "t \<in> T"
  shows "int (count_at T P (f(t := x))) =
    int (count_at T P f) + of_bool (P x) - of_bool (P (f t))"
proof -
  let ?A = "{u \<in> T - {t}. P (f u)}"
  have fin: "finite ?A" using assms by simp
  have "{u \<in> T. P ((f(t := x)) u)} = (if P x then insert t ?A else ?A)"
    using assms(2) by auto
  moreover have "{u \<in> T. P (f u)} = (if P (f t) then insert t ?A else ?A)"
    using assms(2) by auto
  moreover have "card (insert t ?A) = Suc (card ?A)"
    using fin by (simp add: card_insert_if)
  ultimately show ?thesis by (simp add: count_at_def)
qed

lemma count_at_upd_same:
  "t \<in> T \<Longrightarrow> P x = P (f t) \<Longrightarrow> count_at T P (f(t := x)) = count_at T P f"
  unfolding count_at_def by (rule arg_cong [where f = card]) auto

lemma count_at_pos: "finite T \<Longrightarrow> t \<in> T \<Longrightarrow> P (f t) \<Longrightarrow> 0 < count_at T P f"
  unfolding count_at_def by (subst card_gt_0_iff) auto

lemma count_at_zero: "(\<And>t. t \<in> T \<Longrightarrow> \<not> P (f t)) \<Longrightarrow> count_at T P f = 0"
proof -
  assume "\<And>t. t \<in> T \<Longrightarrow> \<not> P (f t)"
  then have "{t \<in> T. P (f t)} = {}" by blast
  then show ?thesis unfolding count_at_def by (simp only: card.empty)
qed

lemma count_at_le: "finite T \<Longrightarrow> count_at T P f \<le> card T"
  unfolding count_at_def by (rule card_mono) auto

lemma count_at_less:
  "finite T \<Longrightarrow> t \<in> T \<Longrightarrow> \<not> P (f t) \<Longrightarrow> count_at T P f < card T"
  unfolding count_at_def by (rule psubset_card_mono) auto

lemma count_at_other:
  assumes "finite T" "of_bool (P (f t)) < count_at T P f"
  obtains u where "u \<in> T" "u \<noteq> t" "P (f u)"
proof (rule ccontr)
  assume "\<not> thesis"
  then have "\<And>u. u \<in> T \<Longrightarrow> P (f u) \<Longrightarrow> u = t" using that by blast
  then have "{u \<in> T. P (f u)} \<subseteq> (if P (f t) then {t} else {})" by auto
  then have "count_at T P f \<le> card (if P (f t) then {t} else {})"
    unfolding count_at_def by (rule card_mono [rotated]) simp
  then show False using assms(2) by (simp split: if_splits)
qed

lemma count_at_unique:
  assumes "finite T" "count_at T P f \<le> 1" "t \<in> T" "u \<in> T" "P (f t)" "P (f u)"
  shows "t = u"
proof -
  have "card {v \<in> T. P (f v)} \<le> Suc 0" using assms(2) unfolding count_at_def by simp
  moreover have "finite {v \<in> T. P (f v)}" using assms(1) by simp
  moreover have "t \<in> {v \<in> T. P (f v)}" "u \<in> {v \<in> T. P (f v)}" using assms(3-6) by simp_all
  ultimately show ?thesis using card_le_Suc0_iff_eq by blast
qed

lemma sum_change:
  fixes f g :: "'t \<Rightarrow> 'a::ab_group_add"
  assumes "finite T" "t \<in> T" "\<And>u. u \<noteq> t \<Longrightarrow> f u = g u"
  shows "sum f T = sum g T + (f t - g t)"
proof -
  have "sum f (T - {t}) = sum g (T - {t})" using assms(3) by (intro sum.cong) auto
  then show ?thesis using assms(1,2) by (simp add: sum.remove)
qed

lemma sum_less:
  fixes f g :: "'t \<Rightarrow> nat"
  assumes "finite T" "t \<in> T" "f t < g t" "\<And>u. u \<noteq> t \<Longrightarrow> f u = g u"
  shows "sum f T < sum g T"
proof (rule sum_strict_mono_ex1 [OF assms(1)])
  show "\<forall>u\<in>T. f u \<le> g u" using assms(3,4) by (metis le_eq_less_or_eq)
qed (use assms in blast)

section \<open>Runs and reachable states\<close>

fun run :: "('a \<Rightarrow> 's \<Rightarrow> 's option) \<Rightarrow> 'a list \<Rightarrow> 's \<Rightarrow> 's option" where
  "run step [] s = Some s"
| "run step (a # as) s = (case step a s of None \<Rightarrow> None | Some t \<Rightarrow> run step as t)"

inductive reach :: "('a \<Rightarrow> 's \<Rightarrow> 's option) \<Rightarrow> ('s \<Rightarrow> bool) \<Rightarrow> 's \<Rightarrow> bool"
  for step :: "'a \<Rightarrow> 's \<Rightarrow> 's option" and start :: "'s \<Rightarrow> bool" where
  reach_start: "start s \<Longrightarrow> reach step start s"
| reach_step: "reach step start s \<Longrightarrow> step a s = Some t \<Longrightarrow> reach step start t"

lemma run_append:
  "run step (as @ bs) s = (case run step as s of None \<Rightarrow> None | Some t \<Rightarrow> run step bs t)"
  by (induction as arbitrary: s) (simp_all split: option.splits)

lemma reach_run_extend:
  "reach step start s \<Longrightarrow> run step as s = Some t \<Longrightarrow> reach step start t"
proof (induction as arbitrary: s)
  case Nil
  then show ?case by simp
next
  case (Cons a as)
  then show ?case by (auto split: option.splits intro: reach_step)
qed

lemma reach_run: "start s \<Longrightarrow> run step as s = Some t \<Longrightarrow> reach step start t"
  by (rule reach_run_extend [OF reach_start])

lemma reach_iff_run:
  "reach step start t \<longleftrightarrow> (\<exists>s as. start s \<and> run step as s = Some t)"
proof
  assume "reach step start t"
  then show "\<exists>s as. start s \<and> run step as s = Some t"
  proof induction
    case (reach_start s)
    then have "start s \<and> run step [] s = Some s" by simp
    then show ?case by blast
  next
    case (reach_step s a t)
    then obtain s0 as where "start s0" "run step as s0 = Some s" by blast
    with reach_step.hyps(2) have "run step (as @ [a]) s0 = Some t"
      by (simp add: run_append)
    with \<open>start s0\<close> show ?case by blast
  qed
qed (auto intro: reach_run)

section \<open>Contracts of concurrent programs\<close>

text \<open>
  Safety: an invariant of the initial states that every step keeps holds in every reachable
  state and along every run.
\<close>

locale safe_program =
  fixes step :: "'a \<Rightarrow> 's \<Rightarrow> 's option"
    and start :: "'s \<Rightarrow> bool"
    and invar :: "'s \<Rightarrow> bool"
  assumes invar_start: "start s \<Longrightarrow> invar s"
    and invar_step: "invar s \<Longrightarrow> step a s = Some t \<Longrightarrow> invar t"
begin

lemma invar_reach: "reach step start s \<Longrightarrow> invar s"
  by (induction rule: reach.induct) (auto intro: invar_start invar_step)

lemma invar_run: "invar s \<Longrightarrow> run step as s = Some t \<Longrightarrow> invar t"
  by (induction as arbitrary: s) (auto split: option.splits intro: invar_step)

end

text \<open>
  Progress: as long as the program is not finished, some thread can move by itself.
  \<open>live\<close> singles out the actions that count as the program's own (a spurious wake-up of a
  sleeping thread, for one, is not).
\<close>

locale live_program = safe_program step start invar
  for step :: "'a \<Rightarrow> 's \<Rightarrow> 's option"
    and start :: "'s \<Rightarrow> bool"
    and invar :: "'s \<Rightarrow> bool" +
  fixes live :: "'a \<Rightarrow> bool"
    and finished :: "'s \<Rightarrow> bool"
  assumes progress: "invar s \<Longrightarrow> \<not> finished s \<Longrightarrow> \<exists>a t. live a \<and> step a s = Some t"
begin

lemma never_stuck: "reach step start s \<Longrightarrow> \<not> finished s \<Longrightarrow> \<exists>a t. live a \<and> step a s = Some t"
  by (rule progress [OF invar_reach])

end

text \<open>
  Termination: every live step decreases a measure. Then every run of live actions is at most
  as long as the measure of its first state, and every reachable state can be run to the end.
\<close>

locale terminating_program = live_program step start invar live finished
  for step :: "'a \<Rightarrow> 's \<Rightarrow> 's option"
    and start :: "'s \<Rightarrow> bool"
    and invar :: "'s \<Rightarrow> bool"
    and live :: "'a \<Rightarrow> bool"
    and finished :: "'s \<Rightarrow> bool" +
  fixes rank :: "'s \<Rightarrow> nat"
  assumes rank_step: "invar s \<Longrightarrow> live a \<Longrightarrow> step a s = Some t \<Longrightarrow> rank t < rank s"
begin

lemma run_length_invar:
  "invar s \<Longrightarrow> list_all live as \<Longrightarrow> run step as s = Some t \<Longrightarrow> length as + rank t \<le> rank s"
proof (induction as arbitrary: s)
  case Nil
  then show ?case by simp
next
  case (Cons a as)
  then obtain u where u: "step a s = Some u" "run step as u = Some t"
    by (auto split: option.splits)
  then have "invar u" using Cons.prems(1) invar_step by blast
  then have "length as + rank t \<le> rank u" using Cons u by simp
  moreover have "rank u < rank s"
    using rank_step [OF Cons.prems(1) _ u(1)] Cons.prems(2) by simp
  ultimately show ?case by simp
qed

lemma run_length:
  "reach step start s \<Longrightarrow> list_all live as \<Longrightarrow> run step as s = Some t \<Longrightarrow> length as \<le> rank s"
  using run_length_invar [OF invar_reach] by fastforce

lemma can_finish_invar:
  "invar s \<Longrightarrow> \<exists>as t. list_all live as \<and> run step as s = Some t \<and> finished t"
proof (induction "rank s" arbitrary: s rule: less_induct)
  case less
  show ?case
  proof (cases "finished s")
    case True
    then have "list_all live [] \<and> run step [] s = Some s \<and> finished s" by simp
    then show ?thesis by blast
  next
    case False
    then obtain a u where a: "live a" "step a s = Some u" using progress less.prems by blast
    then have "rank u < rank s" "invar u" using rank_step invar_step less.prems by blast+
    then obtain as t where "list_all live as" "run step as u = Some t" "finished t"
      using less.hyps by blast
    with a have "list_all live (a # as) \<and> run step (a # as) s = Some t \<and> finished t" by simp
    then show ?thesis by blast
  qed
qed

lemma can_finish:
  "reach step start s \<Longrightarrow> \<exists>as t. list_all live as \<and> run step as s = Some t \<and> finished t"
  by (rule can_finish_invar [OF invar_reach])

end

text \<open>
  Waiting for locks: \<open>wants s t\<close> is the lock that the thread \<open>t\<close> waits for, \<open>owner s l\<close> the thread that holds \<open>l\<close>. When a
  thread that holds a lock only waits for locks of a greater rank, some active thread is not blocked.
\<close>

locale wait_order =
  fixes wants :: "'s \<Rightarrow> 't \<Rightarrow> 'l option"
    and owner :: "'s \<Rightarrow> 'l \<Rightarrow> 't option"
    and rank :: "'l \<Rightarrow> nat"
    and active :: "'s \<Rightarrow> 't \<Rightarrow> bool"
    and invar :: "'s \<Rightarrow> bool"
  assumes finite_active: "invar s \<Longrightarrow> finite {t. active s t}"
    and owner_active: "invar s \<Longrightarrow> active s t \<Longrightarrow> wants s t = Some l \<Longrightarrow> owner s l = Some u \<Longrightarrow> active s u"
    and rising: "invar s \<Longrightarrow> active s t \<Longrightarrow> wants s t = Some l \<Longrightarrow> owner s l = Some u \<Longrightarrow>
      wants s u = Some m \<Longrightarrow> rank l < rank m"
begin

definition blocked :: "'s \<Rightarrow> 't \<Rightarrow> bool" where
  "blocked s t \<longleftrightarrow> (\<exists>l. wants s t = Some l \<and> owner s l \<noteq> None)"

lemma some_unblocked:
  assumes "invar s" "active s t"
  shows "\<exists>u. active s u \<and> \<not> blocked s u"
proof (rule ccontr)
  assume "\<nexists>u. active s u \<and> \<not> blocked s u"
  then have all: "\<And>u. active s u \<Longrightarrow> \<exists>l v. wants s u = Some l \<and> owner s l = Some v"
    by (auto simp: blocked_def)
  define r where "r u = rank (the (wants s u))" for u
  have "\<exists>v. active s v \<and> r u < r v" if "active s u" for u
  proof -
    obtain l v where lv: "wants s u = Some l" "owner s l = Some v" using all [OF \<open>active s u\<close>] by blast
    then have v: "active s v" using owner_active [OF assms(1) \<open>active s u\<close>] by blast
    then obtain m where "wants s v = Some m" using all by blast
    then have "r u < r v" using rising [OF assms(1) \<open>active s u\<close> lv] lv by (simp add: r_def)
    then show ?thesis using v by blast
  qed
  moreover have "\<exists>u\<in>{t. active s t}. \<forall>v\<in>{t. active s t}. r v \<le> r u"
  proof -
    let ?R = "r ` {t. active s t}"
    have "finite ?R" "?R \<noteq> {}" using finite_active assms by auto
    then have "Max ?R \<in> ?R" "\<forall>x\<in>?R. x \<le> Max ?R" by auto
    then show ?thesis by auto
  qed
  ultimately show False by (meson leD mem_Collect_eq)
qed

end

end
