(* ===== verification/Wzip.thy ===== *)
theory Wzip
  imports Prelude
begin

text \<open>
  The run-length compressor \<open>src/ostep-projects/initial-utilities/wzip/wzip.c\<close>: its token and
  predicates, the line scanner \<open>readlines\<close>, the loop over the files and \<open>main\<close>. Bytes are
  \<^typ>\<open>u8\<close>, the token count is \<^typ>\<open>u32\<close> and wraps as in the code; standard output is the list
  of the bytes written, standard error the list of the \<open>perror\<close> arguments. The file system is a
  parameter: \<open>fopen\<close> gives a file's bytes or \<^const>\<open>None\<close>. The line index \<open>int current\<close> is a
  \<^typ>\<open>nat\<close>, and its increment beyond the range of \<open>int\<close> is a fault. \<open>readlines\<close> calls \<open>getline\<close> with a pointer that has no
  value and the size 0. Whether \<open>getline\<close> allocates a buffer for the size 0 without looking at the pointer is the parameter
  \<open>allocs\<close>: the GNU library does, POSIX asks for a null pointer or an allocated block.
\<close>

section \<open>Tokens and output\<close>

record token =
  count :: u32
  ch :: u8

record io =
  stdout :: "u8 list"
  stderr :: "string list"

definition no_io :: io where
  "no_io = \<lparr>stdout = [], stderr = []\<rparr>"

definition put :: "u8 list \<Rightarrow> io \<Rightarrow> io" where
  "put bs io = io\<lparr>stdout := stdout io @ bs\<rparr>"

definition perror :: "string \<Rightarrow> io \<Rightarrow> io" where
  "perror msg io = io\<lparr>stderr := stderr io @ [msg]\<rparr>"

text \<open>The bytes of a string literal.\<close>

definition bytes :: "string \<Rightarrow> u8 list" where
  "bytes s = map (\<lambda>c. of_nat (of_char c)) s"

text \<open>\<open>fwrite (&t.count, 4, 1, stdout)\<close> on the little-endian host of the project.\<close>

definition bytes_le32 :: "u32 \<Rightarrow> u8 list" where
  "bytes_le32 w = map (\<lambda>i. ucast (drop_bit (8 * i) w)) [0..<4]"

definition numbytes :: "token \<Rightarrow> size_t" where
  "numbytes t = 4 + 1" \<comment> \<open>\<open>sizeof (t.count) + sizeof (t.ch)\<close>\<close>

definition printToken :: "token \<Rightarrow> io \<Rightarrow> io" where
  "printToken t io =
     (let io1 = (if ch t > 127
                 then perror ''Error: token not a valid ascii character'' io else io)
      in if numbytes t = 5 then put [ch t] (put (bytes_le32 (count t)) io1)
         else perror ''Error: compression format output not equal to five bytes'' io1)"

definition updateTokenCount :: "token \<Rightarrow> char \<Rightarrow> io \<Rightarrow> token \<times> io" where
  "updateTokenCount t flag io =
     (if flag = CHR ''s'' then (t\<lparr>count := count t + 1\<rparr>, io)
      else if flag = CHR ''i'' then (t\<lparr>count := 1\<rparr>, io)
      else if flag = CHR ''n'' then (t\<lparr>count := 0\<rparr>, io)
      else (t, perror ''Error: uknown flag passed to updateTokenCount'' io))"

definition updateTokenCh :: "token \<Rightarrow> u8 \<Rightarrow> token" where
  "updateTokenCh t c = t\<lparr>ch := c\<rparr>"

section \<open>The scanner's predicates\<close>

definition isAtEnd :: "int \<Rightarrow> int \<Rightarrow> bool" where
  "isAtEnd lsz current \<longleftrightarrow> current + 1 \<ge> lsz - 1"

definition isRepeat :: "token \<Rightarrow> u8 \<Rightarrow> bool" where
  "isRepeat t initchar \<longleftrightarrow> ch t = initchar"

definition isFirstOrigChar :: "nat \<Rightarrow> u8 \<Rightarrow> token \<Rightarrow> bool" where
  "isFirstOrigChar current lst t \<longleftrightarrow> current = 0 \<and> count t = 0 \<and> ch t = 0"

definition isFirstCharRepeat :: "nat \<Rightarrow> u8 \<Rightarrow> token \<Rightarrow> bool" where
  "isFirstCharRepeat current lst t \<longleftrightarrow> current = 0 \<and> count t > 0 \<and> ch t > 0"

definition isNewChar :: "nat \<Rightarrow> u8 \<Rightarrow> u8 \<Rightarrow> token \<Rightarrow> bool" where
  "isNewChar current curch lst t \<longleftrightarrow>
     curch \<noteq> ch t \<and> curch \<noteq> 0 \<and> current \<noteq> 0 \<and> lst \<noteq> 0"

definition isLineRepeatChar :: "u8 \<Rightarrow> u8 \<Rightarrow> bool" where
  "isLineRepeatChar curch lst \<longleftrightarrow> curch = lst"

definition isRepeatChar :: "nat \<Rightarrow> u8 \<Rightarrow> u8 \<Rightarrow> bool" where
  "isRepeatChar current curch lst \<longleftrightarrow>
     curch = lst \<and> curch \<noteq> 0 \<and> current \<noteq> 0 \<and> lst \<noteq> 0"

definition isEndOfLine :: "u8 \<Rightarrow> u8 \<Rightarrow> bool" where
  "isEndOfLine cur nxt \<longleftrightarrow> cur \<noteq> nxt \<and> nxt = 0"

text \<open>
  A buffer filled by \<open>getline\<close> holds the line and a terminating NUL; a read past that is a fault
  (\<open>peeknext\<close>, \<open>isRepeat\<close> and \<open>isEndOfLine\<close> are defined in the file and called nowhere).
\<close>

definition peek :: "u8 list \<Rightarrow> nat \<Rightarrow> u8 res" where
  "peek line current =
     (if current < length (line @ [0]) then Inr ((line @ [0]) ! current) else Inl Out_of_bounds)"

definition peeknext :: "u8 list \<Rightarrow> int \<Rightarrow> nat \<Rightarrow> u8 res" where
  "peeknext line lsz current =
     (if isAtEnd lsz (int current) then Inr 0 else peek line (current + 1))"

section \<open>readlines\<close>

text \<open>\<open>getline\<close>: the bytes up to and including a newline, or \<open>-1\<close> at the end of the file.\<close>

fun getline :: "u8 list \<Rightarrow> (u8 list \<times> u8 list) option" where
  "getline [] = None"
| "getline (c # cs) =
     (if c = 10 then Some ([c], cs)
      else case getline cs of None \<Rightarrow> Some ([c], []) | Some (l, rest) \<Rightarrow> Some (c # l, rest))"

lemma getline_concat: "getline cs = Some (l, rest) \<Longrightarrow> cs = l @ rest \<and> l \<noteq> []"
  by (induction cs arbitrary: l rest)
    (auto split: if_splits option.splits elim: getline.elims)

record scan =
  tok :: token
  lstch :: u8
  sio :: io

definition set_count :: "char \<Rightarrow> scan \<Rightarrow> scan" where
  "set_count flag s =
     (let (t, io) = updateTokenCount (tok s) flag (sio s) in s\<lparr>tok := t, sio := io\<rparr>)"

definition set_ch :: "u8 \<Rightarrow> scan \<Rightarrow> scan" where
  "set_ch c s = s\<lparr>tok := updateTokenCh (tok s) c\<rparr>"

definition print_tok :: "scan \<Rightarrow> scan" where
  "print_tok s = s\<lparr>sio := printToken (tok s) (sio s)\<rparr>"

text \<open>The state left by the last line is printed before a line that starts differently.\<close>

definition start_line :: "u8 \<Rightarrow> scan \<Rightarrow> scan" where
  "start_line initchar s =
     (if lstch s \<noteq> 0
      then if \<not> isLineRepeatChar (lstch s) initchar
           then set_ch 0 (set_count (CHR ''n'') (print_tok s)) else s
      else s)"

text \<open>The body of the inner loop, with its four tests in the order of the code.\<close>

definition scan_char :: "nat \<Rightarrow> u8 \<Rightarrow> scan \<Rightarrow> scan" where
  "scan_char current curch s0 =
     (let s1 = (if isFirstCharRepeat current (lstch s0) (tok s0)
                then set_count (CHR ''s'') s0 else s0);
          s2 = (if isFirstOrigChar current (lstch s1) (tok s1)
                then set_ch curch (set_count (CHR ''i'') s1) else s1);
          s3 = (if isNewChar current curch (lstch s2) (tok s2)
                then set_ch curch (set_count (CHR ''i'') (print_tok s2)) else s2);
          s4 = (if isRepeatChar current curch (lstch s3)
                then set_count (CHR ''s'') s3 else s3)
      in s4\<lparr>lstch := curch\<rparr>)"

function scan_line :: "u8 list \<Rightarrow> nat \<Rightarrow> scan \<Rightarrow> scan res" where
  "scan_line line current s =
     (if current < length line
      then and_then (peek line current) (\<lambda>c.
             if int_ok (int current + 1) then scan_line line (current + 1) (scan_char current c s) else Inl Int_overflow)
      else Inr s)"
  by pat_completeness auto
termination
  by (relation "measure (\<lambda>(line, current, s). length line - current)") auto

declare scan_line.simps [simp del]

function scan_lines :: "u8 list \<Rightarrow> scan \<Rightarrow> scan res" where
  "scan_lines fp s =
     (case getline fp of
        None \<Rightarrow> Inr s
      | Some (line, rest) \<Rightarrow>
          and_then (peek line 0) (\<lambda>initchar.
            and_then (scan_line line 0 (start_line initchar s)) (scan_lines rest)))"
  by pat_completeness auto
termination
  by (relation "measure (\<lambda>(fp, s). length fp)") (auto dest: getline_concat)

declare scan_lines.simps [simp del]

definition readlines :: "bool \<Rightarrow> u8 list \<Rightarrow> token \<Rightarrow> io \<Rightarrow> (token \<times> io) res" where
  "readlines allocs fp t io =
     (if \<not> allocs then Inl Uninitialised
      else and_then (scan_lines fp \<lparr>tok = t, lstch = 0, sio = io\<rparr>) (\<lambda>s. Inr (tok s, sio s)))"

section \<open>procfiles and main\<close>

text \<open>
  \<open>files ! 0\<close> is the program's name. The index moves on only when the token read so far has a
  nonzero count, so the loop need not end: the result is an \<open>option\<close>, with \<^const>\<open>None\<close> for a run
  that never returns. The result is the return value and the output.
\<close>

definition flush_token :: "token \<Rightarrow> io \<Rightarrow> token \<times> io" where
  "flush_token t io =
     (let (t1, io1) = updateTokenCount t (CHR ''n'') (printToken t io)
      in (updateTokenCh t1 0, io1))"

partial_function (option) procfiles_loop ::
    "bool \<Rightarrow> (string \<Rightarrow> u8 list option) \<Rightarrow> string list \<Rightarrow> nat \<Rightarrow> token \<Rightarrow> io \<Rightarrow> (int \<times> io) res option" where
  "procfiles_loop allocs fopen files i t io =
     (if i < length files
      then (case fopen (files ! i) of
              None \<Rightarrow> Some (Inr (1, put (bytes ''wzip: cannot open file'' @ [10]) io))
            | Some fp \<Rightarrow>
                (case readlines allocs fp t io of
                   Inl e \<Rightarrow> Some (Inl e)
                 | Inr r \<Rightarrow>
                     (let i' = (if count (fst r) \<noteq> 0 then i + 1 else i);
                          q = (if length files \<le> i' then flush_token (fst r) (snd r) else r)
                      in procfiles_loop allocs fopen files i' (fst q) (snd q))))
      else Some (Inr (0, io)))"

definition procfiles :: "bool \<Rightarrow> (string \<Rightarrow> u8 list option) \<Rightarrow> string list \<Rightarrow> io \<Rightarrow> (int \<times> io) res option" where
  "procfiles allocs fopen files io = procfiles_loop allocs fopen files 1 \<lparr>count = 0, ch = 0\<rparr> io"

definition wzip_main :: "bool \<Rightarrow> (string \<Rightarrow> u8 list option) \<Rightarrow> string list \<Rightarrow> (int \<times> io) res option" where
  "wzip_main allocs fopen argv =
     (if length argv = 1
      then Some (Inr (1, put (bytes ''wzip: file1 [file2 ...]'' @ [10]) no_io))
      else (case (if length argv \<ge> 2 then procfiles allocs fopen argv no_io else Some (Inr (1, no_io))) of
              Some (Inr (succ, io)) \<Rightarrow>
                Some (Inr (succ, if succ = 1
                  then put (bytes ''Error: failbytes are set to fail, call Sherlock!'' @ [10]) io
                  else io))
            | r \<Rightarrow> r))"

section \<open>What wzip should write: run-length encoding\<close>

text \<open>
  The specification, from \<open>src/ostep-projects/initial-utilities/README.md\<close>: each maximal run is
  its length and its character; an entry is a 4-byte integer and a byte.
\<close>

type_synonym runs = "(nat \<times> u8) list"

function rle :: "u8 list \<Rightarrow> runs" where
  "rle [] = []"
| "rle (c # cs) =
     (Suc (length (takeWhile (\<lambda>x. x = c) cs)), c) # rle (dropWhile (\<lambda>x. x = c) cs)"
  by pat_completeness auto
termination
  by (relation "measure length") (auto simp: le_imp_less_Suc length_dropWhile_le)

definition expand :: "runs \<Rightarrow> u8 list" where
  "expand rs = concat (map (\<lambda>(n, c). replicate n c) rs)"

definition entry :: "nat \<times> u8 \<Rightarrow> u8 list" where
  "entry r = bytes_le32 (of_nat (fst r)) @ [snd r]"

definition entries :: "runs \<Rightarrow> u8 list" where
  "entries rs = concat (map entry rs)"

text \<open>The decompressor the README describes (\<open>wunzip.c\<close> is an empty file).\<close>

definition word_of_le :: "u8 list \<Rightarrow> nat" where
  "word_of_le bs = foldr (\<lambda>b n. unat b + 256 * n) bs 0"

fun unzip :: "u8 list \<Rightarrow> u8 list" where
  "unzip (a # b # c # d # x # rest) = replicate (word_of_le [a, b, c, d]) x @ unzip rest"
| "unzip bs = []"

text \<open>The runs of a stream read left to right: those completed, and the one in progress.\<close>

fun feed :: "nat \<times> u8 \<Rightarrow> u8 list \<Rightarrow> runs \<times> (nat \<times> u8)" where
  "feed p [] = ([], p)"
| "feed (n, x) (c # cs) =
     (if c = x then feed (n + 1, x) cs
      else let (es, p) = feed (1, c) cs in ((n, x) # es, p))"

lemma feed_append:
  "feed p (xs @ ys) = (let (es, q) = feed p xs; (fs, r) = feed q ys in (es @ fs, r))"
  by (induction p xs rule: feed.induct) (auto simp: Let_def split: prod.splits)

lemma feed_run: "feed (n, x) (takeWhile (\<lambda>c. c = x) cs @ ys) =
    feed (n + length (takeWhile (\<lambda>c. c = x) cs), x) ys"
  by (induction cs arbitrary: n) auto

lemma feed_rle:
  "feed (n, x) cs = (es, p) \<Longrightarrow>
    es @ [p] = (n + length (takeWhile (\<lambda>c. c = x) cs), x) # rle (dropWhile (\<lambda>c. c = x) cs)"
  by (induction "(n, x)" cs arbitrary: n x es p rule: feed.induct)
    (auto split: if_splits prod.splits)

lemma rle_feed: "feed (1, c) cs = (es, p) \<Longrightarrow> rle (c # cs) = es @ [p]"
  by (simp add: feed_rle)

lemma expand_rle: "expand (rle cs) = cs"
proof (induction cs rule: rle.induct)
  case (2 c cs)
  have "replicate (length (takeWhile (\<lambda>x. x = c) cs)) c = takeWhile (\<lambda>x. x = c) cs"
    by (rule replicate_length_same) (auto dest: set_takeWhileD)
  with 2 show ?case by (simp add: expand_def)
qed (simp add: expand_def)

lemma feed_length:
  "feed (n, x) cs = (es, (m, y)) \<Longrightarrow> sum_list (map fst es) + m = n + length cs"
  by (induction "(n, x)" cs arbitrary: n x es m y rule: feed.induct)
    (auto split: if_splits prod.splits)

lemma feed_pending:
  "feed (n, x) cs = (es, (m, y)) \<Longrightarrow> 0 < n \<Longrightarrow> 0 < m \<and> y = last (x # cs)"
  by (induction "(n, x)" cs arbitrary: n x es m y rule: feed.induct)
    (auto split: if_splits prod.splits)

section \<open>The scanner computes the runs\<close>

definition emit :: "runs \<Rightarrow> io \<Rightarrow> io" where
  "emit rs io = fold (\<lambda>(n, x). printToken \<lparr>count = of_nat n, ch = x\<rparr>) rs io"

definition pending :: "nat \<times> u8 \<Rightarrow> io \<Rightarrow> scan" where
  "pending p io = \<lparr>tok = \<lparr>count = of_nat (fst p), ch = snd p\<rparr>, lstch = snd p, sio = io\<rparr>"

lemma emit_simps [simp]:
  "emit [] io = io"
  "emit ((n, x) # rs) io = emit rs (printToken \<lparr>count = of_nat n, ch = x\<rparr> io)"
  by (simp_all add: emit_def)

lemma emit_append [simp]: "emit (rs @ qs) io = emit qs (emit rs io)"
  by (simp add: emit_def)

lemma stdout_printToken:
  "stdout (printToken t io) = stdout io @ bytes_le32 (count t) @ [ch t]"
  by (simp add: printToken_def numbytes_def put_def perror_def Let_def)

lemma stdout_emit: "stdout (emit rs io) = stdout io @ entries rs"
  by (induction rs arbitrary: io)
    (auto simp: stdout_printToken entries_def entry_def)

lemmas scan_defs = scan_char_def start_line_def set_count_def set_ch_def print_tok_def
  isFirstCharRepeat_def isFirstOrigChar_def isNewChar_def isRepeatChar_def isLineRepeatChar_def
  updateTokenCount_def updateTokenCh_def pending_def

lemma u32_of_nat_eq_0: "0 < n \<Longrightarrow> n < 2 ^ 32 \<Longrightarrow> (of_nat n :: u32) \<noteq> 0"
  by (auto simp: word_of_nat_eq_0_iff dest: dvd_imp_le)

lemma u32_of_nat_gt_0: "0 < n \<Longrightarrow> n < 2 ^ 32 \<Longrightarrow> (0 :: u32) < of_nat n"
  using u32_of_nat_eq_0 by (simp add: word_neq_0_conv)

lemma scan_char_inner:
  "0 < k \<Longrightarrow> c \<noteq> 0 \<Longrightarrow> x \<noteq> 0 \<Longrightarrow> scan_char k c (pending (n, x) io) =
    (if c = x then pending (n + 1, x) io
     else pending (1, c) (printToken \<lparr>count = of_nat n, ch = x\<rparr> io))"
  by (simp add: scan_defs Let_def add.commute)

lemma scan_line_inner:
  "0 < k \<Longrightarrow> length line < 2 ^ 31 \<Longrightarrow> 0 \<notin> set (drop k line) \<Longrightarrow> x \<noteq> 0 \<Longrightarrow> scan_line line k (pending (n, x) io) =
    (case feed (n, x) (drop k line) of (es, p) \<Rightarrow> Inr (pending p (emit es io)))"
proof (induction "length line - k" arbitrary: k n x io)
  case 0
  then show ?case by (simp add: scan_line.simps [of line k])
next
  case (Suc d)
  then have k: "k < length line" by simp
  define c where "c = line ! k"
  have drop: "drop k line = c # drop (Suc k) line"
    unfolding c_def by (rule Cons_nth_drop_Suc [symmetric, OF k])
  have c: "c \<noteq> 0" "0 \<notin> set (drop (Suc k) line)" using Suc.prems(3) drop by auto
  have "int_ok (int k + 1)" using k Suc.prems(2) by (simp add: int_ok_def)
  then have step: "scan_line line k s = scan_line line (Suc k) (scan_char k c s)" for s
    using k by (simp add: scan_line.simps [of line k] peek_def nth_append c_def)
  have IH: "x' \<noteq> 0 \<Longrightarrow> scan_line line (Suc k) (pending (n', x') io') =
      (case feed (n', x') (drop (Suc k) line) of (es, p) \<Rightarrow> Inr (pending p (emit es io')))"
    for n' x' io'
    using Suc.hyps(1) [of "Suc k"] Suc.hyps(2) Suc.prems(2) c(2) by simp
  show ?case
    using Suc.prems c
    by (simp add: step scan_char_inner IH drop split: prod.splits)
qed

lemma scan_line_first: "scan_line (c # l) 0 s = scan_line (c # l) (Suc 0) (scan_char 0 c s)"
  by (simp add: scan_line.simps [of "c # l" 0] peek_def int_ok_def)

lemma scan_lines_Some:
  "getline cs = Some (c # l, rest) \<Longrightarrow>
    scan_lines cs s = and_then (scan_line (c # l) 0 (start_line c s)) (scan_lines rest)"
  by (simp add: scan_lines.simps [of cs] peek_def)

lemma scan_line_carry:
  assumes "0 < n" "n < 2 ^ 32" "x \<noteq> 0" "0 \<notin> set (c # l)" "length (c # l) < 2 ^ 31"
  shows "scan_line (c # l) 0 (start_line c (pending (n, x) io)) =
    (case feed (n, x) (c # l) of (es, p) \<Rightarrow> Inr (pending p (emit es io)))"
proof -
  have cl: "c \<noteq> 0" "0 \<notin> set l" using assms(4) by auto
  have "scan_char 0 c (start_line c (pending (n, x) io)) =
      (if c = x then pending (n + 1, x) io
       else pending (1, c) (printToken \<lparr>count = of_nat n, ch = x\<rparr> io))"
    using assms(3) cl u32_of_nat_gt_0 [OF assms(1,2)]
    by (auto simp: scan_defs word_neq_0_conv [symmetric] Let_def add.commute)
  then show ?thesis
    using assms(3,5) cl scan_line_first scan_line_inner [of "Suc 0" "c # l"]
    by (cases "c = x") (simp_all split: prod.splits)
qed

text \<open>Files whose lines have fewer than \<open>2 ^ 31\<close> bytes.\<close>

function file_lines :: "u8 list \<Rightarrow> u8 list list" where
  "file_lines cs = (case getline cs of None \<Rightarrow> [] | Some (l, rest) \<Rightarrow> l # file_lines rest)"
  by pat_completeness auto
termination
  by (relation "measure length") (auto dest: getline_concat)

declare file_lines.simps [simp del]

definition short_lines :: "u8 list \<Rightarrow> bool" where
  "short_lines cs \<longleftrightarrow> list_all (\<lambda>l. length l < 2 ^ 31) (file_lines cs)"

lemma short_lines_getline: "short_lines cs \<Longrightarrow> getline cs = Some (l, rest) \<Longrightarrow> length l < 2 ^ 31 \<and> short_lines rest"
  by (simp add: short_lines_def file_lines.simps [of cs])

lemma short_file: "length cs < 2 ^ 31 \<Longrightarrow> short_lines cs"
proof (induction cs rule: file_lines.induct)
  case (1 cs)
  show ?case
  proof (cases "getline cs")
    case None
    then show ?thesis by (simp add: short_lines_def file_lines.simps [of cs])
  next
    case (Some p)
    then obtain l rest where p: "getline cs = Some (l, rest)" by (cases p) simp
    then have "cs = l @ rest" using getline_concat by blast
    then show ?thesis using 1(1) [OF p refl] 1(2) p unfolding short_lines_def by (subst file_lines.simps) simp
  qed
qed

lemma scan_lines_carry:
  "0 < n \<Longrightarrow> n + length cs < 2 ^ 32 \<Longrightarrow> x \<noteq> 0 \<Longrightarrow> 0 \<notin> set cs \<Longrightarrow> short_lines cs \<Longrightarrow>
    scan_lines cs (pending (n, x) io) =
      (case feed (n, x) cs of (es, p) \<Rightarrow> Inr (pending p (emit es io)))"
proof (induction "length cs" arbitrary: cs n x io rule: less_induct)
  case less
  show ?case
  proof (cases "getline cs")
    case None
    then have "cs = []" by (cases cs) (auto split: if_splits option.splits)
    then show ?thesis by (simp add: scan_lines.simps [of "[]"])
  next
    case (Some lr)
    obtain l rest where lr: "lr = (l, rest)" by fastforce
    have cs: "cs = l @ rest" "l \<noteq> []" using getline_concat Some lr by blast+
    have short: "length l < 2 ^ 31" "short_lines rest" using short_lines_getline [OF less.prems(5)] Some lr by simp_all
    obtain c l' where l: "l = c # l'" using cs(2) by (cases l) auto
    obtain es m y where f: "feed (n, x) l = (es, (m, y))" by (metis surj_pair)
    have y: "0 < m" "y = last (x # l)" using feed_pending [OF f less.prems(1)] by auto
    have "y \<noteq> 0" using y(2) less.prems(3,4) cs by (auto simp: last_in_set dest: last_in_set)
    moreover have "m + length rest < 2 ^ 32"
      using feed_length [OF f] less.prems(2) cs by simp
    ultimately have IH: "scan_lines rest (pending (m, y) io') =
        (case feed (m, y) rest of (es, p) \<Rightarrow> Inr (pending p (emit es io')))" for io'
      using less.hyps [of rest m y io'] less.prems(4) cs y(1) short(2) by simp
    have line: "scan_line l 0 (start_line c (pending (n, x) io)) = Inr (pending (m, y) (emit es io))"
      using scan_line_carry [of n x c l' io] less.prems cs l f short(1) by simp
    have "scan_lines cs (pending (n, x) io) = scan_lines rest (pending (m, y) (emit es io))"
      using Some lr l line by (simp add: scan_lines_Some)
    then show ?thesis
      using IH by (simp only: cs feed_append f) (simp split: prod.splits)
  qed
qed

text \<open>The first file starts from the null token; its first byte opens the first run.\<close>

lemma readlines_first:
  assumes "Suc (length cs) < 2 ^ 32" "0 \<notin> set (c # cs)" "short_lines (c # cs)"
  shows "readlines True (c # cs) \<lparr>count = 0, ch = 0\<rparr> io =
    (case feed (1, c) cs of
       (es, (m, y)) \<Rightarrow> Inr (\<lparr>count = of_nat m, ch = y\<rparr>, emit es io))"
proof -
  obtain l rest where g: "getline (c # cs) = Some (l, rest)"
    by (cases "getline (c # cs)") (auto split: if_splits option.splits)
  then have cs: "c # cs = l @ rest" "l \<noteq> []" using getline_concat by blast+
  then obtain l' where l: "l = c # l'" by (cases l) auto
  have short: "length l < 2 ^ 31" "short_lines rest" using short_lines_getline [OF assms(3) g] by simp_all
  let ?s = "\<lparr>tok = \<lparr>count = 0, ch = 0\<rparr>, lstch = 0, sio = io\<rparr>"
  obtain es m y where f: "feed (1, c) l' = (es, (m, y))" by (metis surj_pair)
  have y: "0 < m" "y = last (c # l')" using feed_pending [OF f] by auto
  have cs': "cs = l' @ rest" using cs l by simp
  have nz: "c \<noteq> 0" "0 \<notin> set l'" "0 \<notin> set rest" using assms(2) cs' by auto
  have "y \<noteq> 0" using y(2) nz by (metis last_in_set list.distinct(1) set_ConsD)
  have "scan_char 0 c (start_line c ?s) = pending (1, c) io"
    using nz by (simp add: scan_defs Let_def)
  then have "scan_line l 0 (start_line c ?s) = scan_line l (Suc 0) (pending (1, c) io)"
    by (simp only: l scan_line_first)
  also have "\<dots> = Inr (pending (m, y) (emit es io))"
    using scan_line_inner [of "Suc 0" l c 1 io] nz l f short(1) by simp
  finally have "scan_lines (c # cs) ?s = scan_lines rest (pending (m, y) (emit es io))"
    using g l by (simp add: scan_lines_Some del: getline.simps)
  also have "\<dots> = (case feed (m, y) rest of (fs, p) \<Rightarrow> Inr (pending p (emit (es @ fs) io)))"
    using scan_lines_carry [of m rest y] feed_length [OF f] assms(1) cs' y(1) nz \<open>y \<noteq> 0\<close> short(2)
    by (simp split: prod.splits)
  finally show ?thesis
    using f by (simp add: readlines_def cs' feed_append pending_def Let_def split: prod.splits)
qed

text \<open>
  A later file starts with the token of the files before it. Its first byte is counted as one
  more occurrence of that token's character, whatever it is.
\<close>

lemma readlines_later:
  assumes "0 < n" "n + length cs < 2 ^ 32" "x \<noteq> 0" "0 \<notin> set cs" "cs \<noteq> [] \<longrightarrow> hd cs = x" "short_lines cs"
  shows "readlines True cs \<lparr>count = of_nat n, ch = x\<rparr> io =
    (case feed (n, x) cs of
       (es, (m, y)) \<Rightarrow> Inr (\<lparr>count = of_nat m, ch = y\<rparr>, emit es io))"
proof (cases cs)
  case Nil
  then show ?thesis by (simp add: readlines_def scan_lines.simps [of "[]"])
next
  case (Cons c cs')
  then have [simp]: "c = x" using assms(5) by simp
  obtain l rest where g: "getline cs = Some (l, rest)"
    using Cons by (cases "getline cs") (auto split: if_splits option.splits)
  then have cs: "cs = l @ rest" "l \<noteq> []" using getline_concat by blast+
  then obtain l' where l: "l = x # l'" using Cons by (cases l) auto
  let ?s = "\<lparr>tok = \<lparr>count = of_nat n, ch = x\<rparr>, lstch = 0, sio = io\<rparr>"
  let ?p = "pending (n, x) io"
  have "scan_char 0 x (start_line x ?s) = pending (n + 1, x) io"
    using assms(3) u32_of_nat_gt_0 [of n] assms(1,2)
    by (simp add: scan_defs Let_def word_neq_0_conv [symmetric] add.commute)
  moreover have "scan_char 0 x (start_line x ?p) = pending (n + 1, x) io"
    using assms(3) u32_of_nat_gt_0 [of n] assms(1,2)
    by (simp add: scan_defs Let_def word_neq_0_conv [symmetric] add.commute)
  ultimately have "scan_line l 0 (start_line x ?s) = scan_line l 0 (start_line x ?p)"
    by (simp only: l scan_line_first)
  then have "scan_lines cs ?s = scan_lines cs ?p"
    using g l by (simp add: scan_lines_Some)
  then show ?thesis
    using scan_lines_carry [OF assms(1-4,6)]
    by (simp add: readlines_def pending_def split: prod.splits)
qed

section \<open>The loop over the files\<close>

text \<open>
  The files that \<open>wzip\<close> compresses as one stream: each later file is empty or goes on with the
  character the stream has reached.
\<close>

fun joins :: "u8 \<Rightarrow> u8 list list \<Rightarrow> bool" where
  "joins x [] = True"
| "joins x (f # fs) = ((f \<noteq> [] \<longrightarrow> hd f = x) \<and> joins (last (x # f)) fs)"

lemma stdout_flush_token: "stdout (snd (flush_token t io)) = stdout (printToken t io)"
  by (simp add: flush_token_def updateTokenCount_def)

lemma procfiles_loop_done: "length files \<le> i \<Longrightarrow> procfiles_loop True fopen files i t io = Some (Inr (0, io))"
  by (simp add: procfiles_loop.simps)

lemma wzip_main_uninitialised:
  "fopen name = Some f \<Longrightarrow> wzip_main False fopen (prog # name # names) = Some (Inl Uninitialised)"
  by (simp add: wzip_main_def procfiles_def procfiles_loop.simps readlines_def)

lemma procfiles_loop_file:
  assumes "i < length files" "fopen (files ! i) = Some f"
    and "readlines True f t io = Inr (\<lparr>count = of_nat m, ch = y\<rparr>, io')" "0 < m" "m < 2 ^ 32"
  shows "procfiles_loop True fopen files i t io =
    (if i + 1 < length files
     then procfiles_loop True fopen files (i + 1) \<lparr>count = of_nat m, ch = y\<rparr> io'
     else Some (Inr (0, snd (flush_token \<lparr>count = of_nat m, ch = y\<rparr> io'))))"
  using assms u32_of_nat_eq_0 [OF assms(4,5)]
  by (subst procfiles_loop.simps) (auto simp: Let_def procfiles_loop_done)

lemma procfiles_loop_later:
  "map fopen (drop i files) = map Some fs @ os \<Longrightarrow> i + length fs < length files \<Longrightarrow>
    0 < n \<Longrightarrow> n + length (concat fs) < 2 ^ 32 \<Longrightarrow> x \<noteq> 0 \<Longrightarrow> 0 \<notin> set (concat fs) \<Longrightarrow>
    joins x fs \<Longrightarrow> list_all short_lines fs \<Longrightarrow> feed (n, x) (concat fs) = (es, (m, y)) \<Longrightarrow>
    procfiles_loop True fopen files i \<lparr>count = of_nat n, ch = x\<rparr> io =
    procfiles_loop True fopen files (i + length fs) \<lparr>count = of_nat m, ch = y\<rparr> (emit es io)"
proof (induction fs arbitrary: i n x es io)
  case Nil
  then show ?case by simp
next
  case (Cons f fs)
  have i: "i < length files" using Cons.prems(2) by simp
  then have d: "drop i files = files ! i # drop (Suc i) files" by (rule Cons_nth_drop_Suc [symmetric])
  then have f: "fopen (files ! i) = Some f"
    and fs: "map fopen (drop (i + 1) files) = map Some fs @ os"
    using Cons.prems(1) by auto
  obtain es1 n' x' where f1: "feed (n, x) f = (es1, (n', x'))" by (metis surj_pair)
  obtain es2 where f2: "feed (n', x') (concat fs) = (es2, (m, y))" "es = es1 @ es2"
    using Cons.prems(9) f1 by (auto simp: feed_append Let_def split: prod.splits)
  have x': "0 < n'" "x' = last (x # f)" using feed_pending [OF f1 Cons.prems(3)] by auto
  have "x' \<noteq> 0" using x'(2) Cons.prems(5,6) by (cases "f = []") (auto dest: last_in_set)
  have len: "n' + length (concat fs) < 2 ^ 32" using feed_length [OF f1] Cons.prems(4) by simp
  have rl: "readlines True f \<lparr>count = of_nat n, ch = x\<rparr> io =
      Inr (\<lparr>count = of_nat n', ch = x'\<rparr>, emit es1 io)"
    using readlines_later [of n f x io] f1 Cons.prems by (auto split: prod.splits)
  then have "procfiles_loop True fopen files i \<lparr>count = of_nat n, ch = x\<rparr> io =
      procfiles_loop True fopen files (i + 1) \<lparr>count = of_nat n', ch = x'\<rparr> (emit es1 io)"
    using procfiles_loop_file [where fopen = fopen, OF i f rl x'(1)] len Cons.prems(2) by simp
  then show ?case
    using Cons.IH [OF fs _ x'(1) len \<open>x' \<noteq> 0\<close> _ _ _ f2(1), of "emit es1 io"]
      Cons.prems(2,6,7,8) x'(2) f2(2) by simp
qed

lemma procfiles_loop_first:
  assumes files: "files = prog # names" "map fopen names = map Some (f # fs) @ os"
    and size: "length (concat (f # fs)) < 2 ^ 32" and txtc: "f \<noteq> []" "0 \<notin> set (concat (f # fs))"
    and j: "joins (last f) fs" and short: "list_all short_lines (f # fs)" and more: "os \<noteq> []"
    and fd: "feed (1, hd f) (tl f @ concat fs) = (es, (m, y))"
  shows "procfiles_loop True fopen files 1 \<lparr>count = 0, ch = 0\<rparr> io =
    procfiles_loop True fopen files (Suc (length (f # fs))) \<lparr>count = of_nat m, ch = y\<rparr> (emit es io)"
proof -
  obtain c cs where f: "f = c # cs" using txtc(1) by (cases f) auto
  obtain es1 n x where f1: "feed (1, c) cs = (es1, (n, x))" by (metis surj_pair)
  obtain es2 where f2: "feed (n, x) (concat fs) = (es2, (m, y))" "es = es1 @ es2"
    using fd f f1 by (auto simp: feed_append Let_def split: prod.splits)
  have n: "0 < n" "x = last f" using feed_pending [OF f1] f by auto
  have "x \<noteq> 0" using n(2) txtc by (metis Un_iff concat.simps(2) last_in_set set_append)
  have len: "length names = Suc (length fs + length os)"
    using arg_cong [OF files(2), of length] by simp
  have op: "fopen (files ! 1) = Some f" "map fopen (drop 2 files) = map Some fs @ os"
    using files len by (cases names; auto)+
  have rl: "readlines True f \<lparr>count = 0, ch = 0\<rparr> io = Inr (\<lparr>count = of_nat n, ch = x\<rparr>, emit es1 io)"
    using readlines_first [of cs c io] f1 f size txtc(2) short by simp
  then have "procfiles_loop True fopen files 1 \<lparr>count = 0, ch = 0\<rparr> io =
      procfiles_loop True fopen files 2 \<lparr>count = of_nat n, ch = x\<rparr> (emit es1 io)"
    using procfiles_loop_file [where fopen = fopen, OF _ op(1) rl n(1)] feed_length [OF f1] f size files len more
    by (simp add: numeral_2_eq_2)
  also have "\<dots> = procfiles_loop True fopen files (2 + length fs) \<lparr>count = of_nat m, ch = y\<rparr>
      (emit es2 (emit es1 io))"
    using procfiles_loop_later [OF op(2) _ n(1) _ \<open>x \<noteq> 0\<close> _ _ _ f2(1)]
      feed_length [OF f1] f size files len more txtc(2) j n(2) short by simp
  finally show ?thesis using f2(2) by simp
qed

lemma joins_append: "joins x (fs @ gs) \<longleftrightarrow> joins x fs \<and> joins (last (x # concat fs)) gs"
  by (induction fs arbitrary: x) (auto simp: last_append)

lemma stdout_flush_pending:
  "stdout (snd (flush_token \<lparr>count = of_nat m, ch = y\<rparr> (emit es io))) =
    stdout io @ entries (es @ [(m, y)])"
  by (simp add: stdout_flush_token stdout_printToken stdout_emit entries_def entry_def)

lemma procfiles_loop_all:
  assumes files: "files = prog # names" "map fopen names = map Some (f # fs)"
    and size: "length (concat (f # fs)) < 2 ^ 32" and txtc: "f \<noteq> []" "0 \<notin> set (concat (f # fs))"
    and j: "joins (last f) fs" and short: "list_all short_lines (f # fs)"
  shows "\<exists>io'. procfiles_loop True fopen files 1 \<lparr>count = 0, ch = 0\<rparr> io = Some (Inr (0, io')) \<and>
    stdout io' = stdout io @ entries (rle (concat (f # fs)))"
proof (cases fs rule: rev_cases)
  case Nil
  obtain c cs where f: "f = c # cs" using txtc(1) by (cases f) auto
  obtain es m y where f1: "feed (1, c) cs = (es, (m, y))" by (metis surj_pair)
  have rl: "readlines True f \<lparr>count = 0, ch = 0\<rparr> io = Inr (\<lparr>count = of_nat m, ch = y\<rparr>, emit es io)"
    using readlines_first [of cs c io] f1 f size txtc(2) short by simp
  have m: "0 < m" "m < 2 ^ 32"
    using feed_pending [OF f1] feed_length [OF f1] size f by auto
  have "fopen (files ! 1) = Some f" "length files = 2" using files Nil by auto
  then show ?thesis
    using procfiles_loop_file [where fopen = fopen, OF _ _ rl m, of 1 files] rle_feed [OF f1]
      stdout_flush_pending [of m y es io] Nil f by (auto simp del: rle.simps)
next
  case (snoc gs g)
  obtain c cs where f: "f = c # cs" using txtc(1) by (cases f) auto
  let ?pre = "cs @ concat gs"
  obtain es n x where f1: "feed (1, c) ?pre = (es, (n, x))" by (metis surj_pair)
  obtain es2 m y where f2: "feed (n, x) g = (es2, (m, y))" by (metis surj_pair)
  have fd: "feed (1, c) (cs @ concat fs) = (es @ es2, (m, y))"
    using f1 f2 snoc by (simp add: feed_append [of _ "cs @ concat gs" g, simplified] Let_def)
  have n: "0 < n" "x = last (c # ?pre)" using feed_pending [OF f1] by auto
  have "x \<in> set (c # ?pre)" unfolding n(2) by (rule last_in_set) simp
  then have x0: "x \<noteq> 0" using txtc(2) f snoc by auto
  have m: "0 < m" "m < 2 ^ 32"
    using feed_pending [OF f2 n(1)] feed_length [OF f2] feed_length [OF f1] size f snoc by auto
  have len: "length files = Suc (Suc (Suc (length gs)))"
    using arg_cong [OF files(2), of length] files(1) snoc by simp
  have op: "fopen (files ! Suc (Suc (length gs))) = Some g"
    using arg_cong [OF files(2), of "\<lambda>l. l ! Suc (length gs)"] files(1) snoc len
    by (simp add: nth_append)
  have jg: "joins (last f) gs" "g \<noteq> [] \<longrightarrow> hd g = x"
    using j n(2) f snoc by (auto simp: joins_append last_append split: if_splits)
  have 1: "procfiles_loop True fopen files 1 \<lparr>count = 0, ch = 0\<rparr> io =
      procfiles_loop True fopen files (Suc (Suc (length gs))) \<lparr>count = of_nat n, ch = x\<rparr> (emit es io)"
    using procfiles_loop_first [of files prog names fopen f gs "[Some g]" es n x io]
      files snoc size txtc jg(1) f f1 short by simp
  have rl: "readlines True g \<lparr>count = of_nat n, ch = x\<rparr> (emit es io) =
      Inr (\<lparr>count = of_nat m, ch = y\<rparr>, emit (es @ es2) io)"
    using readlines_later [of n g x "emit es io"] n(1) feed_length [OF f1] size f snoc x0 txtc(2)
      jg(2) f2 short by simp
  have "procfiles_loop True fopen files 1 \<lparr>count = 0, ch = 0\<rparr> io =
      Some (Inr (0, snd (flush_token \<lparr>count = of_nat m, ch = y\<rparr> (emit (es @ es2) io))))"
    unfolding 1
    using procfiles_loop_file [where fopen = fopen, OF _ op rl m] len by simp
  moreover have "rle (concat (f # fs)) = (es @ es2) @ [(m, y)]"
    using rle_feed [OF fd] f by simp
  ultimately show ?thesis
    using stdout_flush_pending [of m y "es @ es2" io] by simp
qed

section \<open>Decompression\<close>

lemma unat_byte_of: "unat (ucast (drop_bit k w) :: u8) = (unat w div 2 ^ k) mod 2 ^ 8" for w :: u32
  by (simp add: unsigned_ucast_eq unat_drop_bit_eq drop_bit_eq_div [where ?'a = nat] take_bit_eq_mod)

lemma word_of_le_bytes: "word_of_le (bytes_le32 w) = unat w"
proof -
  have "unat w < 2 ^ 32" using unsigned_less [of w, where ?'a = nat] by simp
  then have *: "unat w div 2 ^ 24 mod 2 ^ 8 = unat w div 2 ^ 24"
    by simp
  have eq: "a mod 2 ^ 8 + 2 ^ 8 * (a div 2 ^ 8 mod 2 ^ 8 +
      2 ^ 8 * (a div 2 ^ 16 mod 2 ^ 8 + 2 ^ 8 * (a div 2 ^ 24))) = a" for a :: nat
  proof -
    have "a div 2 ^ 16 = (a div 2 ^ 8) div 2 ^ 8" "a div 2 ^ 24 = ((a div 2 ^ 8) div 2 ^ 8) div 2 ^ 8"
      by (simp_all add: div_mult2_eq [symmetric])
    then show ?thesis using mod_mult_div_eq by (metis mult.commute)
  qed
  show ?thesis
    using eq [of "unat w"] * unat_byte_of [of 0 w]
    by (simp add: word_of_le_def bytes_le32_def upt_rec unat_byte_of)
qed

lemma bytes_le32_split: "\<exists>a b c d. bytes_le32 w = [a, b, c, d]"
  by (simp add: bytes_le32_def upt_rec)

lemma unzip_entry: "n < 2 ^ 32 \<Longrightarrow> unzip (entry (n, x) @ bs) = replicate n x @ unzip bs"
  using bytes_le32_split [of "of_nat n"] word_of_le_bytes [of "of_nat n"]
  by (auto simp: entry_def unat_of_nat take_bit_eq_mod)

lemma unzip_entries: "list_all (\<lambda>r. fst r < 2 ^ 32) rs \<Longrightarrow> unzip (entries rs) = expand rs"
proof (induction rs)
  case (Cons r rs)
  obtain n x where "r = (n, x)" by fastforce
  with Cons show ?case
    using unzip_entry [of n x "entries rs"] by (auto simp: entries_def expand_def)
qed (simp add: entries_def expand_def)

lemma rle_counts: "(n, x) \<in> set (rle cs) \<Longrightarrow> 0 < n \<and> n \<le> length cs"
proof (induction cs rule: rle.induct)
  case (2 c cs)
  have "length (takeWhile (\<lambda>x. x = c) cs) \<le> length cs"
    "length (dropWhile (\<lambda>x. x = c) cs) \<le> length cs"
    by (rule length_takeWhile_le length_dropWhile_le)+
  with 2 show ?case by auto
qed simp

lemma unzip_rle: "length cs < 2 ^ 32 \<Longrightarrow> unzip (entries (rle cs)) = cs"
  using unzip_entries [of "rle cs"] rle_counts [of _ _ cs] expand_rle [of cs]
  by (fastforce simp: list_all_iff)

section \<open>Properties of wzip\<close>

text \<open>
  Property C6. On readable files of NUL-free text with lines of less than \<open>2 ^ 31\<close> bytes and less
  than \<open>2 ^ 32\<close> bytes in total, of which the first is not empty and each later one is empty or
  begins with the last character before it (\<^const>\<open>joins\<close>; other files are miscounted, see
  \<open>wzip_boundary_miscounts\<close>), \<open>wzip\<close> returns 0 and writes exactly the run-length encoding of the
  files' concatenation: for each maximal run its length as four little-endian bytes and its
  character. This is on a \<open>getline\<close> that allocates a buffer whenever the size is 0; on any other
  one it reads the uninitialised \<open>line\<close>.
\<close>

theorem wzip_writes_rle:
  assumes "argv = prog # names" "map fopen names = map Some (f # fs)"
    and "length (concat (f # fs)) < 2 ^ 32" "f \<noteq> []" "0 \<notin> set (concat (f # fs))"
    and "joins (last f) fs" "list_all short_lines (f # fs)"
  shows "if allocs
    then \<exists>io. wzip_main allocs fopen argv = Some (Inr (0, io)) \<and>
      stdout io = entries (rle (concat (f # fs)))
    else wzip_main allocs fopen argv = Some (Inl Uninitialised)"
proof -
  obtain io where "procfiles_loop True fopen argv 1 \<lparr>count = 0, ch = 0\<rparr> no_io = Some (Inr (0, io))"
    "stdout io = stdout no_io @ entries (rle (concat (f # fs)))"
    using procfiles_loop_all [OF assms] by blast
  moreover obtain name names' where "names = name # names'" "fopen name = Some f"
    using assms(2) by (cases names) auto
  ultimately show ?thesis
    using assms(1) wzip_main_uninitialised [of fopen name f prog names']
    by (auto simp: wzip_main_def procfiles_def no_io_def)
qed

theorem wzip_writes_rle_witness:
  "\<exists>io. wzip_main True (\<lambda>p. Some (if p = ''a'' then [97, 97, 10] else [10, 98]))
      [''wzip'', ''a'', ''b''] = Some (Inr (0, io)) \<and>
    stdout io = entries (rle [97, 97, 10, 10, 98])"
proof -
  have hyp: "map (\<lambda>p. Some (if p = ''a'' then [97, 97, 10] else [10, 98])) [''a'', ''b''] =
      map Some [[97, 97, 10 :: u8], [10, 98]]" by simp
  show ?thesis
    using wzip_writes_rle [where allocs = True and prog = "''wzip''", OF refl hyp] by (simp add: short_file del: rle.simps)
qed

text \<open>
  Property C16. What \<open>wzip\<close> writes for one NUL-free non-empty file of less than \<open>2 ^ 32\<close> bytes,
  with lines of less than \<open>2 ^ 31\<close>, expands back to the file, when each five-byte group is read as
  the README's decompressor reads it; again on a \<open>getline\<close> that allocates whenever the size is 0.
\<close>

theorem wzip_roundtrip:
  assumes "fopen name = Some cs" "cs \<noteq> []" "0 \<notin> set cs" "length cs < 2 ^ 32" "short_lines cs"
  shows "if allocs
    then \<exists>io. wzip_main allocs fopen [prog, name] = Some (Inr (0, io)) \<and> unzip (stdout io) = cs
    else wzip_main allocs fopen [prog, name] = Some (Inl Uninitialised)"
proof -
  obtain io where "procfiles_loop True fopen [prog, name] 1 \<lparr>count = 0, ch = 0\<rparr> no_io = Some (Inr (0, io))"
    "stdout io = stdout no_io @ entries (rle (concat [cs]))"
    using procfiles_loop_all [of "[prog, name]" prog "[name]" fopen cs "[]"] assms by auto
  then show ?thesis
    using unzip_rle [OF assms(4)] wzip_main_uninitialised [of fopen name cs prog "[]"] assms(1)
    by (auto simp: wzip_main_def procfiles_def no_io_def)
qed

theorem wzip_roundtrip_witness:
  "\<exists>io. wzip_main True (\<lambda>_. Some [104, 105, 105]) [''wzip'', ''f''] = Some (Inr (0, io)) \<and>
    unzip (stdout io) = [104, 105, 105]"
  using wzip_roundtrip [where fopen = "\<lambda>_. Some [104, 105, 105]" and name = "''f''" and
      cs = "[104, 105, 105]" and allocs = True and prog = "''wzip''"]
  by (simp add: short_file)

text \<open>
  Property C32. When the first file is empty, \<open>wzip\<close> never returns: the token's count stays 0, the
  loop does not move on to the next file and opens the same one again, for ever. (On a \<open>getline\<close>
  that does not allocate for the size 0 it reads the uninitialised \<open>line\<close> at once.)
\<close>

theorem wzip_empty_first_file_diverges:
  assumes "fopen name = Some []"
  shows "wzip_main allocs fopen (prog # name # names) = (if allocs then None else Some (Inl Uninitialised))"
proof -
  let ?files = "prog # name # names"
  have "procfiles_loop True fopen ?files 1 \<lparr>count = 0, ch = 0\<rparr> no_io \<noteq> Some r" for r
  proof
    assume ret: "procfiles_loop True fopen ?files 1 \<lparr>count = 0, ch = 0\<rparr> no_io = Some r"
    have "\<not> (True \<and> fopen = fopen \<and> ?files = ?files \<and> (1 :: nat) = 1 \<and>
        \<lparr>count = 0 :: u32, ch = 0 :: u8\<rparr> = \<lparr>count = 0, ch = 0\<rparr>)"
    proof (rule procfiles_loop.raw_induct [where P = "\<lambda>al fo fs i t io r.
          \<not> (al \<and> fo = fopen \<and> fs = ?files \<and> i = 1 \<and> t = \<lparr>count = 0, ch = 0\<rparr>)", OF _ ret])
      fix f al fo fs i t io r
      assume IH: "\<And>al fo fs i t io r. f al fo fs i t io = Some r \<Longrightarrow>
          \<not> (al \<and> fo = fopen \<and> fs = ?files \<and> i = 1 \<and> t = \<lparr>count = 0, ch = 0\<rparr>)"
        and eq: "(if i < length fs then
            case fo (fs ! i) of
              None \<Rightarrow> Some (Inr (1, put (bytes ''wzip: cannot open file'' @ [10]) io))
            | Some fp \<Rightarrow> (case readlines al fp t io of Inl e \<Rightarrow> Some (Inl e)
              | Inr r \<Rightarrow> let i' = if count (fst r) \<noteq> 0 then i + 1 else i;
                  q = if length fs \<le> i' then flush_token (fst r) (snd r) else r
                in f al fo fs i' (fst q) (snd q))
            else Some (Inr (0, io))) = Some r"
      show "\<not> (al \<and> fo = fopen \<and> fs = ?files \<and> i = 1 \<and> t = \<lparr>count = 0, ch = 0\<rparr>)"
      proof
        assume *: "al \<and> fo = fopen \<and> fs = ?files \<and> i = 1 \<and> t = \<lparr>count = 0, ch = 0\<rparr>"
        then have "f True fopen ?files 1 \<lparr>count = 0, ch = 0\<rparr> io = Some r"
          using eq assms by (simp add: readlines_def scan_lines.simps [of "[]"])
        from IH [OF this] show False by simp
      qed
    qed
    then show False by simp
  qed
  then have "procfiles_loop True fopen ?files 1 \<lparr>count = 0, ch = 0\<rparr> no_io = None"
    by (cases "procfiles_loop True fopen ?files 1 \<lparr>count = 0, ch = 0\<rparr> no_io") auto
  then show ?thesis
    using wzip_main_uninitialised [of fopen name "[]" prog names] assms by (simp add: wzip_main_def procfiles_def)
qed

theorem wzip_empty_first_file_diverges_witness:
  "wzip_main True (\<lambda>p. Some []) [''wzip'', ''empty'', ''other''] = None"
  using wzip_empty_first_file_diverges [of "\<lambda>p. Some []" "''empty''" True "''wzip''" "[''other'']"] by simp

text \<open>
  At the boundary of two files the first character of the second is counted as one
  more of the token carried over, whatever it is: two one-byte files holding different characters
  \<open>x\<close> and \<open>c\<close> come out as a single run of two \<open>x\<close>, and \<open>c\<close> is lost.
\<close>

theorem wzip_boundary_miscounts:
  assumes "map fopen names = [Some [x], Some [c]]" "x \<noteq> 0" "c \<noteq> x"
  shows "\<exists>io. wzip_main True fopen (prog # names) = Some (Inr (0, io)) \<and>
    stdout io = entry (2, x) \<and> unzip (stdout io) = [x, x]"
proof -
  obtain a b where n: "names = [a, b]" "fopen a = Some [x]" "fopen b = Some [c]"
    using assms(1) by (auto simp: map_eq_Cons_conv)
  have r1: "readlines True [x] \<lparr>count = 0, ch = 0\<rparr> no_io = Inr (\<lparr>count = of_nat 1, ch = x\<rparr>, no_io)"
    using readlines_first [of "[]" x no_io] assms(2) by (simp add: short_file)
  have r2: "readlines True [c] \<lparr>count = of_nat 1, ch = x\<rparr> no_io = Inr (\<lparr>count = of_nat 2, ch = x\<rparr>, no_io)"
    using assms(2)
    by (simp add: readlines_def scan_lines_Some [of "[c]" c "[]" "[]"] scan_lines.simps [of "[]"]
        scan_line_first scan_line.simps [of "[c]" "Suc 0"] scan_defs Let_def word_neq_0_conv [symmetric] peek_def int_ok_def)
  have "procfiles_loop True fopen (prog # names) 1 \<lparr>count = 0, ch = 0\<rparr> no_io =
      Some (Inr (0, snd (flush_token \<lparr>count = of_nat 2, ch = x\<rparr> no_io)))"
    using procfiles_loop_file [where fopen = fopen, OF _ _ r1, of 1 "prog # names"]
      procfiles_loop_file [where fopen = fopen, OF _ _ r2, of "Suc (Suc 0)" "prog # names"] n by simp
  moreover have "stdout (snd (flush_token \<lparr>count = of_nat 2, ch = x\<rparr> no_io)) = entry (2, x)"
    by (simp add: stdout_flush_token stdout_printToken no_io_def entry_def)
  moreover have "unzip (entry (2, x)) = [x, x]"
  proof -
    have "replicate 2 x = [x, x]" by (simp add: numeral_2_eq_2)
    then show ?thesis using unzip_entry [of 2 x "[]"] by simp
  qed
  ultimately show ?thesis
    using n(1) by (simp add: wzip_main_def procfiles_def)
qed

theorem wzip_boundary_miscounts_witness:
  "\<exists>io. wzip_main True (\<lambda>p. if p = ''a'' then Some [97] else Some [98]) [''wzip'', ''a'', ''b''] =
      Some (Inr (0, io)) \<and> stdout io = entry (2, 97) \<and> unzip (stdout io) = [97, 97]"
  using wzip_boundary_miscounts [of "\<lambda>p. if p = ''a'' then Some [97] else Some [98]"
      "[''a'', ''b'']" 97 98 "''wzip''"] by simp

text \<open>
  A file that cannot be opened ends the run with status 1 and the two messages of
  \<open>procfiles\<close> and \<open>main\<close>; of the files before it the completed runs are written, and the last
  run, still in the token, is lost.
\<close>

theorem wzip_cannot_open_file:
  assumes "argv = prog # names" "map fopen names = map Some (f # fs) @ None # os"
    and "length (concat (f # fs)) < 2 ^ 32" "f \<noteq> []" "0 \<notin> set (concat (f # fs))"
    and "joins (last f) fs" "list_all short_lines (f # fs)"
  shows "\<exists>io. wzip_main True fopen argv = Some (Inr (1, io)) \<and>
    stdout io = entries (butlast (rle (concat (f # fs)))) @ bytes ''wzip: cannot open file'' @ [10] @
      bytes ''Error: failbytes are set to fail, call Sherlock!'' @ [10]"
proof -
  obtain es m y where fd: "feed (1, hd f) (tl f @ concat fs) = (es, (m, y))" by (metis surj_pair)
  have es: "butlast (rle (concat (f # fs))) = es"
    using rle_feed [OF fd] assms(4) by (cases f) simp_all
  have len: "length names = Suc (Suc (length fs + length os))"
    using arg_cong [OF assms(2), of length] by simp
  have "fopen (argv ! Suc (length (f # fs))) = None"
    using arg_cong [OF assms(2), of "\<lambda>l. l ! Suc (length fs)"] assms(1) len
    by (simp add: nth_append)
  then have "procfiles_loop True fopen argv (Suc (length (f # fs))) t io =
      Some (Inr (1, put (bytes ''wzip: cannot open file'' @ [10]) io))" for t io
    using assms(1) len by (subst procfiles_loop.simps) simp
  then have "procfiles_loop True fopen argv 1 \<lparr>count = 0, ch = 0\<rparr> no_io =
      Some (Inr (1, put (bytes ''wzip: cannot open file'' @ [10]) (emit es no_io)))"
    using procfiles_loop_first [OF assms _ fd] by simp
  then show ?thesis
    using assms(1) len
    by (simp add: wzip_main_def procfiles_def es put_def stdout_emit no_io_def del: rle.simps concat.simps)
qed

theorem wzip_cannot_open_file_witness:
  "\<exists>io. wzip_main True (\<lambda>p. if p = ''a'' then Some [97, 98] else None) [''wzip'', ''a'', ''b''] =
      Some (Inr (1, io)) \<and>
    stdout io = entries (butlast (rle [97, 98])) @ bytes ''wzip: cannot open file'' @ [10] @
      bytes ''Error: failbytes are set to fail, call Sherlock!'' @ [10]"
proof -
  have hyp: "map (\<lambda>p. if p = ''a'' then Some [97, 98] else None) [''a'', ''b''] =
      map Some [[97, 98 :: u8]] @ None # []" by simp
  show ?thesis using wzip_cannot_open_file [OF refl hyp, of "''wzip''"] by (simp add: short_file del: rle.simps)
qed

end
