(* ===== verification/Contracts.thy ===== *)
theory Contracts
  imports Prelude
begin

text \<open>
  The sequential interfaces that several data structures of the repository implement: a bounded
  stack (the growing vector of \<open>datastructures/vector\<close>, the token stack of \<open>cdecl\<close>), a FIFO
  (the linked queue of \<open>threads-locks\<close>, the ring buffer of \<open>threads-cv\<close>) and a set of keys (the
  list and the hash table of \<open>threads-locks\<close>). Each contract relates the operations to an abstract
  list or set and states what a client may rely on; the components interpret the locales on
  their own definitions.
\<close>

section \<open>Bounded stacks\<close>

text \<open>Client code over any stack: pushing a list of items, popping a number of them.\<close>

fun push_all :: "('a \<Rightarrow> 's \<Rightarrow> 's res) \<Rightarrow> 'a list \<Rightarrow> 's \<Rightarrow> 's res" where
  "push_all push [] s = Inr s"
| "push_all push (x # xs) s = and_then (push x s) (push_all push xs)"

fun pop_n :: "('s \<Rightarrow> ('a \<times> 's) res) \<Rightarrow> nat \<Rightarrow> 's \<Rightarrow> ('a list \<times> 's) res" where
  "pop_n pop 0 s = Inr ([], s)"
| "pop_n pop (Suc n) s =
     and_then (pop s) (\<lambda>(x, t). and_then (pop_n pop n t) (\<lambda>(xs, u). Inr (x # xs, u)))"

locale bounded_stack =
  fixes push :: "'a \<Rightarrow> 's \<Rightarrow> 's res"
    and pop :: "'s \<Rightarrow> ('a \<times> 's) res"
    and items :: "'s \<Rightarrow> 'a list"
    and capacity :: "'s \<Rightarrow> nat"
    and invar :: "'s \<Rightarrow> bool"
  assumes push_ok: "invar s \<Longrightarrow> length (items s) < capacity s \<Longrightarrow>
      \<exists>t. push x s = Inr t \<and> invar t \<and> items t = items s @ [x] \<and> capacity t = capacity s"
    and pop_ok: "invar s \<Longrightarrow> items s = xs @ [x] \<Longrightarrow>
      \<exists>t. pop s = Inr (x, t) \<and> invar t \<and> items t = xs \<and> capacity t = capacity s"
begin

lemma push_all_ok:
  "invar s \<Longrightarrow> length (items s) + length xs \<le> capacity s \<Longrightarrow>
    \<exists>t. push_all push xs s = Inr t \<and> invar t \<and> items t = items s @ xs \<and> capacity t = capacity s"
proof (induction xs arbitrary: s)
  case Nil
  then show ?case by simp
next
  case (Cons x xs)
  then obtain t where t: "push x s = Inr t" "invar t" "items t = items s @ [x]"
    "capacity t = capacity s"
    using push_ok [of s x] by auto
  then obtain u where "push_all push xs t = Inr u" "invar u" "items u = items t @ xs"
    "capacity u = capacity t"
    using Cons.IH [of t] Cons.prems by auto
  with t show ?case by simp
qed

lemma pop_n_ok:
  "invar s \<Longrightarrow> items s = ys @ xs \<Longrightarrow>
    \<exists>t. pop_n pop (length xs) s = Inr (rev xs, t) \<and> invar t \<and> items t = ys \<and>
      capacity t = capacity s"
proof (induction xs arbitrary: s rule: rev_induct)
  case Nil
  then show ?case by simp
next
  case (snoc x xs)
  then obtain t where t: "pop s = Inr (x, t)" "invar t" "items t = ys @ xs" "capacity t = capacity s"
    using pop_ok [of s "ys @ xs" x] by auto
  then obtain u where "pop_n pop (length xs) t = Inr (rev xs, u)" "invar u" "items u = ys"
    "capacity u = capacity t"
    using snoc.IH [of t] by auto
  with t show ?case by simp
qed

lemma push_pop:
  assumes "invar s" "length (items s) + length xs \<le> capacity s"
  shows "\<exists>t. and_then (push_all push xs s) (pop_n pop (length xs)) = Inr (rev xs, t) \<and>
    invar t \<and> items t = items s"
proof -
  obtain t where t: "push_all push xs s = Inr t" "invar t" "items t = items s @ xs"
    using push_all_ok [OF assms] by blast
  then show ?thesis using pop_n_ok [of t "items s" xs] by auto
qed

end

section \<open>FIFO queues\<close>

text \<open>
  Client code: a sequence of enqueue and dequeue operations. The result lists what the successful
  dequeues returned.
\<close>

datatype 'a queue_op = Enq 'a | Deq

fun queue_run ::
    "('a \<Rightarrow> 's \<Rightarrow> 'e + 's) \<Rightarrow> ('s \<Rightarrow> 'e + 'a option \<times> 's) \<Rightarrow> 'a queue_op list \<Rightarrow> 's \<Rightarrow>
      'e + 'a list \<times> 's" where
  "queue_run enq deq [] s = Inr ([], s)"
| "queue_run enq deq (Enq x # ops) s = and_then (enq x s) (queue_run enq deq ops)"
| "queue_run enq deq (Deq # ops) s =
     and_then (deq s) (\<lambda>(r, t). and_then (queue_run enq deq ops t) (\<lambda>(ys, u).
       Inr ((case r of None \<Rightarrow> ys | Some y \<Rightarrow> y # ys), u)))"

fun enqueued :: "'a queue_op list \<Rightarrow> 'a list" where
  "enqueued [] = []"
| "enqueued (Enq x # ops) = x # enqueued ops"
| "enqueued (Deq # ops) = enqueued ops"

locale fifo =
  fixes enq :: "'a \<Rightarrow> 's \<Rightarrow> 'e + 's"
    and deq :: "'s \<Rightarrow> 'e + 'a option \<times> 's"
    and items :: "'s \<Rightarrow> 'a list"
    and storable :: "'a \<Rightarrow> bool"
    and room :: "'s \<Rightarrow> bool"
    and invar :: "'s \<Rightarrow> bool"
  assumes enq_ok: "invar s \<Longrightarrow> storable x \<Longrightarrow> room s \<Longrightarrow>
      \<exists>t. enq x s = Inr t \<and> invar t \<and> items t = items s @ [x]"
    and enq_room: "invar s \<Longrightarrow> enq x s = Inr t \<Longrightarrow> room s"
    and deq_empty: "invar s \<Longrightarrow> items s = [] \<Longrightarrow> \<exists>t. deq s = Inr (None, t) \<and> invar t \<and> items t = []"
    and deq_ok: "invar s \<Longrightarrow> items s = x # xs \<Longrightarrow>
      \<exists>t. deq s = Inr (Some x, t) \<and> invar t \<and> items t = xs"
begin

lemma deq_cases:
  assumes "invar s"
  obtains t where "deq s = Inr (None, t)" "invar t" "items s = []" "items t = []"
    | x t where "deq s = Inr (Some x, t)" "invar t" "items s = x # items t"
proof (cases "items s")
  case Nil
  then show ?thesis using deq_empty [OF assms Nil] that(1) by blast
next
  case (Cons x xs)
  then show ?thesis using deq_ok [OF assms Cons] that(2) by blast
qed

text \<open>Whatever was dequeued, followed by what is left, is what was there followed by what was enqueued.\<close>

lemma fifo_order:
  "invar s \<Longrightarrow> list_all storable (enqueued ops) \<Longrightarrow> queue_run enq deq ops s = Inr (ys, t) \<Longrightarrow>
    invar t \<and> ys @ items t = items s @ enqueued ops"
proof (induction ops arbitrary: s ys)
  case Nil
  then show ?case by simp
next
  case (Cons op ops)
  show ?case
  proof (cases op)
    case (Enq x)
    then obtain u where u: "enq x s = Inr u" "queue_run enq deq ops u = Inr (ys, t)"
      using Cons.prems(3) by (auto simp: and_then_Inr_iff)
    then have "invar u" "items u = items s @ [x]"
      using enq_ok [OF Cons.prems(1) _ enq_room [OF Cons.prems(1) u(1)], of x] Cons.prems(2) Enq
      by auto
    then show ?thesis using Cons.IH [OF _ _ u(2)] Cons.prems(2) Enq by simp
  next
    case Deq
    show ?thesis
      using Cons.prems(1)
      by (cases rule: deq_cases) (use Deq Cons.IH Cons.prems(2,3) in \<open>fastforce simp: and_then_Inr_iff\<close>)+
  qed
qed

end

text \<open>A queue that always has room: the client's operations all succeed.\<close>

locale unbounded_fifo = fifo enq deq items storable room invar
  for enq :: "'a \<Rightarrow> 's \<Rightarrow> 'e + 's" and deq :: "'s \<Rightarrow> 'e + 'a option \<times> 's"
    and items :: "'s \<Rightarrow> 'a list" and storable :: "'a \<Rightarrow> bool"
    and room :: "'s \<Rightarrow> bool" and invar :: "'s \<Rightarrow> bool" +
  assumes always_room: "invar s \<Longrightarrow> room s"
begin

lemma run_total:
  "invar s \<Longrightarrow> list_all storable (enqueued ops) \<Longrightarrow> \<exists>ys t. queue_run enq deq ops s = Inr (ys, t)"
proof (induction ops arbitrary: s)
  case Nil
  then show ?case by simp
next
  case (Cons op ops)
  show ?case
  proof (cases op)
    case (Enq x)
    obtain u where "enq x s = Inr u" "invar u"
      using enq_ok [OF Cons.prems(1) _ always_room [OF Cons.prems(1)]] Cons.prems(2) Enq by auto
    then show ?thesis using Cons.IH [of u] Cons.prems(2) Enq by simp
  next
    case Deq
    show ?thesis
      using Cons.prems(1)
      by (cases rule: deq_cases) (use Deq Cons.IH Cons.prems(2) in \<open>fastforce\<close>)+
  qed
qed

lemma run_order:
  assumes "invar s" "list_all storable (enqueued ops)"
  shows "\<exists>ys t. queue_run enq deq ops s = Inr (ys, t) \<and> invar t \<and>
    ys @ items t = items s @ enqueued ops"
  using run_total [OF assms] fifo_order [OF assms] by blast

end

section \<open>Sets of keys\<close>

text \<open>Client code: a list of insertions.\<close>

fun insert_all :: "('k \<Rightarrow> 's \<Rightarrow> 'e + 's) \<Rightarrow> 'k list \<Rightarrow> 's \<Rightarrow> 'e + 's" where
  "insert_all ins [] s = Inr s"
| "insert_all ins (k # ks) s = and_then (ins k s) (insert_all ins ks)"

text \<open>A lookup may loop or fault; that it does not is part of the contract.\<close>

locale key_set =
  fixes ins :: "'k \<Rightarrow> 's \<Rightarrow> 'e + 's"
    and lookup :: "'s \<Rightarrow> 'k \<Rightarrow> ('e + bool) option"
    and keys :: "'s \<Rightarrow> 'k set"
    and valid :: "'k \<Rightarrow> bool"
    and invar :: "'s \<Rightarrow> bool"
  assumes ins_ok: "invar s \<Longrightarrow> valid k \<Longrightarrow> \<exists>t. ins k s = Inr t \<and> invar t \<and> keys t = insert k (keys s)"
    and lookup_ok: "invar s \<Longrightarrow> valid k \<Longrightarrow> lookup s k = Some (Inr (k \<in> keys s))"
begin

lemma insert_all_ok:
  "invar s \<Longrightarrow> list_all valid ks \<Longrightarrow>
    \<exists>t. insert_all ins ks s = Inr t \<and> invar t \<and> keys t = set ks \<union> keys s"
proof (induction ks arbitrary: s)
  case Nil
  then show ?case by simp
next
  case (Cons k ks)
  then obtain t where t: "ins k s = Inr t" "invar t" "keys t = insert k (keys s)"
    using ins_ok [of s k] by auto
  then show ?case using Cons.IH [of t] Cons.prems by auto
qed

lemma lookup_after_inserts:
  assumes "invar s" "list_all valid ks" "valid k"
  shows "\<exists>t. insert_all ins ks s = Inr t \<and> invar t \<and> lookup t k = Some (Inr (k \<in> set ks \<or> k \<in> keys s))"
proof -
  obtain t where t: "insert_all ins ks s = Inr t" "invar t" "keys t = set ks \<union> keys s"
    using insert_all_ok [OF assms(1,2)] by blast
  then show ?thesis using lookup_ok [OF t(2) assms(3)] by auto
qed

end

end
