(* ===== verification/Dynvec.thy ===== *)
theory Dynvec
  imports Contracts
begin

text \<open>
  \<open>src/datastructures/vector/src/vector.c\<close>: an \<open>int\<close> vector with dynamic resizing. A heap block is
  the list of its \<open>int\<close> cells, a cell that was never written being \<^const>\<open>None\<close>; a null pointer is
  \<^const>\<open>None\<close>. The allocator is a parameter \<open>malloc_ok\<close>: whether a request of so many bytes
  succeeds. \<open>size_t\<close> is 64 bits and the conversions between \<open>int\<close> and \<open>size_t\<close> are those of C.
\<close>

section \<open>The vector and its operations\<close>

type_synonym block = "int option list"

record vector =
  sz :: size_t
  nitems :: int
  elem :: "block option"

definition to_size_t :: "int \<Rightarrow> size_t" where
  "to_size_t x = word_of_int x"

definition malloc_ints :: "(nat \<Rightarrow> bool) \<Rightarrow> size_t \<Rightarrow> block option" where
  "malloc_ints malloc_ok n =
     (if malloc_ok (unat n) then Some (replicate (unat n div 4) None) else None)"

text \<open>\<open>realloc\<close> keeps the old contents up to the smaller of the two sizes.\<close>

definition realloc_ints :: "(nat \<Rightarrow> bool) \<Rightarrow> block option \<Rightarrow> size_t \<Rightarrow> block option" where
  "realloc_ints malloc_ok p n =
     (case p of
        None \<Rightarrow> malloc_ints malloc_ok n
      | Some b \<Rightarrow>
          (if malloc_ok (unat n)
           then Some (take (unat n div 4) b @ replicate (unat n div 4 - length b) None)
           else None))"

text \<open>The first component lists the \<open>perror\<close> messages.\<close>

definition init_vector :: "(nat \<Rightarrow> bool) \<Rightarrow> int \<Rightarrow> string list \<times> vector" where
  "init_vector malloc_ok n =
     ((if n < 1 then [''Error: trying to initialize a vector with size less than 1.''] else []),
      \<lparr>sz = to_size_t n, nitems = 0, elem = malloc_ints malloc_ok (to_size_t n * 4)\<rparr>)"

definition write_elem :: "vector \<Rightarrow> int \<Rightarrow> int \<Rightarrow> vector res" where
  "write_elem v i x =
     (case elem v of
        None \<Rightarrow> Inl Null_pointer
      | Some b \<Rightarrow>
          (if 0 \<le> i \<and> i < int (length b) then Inr (v\<lparr>elem := Some (b[nat i := Some x])\<rparr>)
           else Inl Out_of_bounds))"

definition read_elem :: "vector \<Rightarrow> int \<Rightarrow> int res" where
  "read_elem v i =
     (case elem v of
        None \<Rightarrow> Inl Null_pointer
      | Some b \<Rightarrow>
          (if 0 \<le> i \<and> i < int (length b)
           then (case b ! nat i of None \<Rightarrow> Inl Uninitialised | Some x \<Rightarrow> Inr x)
           else Inl Out_of_bounds))"

definition push_vector :: "(nat \<Rightarrow> bool) \<Rightarrow> int \<Rightarrow> vector \<Rightarrow> vector res" where
  "push_vector malloc_ok item v =
     (if \<not> int_ok (nitems v + 1) then Inl Int_overflow
      else
        (let v1 = (if to_size_t (nitems v + 1) > sz v
                   then (let newsize = sint (ucast (sz v + 1) :: 32 word)
                         in v\<lparr>elem := realloc_ints malloc_ok (elem v) (to_size_t newsize * 4)\<rparr>)
                   else v)
         in and_then (write_elem v1 (nitems v1) item)
              (\<lambda>v2. Inr (v2\<lparr>nitems := nitems v2 + 1\<rparr>))))"

definition pop_vector :: "vector \<Rightarrow> (string list \<times> int \<times> vector) res" where
  "pop_vector v =
     (if nitems v < 1 then Inr ([''Error: vector is empty''], -1, v)
      else and_then (read_elem v (nitems v - 1))
             (\<lambda>val. Inr ([], val, v\<lparr>nitems := nitems v - 1\<rparr>)))"

text \<open>\<open>print_vector\<close>: the pairs it prints, one line each.\<close>

function print_vector :: "vector \<Rightarrow> int \<Rightarrow> (int \<times> int) list res" where
  "print_vector v i =
     (if i < nitems v
      then and_then (read_elem v i)
             (\<lambda>x. and_then (print_vector v (i + 1)) (\<lambda>out. Inr ((i, x) # out)))
      else Inr [])"
  by pat_completeness auto
termination
  by (relation "measure (\<lambda>(v, i). nat (nitems v - i))") auto

declare print_vector.simps [simp del]

definition free_vector :: "vector \<Rightarrow> vector" where
  "free_vector v = v\<lparr>sz := 0, elem := None\<rparr>"

text \<open>\<open>main\<close> up to its second \<open>print_vector\<close>: the values printed, or the fault it runs into.\<close>

definition vector_main :: "(nat \<Rightarrow> bool) \<Rightarrow> ((int \<times> int) list \<times> int list \<times> (int \<times> int) list) res" where
  "vector_main malloc_ok =
     and_then (push_all (push_vector malloc_ok) [1, 2, 3] (snd (init_vector malloc_ok 3))) (\<lambda>v1.
     and_then (print_vector v1 0) (\<lambda>out1.
     and_then (pop_vector v1) (\<lambda>(m1, r1, v2).
     and_then (pop_vector v2) (\<lambda>(m2, r2, v3).
     and_then (pop_vector v3) (\<lambda>(m3, r3, v4).
     and_then (push_all (push_vector malloc_ok) [0, 1, 2, 3, 4] v4) (\<lambda>v5.
     and_then (print_vector v5 0) (\<lambda>out2.
       Inr (out1, [r1, r2, r3], out2))))))))"

section \<open>What the vector holds\<close>

definition vec_cells :: "vector \<Rightarrow> block" where
  "vec_cells v = (case elem v of None \<Rightarrow> [] | Some b \<Rightarrow> b)"

definition vec_items :: "vector \<Rightarrow> int list" where
  "vec_items v = map the (take (nat (nitems v)) (vec_cells v))"

text \<open>One more item than the size it was made with.\<close>

definition vec_capacity :: "vector \<Rightarrow> nat" where
  "vec_capacity v = unat (sz v) + 1"

text \<open>
  The block has the requested number of cells, or one more after it was grown; the cells in use
  are written; the allocator grants the one size a push asks for.
\<close>

definition vec_ok :: "(nat \<Rightarrow> bool) \<Rightarrow> vector \<Rightarrow> bool" where
  "vec_ok malloc_ok v \<longleftrightarrow>
     elem v \<noteq> None \<and> unat (sz v) + 2 < 2 ^ 31 \<and> malloc_ok (4 * (unat (sz v) + 1)) \<and>
     length (vec_cells v) \<in> {unat (sz v), unat (sz v) + 1} \<and>
     0 \<le> nitems v \<and> nat (nitems v) \<le> length (vec_cells v) \<and>
     None \<notin> set (take (nat (nitems v)) (vec_cells v))"

definition pop_value :: "vector \<Rightarrow> (int \<times> vector) res" where
  "pop_value v = and_then (pop_vector v) (\<lambda>(msgs, x, w). Inr (x, w))"

section \<open>Conversions\<close>

lemma unat_to_size_t: "0 \<le> x \<Longrightarrow> x < 2 ^ 64 \<Longrightarrow> unat (to_size_t x) = nat x"
  by (simp add: to_size_t_def unsigned_of_int take_bit_int_eq_self)

lemma unat_Suc_word: "unat (w :: size_t) + 1 < 2 ^ 64 \<Longrightarrow> unat (w + 1) = unat w + 1"
  by (simp add: unat_word_ariths)

lemma newsize_eq:
  assumes "unat (w :: size_t) + 1 = k" "k < 2 ^ 31"
  shows "sint (ucast (w + 1) :: 32 word) = int k"
proof -
  have "unat (ucast (w + 1) :: 32 word) = k"
    using assms by (auto simp: unsigned_ucast_eq unat_Suc_word take_bit_nat_eq_self)
  then have "uint (ucast (w + 1) :: 32 word) = int k" by (metis uint_nat)
  with assms(2) show ?thesis by (simp add: sint_uint signed_take_bit_int_eq_self)
qed

lemma alloc_bytes:
  assumes "k < 2 ^ 31"
  shows "unat (to_size_t (int k) * 4) = 4 * k"
proof -
  have "unat (to_size_t (int k)) = k" using assms by (simp add: unat_to_size_t)
  with assms show ?thesis by (simp add: unat_word_ariths)
qed

section \<open>The operations on the items\<close>

lemma grown_block:
  fixes w :: size_t
  assumes "malloc_ok (4 * (unat w + 1))" "unat w + 1 < 2 ^ 31"
    and "length b \<in> {unat w, unat w + 1}"
  shows "realloc_ints malloc_ok (Some b) (to_size_t (sint (ucast (w + 1) :: 32 word)) * 4) =
    Some (b @ replicate (unat w + 1 - length b) None)"
proof -
  have "unat (to_size_t (sint (ucast (w + 1) :: 32 word)) * 4) = 4 * (unat w + 1)"
    by (simp only: newsize_eq [OF refl assms(2)] alloc_bytes [OF assms(2)])
  then show ?thesis using assms(1,3) by (auto simp: realloc_ints_def)
qed

text \<open>The block that a push writes into.\<close>

definition push_block :: "vector \<Rightarrow> block" where
  "push_block v = (if nat (nitems v) + 1 > unat (sz v)
     then vec_cells v @ replicate (unat (sz v) + 1 - length (vec_cells v)) None
     else vec_cells v)"

lemma push_vector_block:
  assumes "vec_ok malloc_ok v"
  shows "push_vector malloc_ok x v =
    (if nat (nitems v) < length (push_block v)
     then Inr (v\<lparr>elem := Some ((push_block v)[nat (nitems v) := Some x]), nitems := nitems v + 1\<rparr>)
     else Inl Out_of_bounds)"
proof -
  obtain b where b: "elem v = Some b" using assms by (auto simp: vec_ok_def)
  then have cells: "vec_cells v = b" by (simp add: vec_cells_def)
  have ok: "unat (sz v) + 2 < 2 ^ 31" "malloc_ok (4 * (unat (sz v) + 1))"
    "length b \<in> {unat (sz v), unat (sz v) + 1}" "0 \<le> nitems v" "nat (nitems v) \<le> length b"
    using assms cells by (auto simp: vec_ok_def)
  have n: "unat (to_size_t (nitems v + 1)) = nat (nitems v) + 1"
    using ok by (subst unat_to_size_t) auto
  have gt: "to_size_t (nitems v + 1) > sz v \<longleftrightarrow> nat (nitems v) + 1 > unat (sz v)"
    by (simp add: word_less_nat_alt n)
  have "int_ok (nitems v + 1)" using ok by (auto simp: int_ok_def)
  then show ?thesis
    using ok grown_block [of malloc_ok "sz v" b]
    by (auto simp: push_vector_def gt b cells write_elem_def push_block_def Let_def nat_less_iff
        split: if_splits)
qed

lemma vec_items_push:
  fixes x :: int
  assumes "vec_ok malloc_ok v" "nat (nitems v) < length (push_block v)"
    and w_def: "w = v\<lparr>elem := Some ((push_block v)[nat (nitems v) := Some x]), nitems := nitems v + 1\<rparr>"
  shows "vec_ok malloc_ok w" "vec_items w = vec_items v @ [x]" "vec_capacity w = vec_capacity v"
proof -
  let ?n = "nat (nitems v)"
  have ok: "length (vec_cells v) \<in> {unat (sz v), unat (sz v) + 1}" "0 \<le> nitems v"
    "?n \<le> length (vec_cells v)" "None \<notin> set (take ?n (vec_cells v))"
    using assms(1) by (auto simp: vec_ok_def)
  have cells: "vec_cells w = (push_block v)[?n := Some x]"
    by (simp add: w_def vec_cells_def)
  have n: "nat (nitems w) = Suc ?n" using ok(2) by (simp add: w_def)
  have "take ?n (push_block v) = take ?n (vec_cells v)"
    using ok(3) by (simp add: push_block_def)
  then have used: "take (Suc ?n) (vec_cells w) = take ?n (vec_cells v) @ [Some x]"
    using assms(2) take_Suc_conv_app_nth [of ?n "vec_cells w"] by (simp add: cells)
  show "vec_items w = vec_items v @ [x]"
    by (simp add: vec_items_def n used)
  show "vec_capacity w = vec_capacity v" by (simp add: vec_capacity_def w_def)
  have "length (vec_cells w) \<in> {unat (sz v), unat (sz v) + 1}"
    using ok(1) by (auto simp: cells push_block_def)
  moreover have "Suc ?n \<le> length (vec_cells w)" using assms(2) by (simp add: cells)
  moreover have "elem w \<noteq> None" "sz w = sz v" "0 \<le> nitems w" using ok(2) by (simp_all add: w_def)
  ultimately show "vec_ok malloc_ok w"
    using assms(1) ok(4) used n by (auto simp: vec_ok_def)
qed

lemma vec_items_length: "vec_ok malloc_ok v \<Longrightarrow> length (vec_items v) = nat (nitems v)"
  by (simp add: vec_items_def vec_ok_def)

lemma push_vector_ok:
  assumes "vec_ok malloc_ok v" "length (vec_items v) < vec_capacity v"
  shows "\<exists>w. push_vector malloc_ok x v = Inr w \<and> vec_ok malloc_ok w \<and>
    vec_items w = vec_items v @ [x] \<and> vec_capacity w = vec_capacity v"
proof -
  have "nat (nitems v) < length (push_block v)"
    using assms vec_items_length [OF assms(1)]
    by (auto simp: push_block_def vec_capacity_def vec_ok_def)
  then show ?thesis
    using push_vector_block [OF assms(1)] vec_items_push [OF assms(1)] by auto
qed

lemma pop_vector_ok:
  assumes "vec_ok malloc_ok v" "vec_items v = xs @ [x]"
  shows "\<exists>w. pop_vector v = Inr ([], x, w) \<and> vec_ok malloc_ok w \<and> vec_items w = xs \<and>
    vec_capacity w = vec_capacity v"
proof -
  let ?n = "nat (nitems v)"
  have len: "?n = Suc (length xs)"
    using vec_items_length [OF assms(1)] assms(2) by simp
  obtain b where b: "elem v = Some b" "vec_cells v = b"
    using assms(1) by (auto simp: vec_ok_def vec_cells_def)
  have ok: "?n \<le> length b" "None \<notin> set (take ?n b)" using assms(1) b by (auto simp: vec_ok_def)
  have nth: "take ?n b = take (length xs) b @ [b ! length xs]"
    using ok(1) len by (simp add: take_Suc_conv_app_nth)
  then have "map the (take (length xs) b) @ [the (b ! length xs)] = xs @ [x]"
    using assms(2) b by (simp add: vec_items_def)
  then have "map the (take (length xs) b) = xs" "the (b ! length xs) = x" by auto
  moreover have "b ! length xs \<noteq> None"
    using ok(2) nth by (metis Un_iff list.set_intros(1) set_append)
  ultimately have x: "b ! length xs = Some x" "map the (take (length xs) b) = xs" by auto
  have idx: "nat (nitems v - 1) = length xs" "\<not> nitems v < 1" using len by auto
  let ?w = "v\<lparr>nitems := nitems v - 1\<rparr>"
  have "pop_vector v = Inr ([], x, ?w)"
    using idx x(1) ok(1) len b by (auto simp: pop_vector_def read_elem_def)
  moreover have "vec_ok malloc_ok ?w"
    using assms(1) b idx len nth ok by (auto simp: vec_ok_def vec_cells_def)
  moreover have "vec_items ?w = xs"
    using b idx x(2) by (simp add: vec_items_def vec_cells_def)
  ultimately show ?thesis by (auto simp: vec_capacity_def)
qed

interpretation vec: bounded_stack "push_vector malloc_ok" pop_value vec_items vec_capacity
    "vec_ok malloc_ok" for malloc_ok
proof unfold_locales
  fix v xs and x :: int
  assume "vec_ok malloc_ok v" "vec_items v = xs @ [x]"
  then show "\<exists>w. pop_value v = Inr (x, w) \<and> vec_ok malloc_ok w \<and> vec_items w = xs \<and>
      vec_capacity w = vec_capacity v"
    using pop_vector_ok [of malloc_ok v xs x] by (auto simp: pop_value_def)
qed (rule push_vector_ok)

lemma init_vector_ok:
  assumes "0 < n" "n + 2 < 2 ^ 31" "malloc_ok (4 * nat n)" "malloc_ok (4 * (nat n + 1))"
  shows "vec_ok malloc_ok (snd (init_vector malloc_ok n))"
    "vec_items (snd (init_vector malloc_ok n)) = []"
    "vec_capacity (snd (init_vector malloc_ok n)) = nat n + 1"
proof -
  have n: "unat (to_size_t n) = nat n" using assms by (simp add: unat_to_size_t)
  then have b: "unat (to_size_t n * 4) = 4 * nat n"
    using assms by (simp add: unat_word_ariths)
  show "vec_ok malloc_ok (snd (init_vector malloc_ok n))"
    using assms n b by (simp add: init_vector_def vec_ok_def malloc_ints_def vec_cells_def)
  show "vec_items (snd (init_vector malloc_ok n)) = []"
    by (simp add: init_vector_def vec_items_def)
  show "vec_capacity (snd (init_vector malloc_ok n)) = nat n + 1"
    using n by (simp add: init_vector_def vec_capacity_def)
qed

lemma pop_vector_empty:
  assumes "vec_ok malloc_ok v" "vec_items v = []"
  shows "pop_vector v = Inr ([''Error: vector is empty''], -1, v)"
  using vec_items_length [OF assms(1)] assms by (auto simp: pop_vector_def vec_ok_def)

lemma push_vector_full:
  assumes "vec_ok malloc_ok v" "length (vec_items v) = vec_capacity v"
  shows "push_vector malloc_ok x v = Inl Out_of_bounds"
proof -
  have "\<not> nat (nitems v) < length (push_block v)"
    using assms vec_items_length [OF assms(1)]
    by (auto simp: push_block_def vec_capacity_def vec_ok_def)
  then show ?thesis by (simp add: push_vector_block [OF assms(1)])
qed

lemma push_all_full:
  assumes "vec_ok malloc_ok v" "length (vec_items v) + length xs = vec_capacity v"
  shows "push_all (push_vector malloc_ok) (xs @ x # ys) v = Inl Out_of_bounds"
proof -
  have "push_all (push_vector malloc_ok) (as @ bs) v =
      and_then (push_all (push_vector malloc_ok) as v) (push_all (push_vector malloc_ok) bs)" for as bs v
    by (induction as arbitrary: v) (auto simp: and_then_def split: sum.splits)
  moreover obtain w where "push_all (push_vector malloc_ok) xs v = Inr w" "vec_ok malloc_ok w"
    "vec_items w = vec_items v @ xs" "vec_capacity w = vec_capacity v"
    using vec.push_all_ok [of malloc_ok v xs] assms by auto
  ultimately show ?thesis using push_vector_full [of malloc_ok w x] assms(2) by simp
qed

lemma print_vector_from:
  "vec_ok malloc_ok v \<Longrightarrow> k + d = length (vec_items v) \<Longrightarrow>
    print_vector v (int k) = Inr (map (\<lambda>i. (int i, vec_items v ! i)) [k..<length (vec_items v)])"
proof (induction d arbitrary: k)
  case 0
  then show ?case
    using vec_items_length [OF 0(1)] by (simp add: print_vector.simps vec_ok_def)
next
  case (Suc d)
  obtain b where b: "elem v = Some b" "vec_cells v = b"
    using Suc.prems(1) by (auto simp: vec_ok_def vec_cells_def)
  have n: "k < nat (nitems v)" using vec_items_length [OF Suc.prems(1)] Suc.prems(2) by simp
  then have len: "k < length b" "nat (nitems v) \<le> length b"
    using Suc.prems(1) b by (auto simp: vec_ok_def)
  have "b ! k \<in> set (take (nat (nitems v)) b)" using n len by (auto simp: in_set_conv_nth)
  then have "b ! k \<noteq> None" using Suc.prems(1) b unfolding vec_ok_def by metis
  then have "read_elem v (int k) = Inr (vec_items v ! k)"
    using b len n by (auto simp: read_elem_def vec_items_def)
  moreover have "print_vector v (int k + 1) =
      Inr (map (\<lambda>i. (int i, vec_items v ! i)) [Suc k..<length (vec_items v)])"
    using Suc.IH [of "Suc k"] Suc.prems by (simp add: add.commute)
  moreover have "int k < nitems v" using n by simp
  ultimately show ?case
    using Suc.prems(2) by (subst print_vector.simps) (simp add: upt_conv_Cons)
qed

section \<open>Properties of the vector\<close>

lemma init_vector_refused:
  assumes "0 < n" "n + 2 < 2 ^ 31" "\<not> malloc_ok (4 * nat n)"
  shows "push_vector malloc_ok x (snd (init_vector malloc_ok n)) = Inl Null_pointer"
proof -
  have n: "unat (to_size_t n) = nat n" using assms by (simp add: unat_to_size_t)
  then have b: "unat (to_size_t n * 4) = 4 * nat n"
    using assms by (simp add: unat_word_ariths)
  have "\<not> to_size_t n < to_size_t 1"
    using n assms(1) unat_to_size_t [of 1] by (simp add: word_less_nat_alt)
  then show ?thesis
    using assms(3) b by (simp add: init_vector_def malloc_ints_def push_vector_def write_elem_def int_ok_def)
qed

text \<open>
  Property C21. A vector made by \<open>init_vector\<close> with a size \<open>n\<close> of at least 1 is a stack of \<open>n + 1\<close> items,
  on an allocator that grants the two requests for \<open>n\<close> and \<open>n + 1\<close> cells: \<open>init_vector\<close> prints no message;
  pushing \<open>ys\<close> and \<open>xs\<close> and popping as many as \<open>xs\<close> has gives \<open>xs\<close> in reverse order and leaves \<open>ys\<close>, which
  \<open>print_vector\<close> prints with their indices; a pop of the empty vector gives -1 and the message. One push more than
  \<open>n + 1\<close> writes behind the block, and when the request of \<open>init_vector\<close> is refused the first push writes through a
  null pointer.
\<close>

theorem vector_push_pop:
  assumes "0 < n" "n + 2 < 2 ^ 31" "malloc_ok (4 * nat n)" "malloc_ok (4 * (nat n + 1))"
    and "length (ys @ xs) \<le> nat n + 1"
  shows "fst (init_vector malloc_ok n) = [] \<and>
    (\<exists>w. and_then (push_all (push_vector malloc_ok) (ys @ xs) (snd (init_vector malloc_ok n)))
        (pop_n pop_value (length xs)) = Inr (rev xs, w) \<and>
      vec_items w = ys \<and> print_vector w 0 = Inr (map (\<lambda>i. (int i, ys ! i)) [0..<length ys]) \<and>
      (ys = [] \<longrightarrow> pop_vector w = Inr ([''Error: vector is empty''], -1, w))) \<and>
    (length (ys @ xs) = nat n + 1 \<longrightarrow>
      push_all (push_vector malloc_ok) ((ys @ xs) @ [z]) (snd (init_vector malloc_ok n)) = Inl Out_of_bounds) \<and>
    (\<not> grants (4 * nat n) \<longrightarrow>
      push_vector grants z (snd (init_vector grants n)) = Inl Null_pointer)"
proof (intro conjI impI)
  let ?v = "snd (init_vector malloc_ok n)"
  note init = init_vector_ok [OF assms(1,2,3,4)]
  show "fst (init_vector malloc_ok n) = []" using assms(1) by (simp add: init_vector_def)
  obtain v where v: "push_all (push_vector malloc_ok) (ys @ xs) ?v = Inr v" "vec_ok malloc_ok v" "vec_items v = ys @ xs"
    using vec.push_all_ok [OF init(1), of "ys @ xs"] init(2,3) assms(5) by auto
  obtain w where w: "pop_n pop_value (length xs) v = Inr (rev xs, w)" "vec_ok malloc_ok w" "vec_items w = ys"
    using vec.pop_n_ok [OF v(2,3)] by auto
  have "print_vector w 0 = Inr (map (\<lambda>i. (int i, ys ! i)) [0..<length ys])"
    using print_vector_from [OF w(2), of 0 "length ys"] w(3) by simp
  moreover have "ys = [] \<longrightarrow> pop_vector w = Inr ([''Error: vector is empty''], -1, w)"
    using pop_vector_empty [OF w(2)] w(3) by simp
  ultimately show "\<exists>w. and_then (push_all (push_vector malloc_ok) (ys @ xs) ?v) (pop_n pop_value (length xs)) =
        Inr (rev xs, w) \<and>
      vec_items w = ys \<and> print_vector w 0 = Inr (map (\<lambda>i. (int i, ys ! i)) [0..<length ys]) \<and>
      (ys = [] \<longrightarrow> pop_vector w = Inr ([''Error: vector is empty''], -1, w))"
    using v(1) w(1,3) by auto
  show "push_all (push_vector malloc_ok) ((ys @ xs) @ [z]) ?v = Inl Out_of_bounds"
    if "length (ys @ xs) = nat n + 1"
    using that by (intro push_all_full [OF init(1)]) (simp add: init(2,3))
  show "push_vector grants z (snd (init_vector grants n)) = Inl Null_pointer"
    if "\<not> grants (4 * nat n)"
    by (rule init_vector_refused [where malloc_ok = grants, OF assms(1,2) that])
qed

theorem vector_push_pop_witness:
  "(\<exists>w. and_then (push_all (push_vector (\<lambda>_. True)) [7, 8, 9] (snd (init_vector (\<lambda>_. True) 2)))
      (pop_n pop_value 2) = Inr ([9, 8], w) \<and> vec_items w = [7]) \<and>
    push_all (push_vector (\<lambda>_. True)) [7, 8, 9, 10] (snd (init_vector (\<lambda>_. True) 2)) = Inl Out_of_bounds \<and>
    push_vector (\<lambda>_. False) 10 (snd (init_vector (\<lambda>_. False) 2)) = Inl Null_pointer"
  using vector_push_pop [where n = 2 and malloc_ok = "\<lambda>_. True" and ys = "[7]" and xs = "[8, 9]" and z = 10 and
      grants = "\<lambda>_. False"]
  by (auto simp: numeral_2_eq_2 simp del: push_all.simps)

text \<open>
  \<open>push_vector\<close> reallocates to \<open>sz + 1\<close> cells but never updates \<open>sz\<close>: on a vector
  that already holds \<open>sz + 1\<close> items every push writes past the end of the block.
\<close>

theorem vector_push_overflows:
  assumes "vec_ok malloc_ok v" "length (vec_items v) = unat (sz v) + 1"
  shows "push_vector malloc_ok x v = Inl Out_of_bounds"
  using push_vector_full [OF assms(1)] assms(2) by (simp add: vec_capacity_def)

theorem vector_push_overflows_witness:
  "\<exists>v. push_all (push_vector (\<lambda>_. True)) [1, 2] (snd (init_vector (\<lambda>_. True) 1)) = Inr v \<and>
    push_vector (\<lambda>_. True) 3 v = Inl Out_of_bounds"
proof -
  have n: "(0 :: int) < 1" "(1 :: int) + 2 < 2 ^ 31" by simp_all
  let ?v = "snd (init_vector (\<lambda>_. True) 1)"
  note init = init_vector_ok [OF n, of "\<lambda>_. True", OF TrueI TrueI]
  obtain v where v: "push_all (push_vector (\<lambda>_. True)) [1, 2] ?v = Inr v"
    "vec_ok (\<lambda>_. True) v" "vec_items v = [1, 2]" "vec_capacity v = 2"
    using vec.push_all_ok [OF init(1), of "[1, 2]"] init(2,3) by auto
  then have "length (vec_items v) = unat (sz v) + 1" by (simp add: vec_capacity_def)
  from vector_push_overflows [OF v(2) this] v(1) show ?thesis by blast
qed

text \<open>
  The program's own \<open>main\<close> runs into that: it makes a vector of size 3, pushes and pops
  three items, and its second loop, which pushes five, writes outside of the block, whenever the
  allocator grants its requests.
\<close>

theorem vector_main_overflows:
  assumes "\<And>n. malloc_ok n"
  shows "vector_main malloc_ok = Inl Out_of_bounds"
proof -
  have n: "(0 :: int) < 3" "(3 :: int) + 2 < 2 ^ 31" by simp_all
  let ?v = "snd (init_vector malloc_ok 3)"
  note init = init_vector_ok [OF n, of malloc_ok, OF assms assms]
  obtain v1 where v1: "push_all (push_vector malloc_ok) [1, 2, 3] ?v = Inr v1" "vec_ok malloc_ok v1"
    "vec_items v1 = [1, 2, 3]" "vec_capacity v1 = 4"
    using vec.push_all_ok [OF init(1), of "[1, 2, 3]"] init(2,3) by auto
  obtain v2 where v2: "pop_vector v1 = Inr ([], 3, v2)" "vec_ok malloc_ok v2" "vec_items v2 = [1, 2]"
    "vec_capacity v2 = 4"
    using pop_vector_ok [OF v1(2), of "[1, 2]" 3] v1(3,4) by auto
  obtain v3 where v3: "pop_vector v2 = Inr ([], 2, v3)" "vec_ok malloc_ok v3" "vec_items v3 = [1]"
    "vec_capacity v3 = 4"
    using pop_vector_ok [OF v2(2), of "[1]" 2] v2(3,4) by auto
  obtain v4 where v4: "pop_vector v3 = Inr ([], 1, v4)" "vec_ok malloc_ok v4" "vec_items v4 = []"
    "vec_capacity v4 = 4"
    using pop_vector_ok [OF v3(2), of "[]" 1] v3(3,4) by auto
  have "push_all (push_vector malloc_ok) ([0, 1, 2, 3] @ [4]) v4 = Inl Out_of_bounds"
    by (rule push_all_full [OF v4(2)]) (simp add: v4(3,4))
  moreover have "\<exists>out. print_vector v1 0 = Inr out"
    using print_vector_from [OF v1(2), of 0 3] v1(3) by simp
  ultimately show ?thesis
    using v1(1) v2(1) v3(1) v4(1) by (auto simp: vector_main_def simp del: push_all.simps)
qed

theorem vector_main_overflows_witness: "vector_main (\<lambda>_. True) = Inl Out_of_bounds"
  by (rule vector_main_overflows) simp

end
