(* ===== verification/Cdecl.thy ===== *)
theory Cdecl
  imports Contracts
begin

text \<open>
  \<open>src/cdecl/src/main.c\<close>: the token stack and the classification of strings of the declaration
  reader (its parser is only sketched in comments). A string is the list of its characters
  without the terminating NUL. The file does not compile as it stands (\<open>strmp\<close> for \<open>strcmp\<close>, a
  missing semicolon, no return in \<open>classifystring\<close>); \<open>istype\<close> and \<open>isqualifier\<close> are modelled
  with these two repaired, and \<open>classifystring\<close> by its effect on \<open>this\<close>.
\<close>

text \<open>\<open>TYPE\<close> is a reserved word of the logic, hence \<open>TYPE_NAME\<close>.\<close>

datatype tokentype = TYPE_NAME | QUALIFIER | IDENTIFIER | ARRAY | POINTER | LPAREN | RPAREN | END

record decl_token =
  token_type :: tokentype
  token_string :: string

record decl_state =
  stack :: "decl_token list"
  head :: int
  this_token :: decl_token
  errors :: "string list"

definition MAXTOKENLEN :: nat where "MAXTOKENLEN = 64"

definition MAXTOKENS :: nat where "MAXTOKENS = 128"

text \<open>Static storage: zeroed tokens, an empty stack.\<close>

definition decl_init :: decl_state where
  "decl_init = (let z = \<lparr>token_type = TYPE_NAME, token_string = []\<rparr>
     in \<lparr>stack = replicate MAXTOKENS z, head = 0, this_token = z, errors = []\<rparr>)"

definition report :: "string \<Rightarrow> decl_state \<Rightarrow> decl_state" where
  "report msg s = s\<lparr>errors := errors s @ [msg]\<rparr>"

text \<open>The guards report an error and go on to the access.\<close>

definition stackpush :: "decl_token \<Rightarrow> decl_state \<Rightarrow> decl_state res" where
  "stackpush t s =
     (let s1 = (if head s \<ge> int MAXTOKENS then report ''Error: stack overflow.'' s else s)
      in if 0 \<le> head s1 \<and> head s1 < int MAXTOKENS
         then Inr (s1\<lparr>stack := (stack s1)[nat (head s1) := t], head := head s1 + 1\<rparr>)
         else Inl Out_of_bounds)"

definition stackpop :: "decl_state \<Rightarrow> (decl_token \<times> decl_state) res" where
  "stackpop s =
     (let s1 = (if head s = 0 then report ''Error: stack underflow.'' s else s);
          h = head s1 - 1
      in if 0 \<le> h \<and> h < int MAXTOKENS
         then Inr (stack s1 ! nat h, s1\<lparr>head := h\<rparr>)
         else Inl Out_of_bounds)"

definition istype :: "string \<Rightarrow> bool" where
  "istype str \<longleftrightarrow> str = ''int'' \<or> str = ''char'' \<or> str = ''void'' \<or> str = ''signed'' \<or>
     str = ''unsigned'' \<or> str = ''short'' \<or> str = ''long'' \<or> str = ''float'' \<or> str = ''double''"

definition isqualifier :: "string \<Rightarrow> bool" where
  "isqualifier c = False"

definition strcpy_token :: "string \<Rightarrow> decl_token \<Rightarrow> decl_token res" where
  "strcpy_token str t =
     (if length str + 1 \<le> MAXTOKENLEN then Inr (t\<lparr>token_string := str\<rparr>) else Inl Out_of_bounds)"

definition classifystring :: "string \<Rightarrow> decl_state \<Rightarrow> decl_state res" where
  "classifystring str s =
     and_then (strcpy_token str (this_token s)) (\<lambda>t.
       let t1 = (if istype str then t\<lparr>token_type := TYPE_NAME\<rparr> else t);
           t2 = (if isqualifier str then t1\<lparr>token_type := QUALIFIER\<rparr> else t1)
       in Inr (s\<lparr>this_token := t2\<rparr>))"

text \<open>\<open>main\<close>: the three values of \<open>head\<close> it prints.\<close>

definition decl_main :: "int list res" where
  "decl_main =
     and_then (strcpy_token ''int'' \<lparr>token_type = TYPE_NAME, token_string = []\<rparr>) (\<lambda>t_fun.
     and_then (strcpy_token ''myint'' \<lparr>token_type = IDENTIFIER, token_string = []\<rparr>) (\<lambda>t_name.
     and_then (stackpush t_fun decl_init) (\<lambda>s1.
     and_then (stackpush t_name s1) (\<lambda>s2.
     and_then (stackpop s2) (\<lambda>(t, s3).
     and_then (stackpop s3) (\<lambda>(u, s4).
       Inr [head s2, head s3, head s4]))))))"

section \<open>The stack contract\<close>

definition decl_items :: "decl_state \<Rightarrow> decl_token list" where
  "decl_items s = take (nat (head s)) (stack s)"

definition decl_ok :: "decl_state \<Rightarrow> bool" where
  "decl_ok s \<longleftrightarrow> length (stack s) = MAXTOKENS \<and> 0 \<le> head s \<and> head s \<le> int MAXTOKENS"

lemma decl_items_length: "decl_ok s \<Longrightarrow> length (decl_items s) = nat (head s)"
  by (auto simp: decl_items_def decl_ok_def)

interpretation decl: bounded_stack stackpush stackpop decl_items "\<lambda>_. MAXTOKENS" decl_ok
proof unfold_locales
  fix s and t :: decl_token
  assume s: "decl_ok s" and room: "length (decl_items s) < MAXTOKENS"
  then have h: "0 \<le> head s" "nat (head s) < length (stack s)" "head s < int MAXTOKENS"
    by (auto simp: decl_items_length) (auto simp: decl_ok_def)
  let ?s = "s\<lparr>stack := (stack s)[nat (head s) := t], head := head s + 1\<rparr>"
  have "stackpush t s = Inr ?s" using h by (simp add: stackpush_def)
  moreover have "decl_ok ?s" using s h by (simp add: decl_ok_def)
  moreover have "decl_items ?s = decl_items s @ [t]"
    using h take_Suc_conv_app_nth [of "nat (head s)" "(stack s)[nat (head s) := t]"]
    by (simp add: decl_items_def nat_add_distrib)
  ultimately show "\<exists>u. stackpush t s = Inr u \<and> decl_ok u \<and> decl_items u = decl_items s @ [t] \<and>
      MAXTOKENS = MAXTOKENS" by blast
next
  fix s xs and t :: decl_token
  assume s: "decl_ok s" and it: "decl_items s = xs @ [t]"
  have h: "nat (head s) = Suc (length xs)" using decl_items_length [OF s] it by simp
  have len: "nat (head s) \<le> length (stack s)" using s by (auto simp: decl_ok_def)
  let ?s = "s\<lparr>head := head s - 1\<rparr>"
  have n: "nat (head s - 1) = length xs" using h by simp
  have "take (Suc (length xs)) (stack s) = xs @ [t]" using it h by (simp add: decl_items_def)
  then have "stack s ! length xs = t" "take (length xs) (stack s) = xs"
    using len h take_Suc_conv_app_nth [of "length xs" "stack s"] by auto
  moreover have "head s \<noteq> 0" "0 \<le> head s - 1" "head s - 1 < int MAXTOKENS"
    using s h by (auto simp: decl_ok_def)
  ultimately have "stackpop s = Inr (t, ?s)" "decl_items ?s = xs" "decl_ok ?s"
    using n s by (auto simp: stackpop_def decl_items_def decl_ok_def)
  then show "\<exists>u. stackpop s = Inr (t, u) \<and> decl_ok u \<and> decl_items u = xs \<and> MAXTOKENS = MAXTOKENS"
    by blast
qed

lemma decl_main_heads: "decl_main = Inr [2, 1, 0]"
  by (simp add: decl_main_def strcpy_token_def stackpush_def stackpop_def decl_init_def
      MAXTOKENLEN_def MAXTOKENS_def Let_def)

lemma classifystring_keeps_type:
  "length str < MAXTOKENLEN \<Longrightarrow> \<exists>t. classifystring str s = Inr t \<and>
    token_type (this_token t) = (if istype str then TYPE_NAME else token_type (this_token s)) \<and>
    token_string (this_token t) = str"
  by (auto simp: classifystring_def strcpy_token_def isqualifier_def)

section \<open>Properties of the token stack\<close>

text \<open>
  Within its 128 entries the token stack is last-in first-out, and beyond them its
  guards do not protect it: a push on the full stack and a pop from the empty one, after their
  error message, access the array out of bounds.
\<close>

theorem cdecl_stack_guards:
  assumes "decl_ok s"
  shows "(length (decl_items s) + length ts \<le> MAXTOKENS \<longrightarrow>
      (\<exists>u. and_then (push_all stackpush ts s) (pop_n stackpop (length ts)) = Inr (rev ts, u) \<and>
        decl_items u = decl_items s)) \<and>
    (length (decl_items s) = MAXTOKENS \<longrightarrow> stackpush t s = Inl Out_of_bounds) \<and>
    (decl_items s = [] \<longrightarrow> stackpop s = Inl Out_of_bounds)"
proof (intro conjI impI)
  assume "length (decl_items s) + length ts \<le> MAXTOKENS"
  then show "\<exists>u. and_then (push_all stackpush ts s) (pop_n stackpop (length ts)) = Inr (rev ts, u) \<and>
        decl_items u = decl_items s"
    using decl.push_pop [OF assms, of ts] by blast
next
  assume "length (decl_items s) = MAXTOKENS"
  then show "stackpush t s = Inl Out_of_bounds"
    using assms decl_items_length [OF assms]
    by (auto simp: stackpush_def report_def decl_ok_def Let_def)
next
  assume "decl_items s = []"
  then show "stackpop s = Inl Out_of_bounds"
    using assms decl_items_length [OF assms]
    by (auto simp: stackpop_def report_def decl_ok_def Let_def)
qed

lemma decl_init_ok: "decl_ok decl_init" "decl_items decl_init = []"
  by (simp_all add: decl_ok_def decl_init_def decl_items_def Let_def)

theorem cdecl_stack_guards_witness:
  "stackpop decl_init = Inl Out_of_bounds \<and>
    (\<exists>u. and_then (push_all stackpush [this_token decl_init] decl_init) (pop_n stackpop 1) =
      Inr ([this_token decl_init], u) \<and> decl_items u = [])"
  using cdecl_stack_guards [OF decl_init_ok(1), of "[this_token decl_init]"]
  by (simp add: decl_init_ok(2) MAXTOKENS_def)

end
