(* ===== verification/Ctext.thy ===== *)
theory Ctext
  imports Prelude
begin

text \<open>
  The parts of the C library on text that the programs use: the classes of characters, decimal numbers, \<open>atoi\<close>, \<open>strtok_r\<close> and
  \<open>getopt\<close>. A string is a list of characters without its terminating NUL.
\<close>

section \<open>Characters and numbers\<close>

definition newline :: char where "newline = CHR 0x0A"

text \<open>What \<open>%s\<close> prints of an array: the bytes before its first NUL, which must be there.\<close>

definition c_string :: "char list \<Rightarrow> string res" where
  "c_string b = (if CHR 0x00 \<in> set b then Inr (takeWhile (\<lambda>c. c \<noteq> CHR 0x00) b) else Inl Out_of_bounds)"

definition isspace :: "char \<Rightarrow> bool" where
  "isspace c \<longleftrightarrow> c = CHR '' '' \<or> (9 \<le> (of_char c :: nat) \<and> (of_char c :: nat) \<le> 13)"

definition isdigit :: "char \<Rightarrow> bool" where
  "isdigit c \<longleftrightarrow> 48 \<le> (of_char c :: nat) \<and> (of_char c :: nat) \<le> 57"

definition digit_val :: "char \<Rightarrow> nat" where
  "digit_val c = of_char c - 48"

fun digits_val :: "nat \<Rightarrow> string \<Rightarrow> nat" where
  "digits_val acc [] = acc"
| "digits_val acc (c # cs) = digits_val (acc * 10 + digit_val c) cs"

definition digit_char :: "nat \<Rightarrow> char" where
  "digit_char n = char_of (48 + n)"

fun decimal :: "nat \<Rightarrow> string" where
  "decimal n = (if n < 10 then [digit_char n] else decimal (n div 10) @ [digit_char (n mod 10)])"

declare decimal.simps [simp del]

lemma digit_char_simps [simp]:
  assumes "n < 10"
  shows "isdigit (digit_char n)" "digit_val (digit_char n) = n" "\<not> isspace (digit_char n)"
    "digit_char n \<noteq> CHR ''-''" "digit_char n \<noteq> CHR ''+''"
proof -
  have o: "(of_char (digit_char n) :: nat) = 48 + n" using assms by (simp add: digit_char_def)
  show "isdigit (digit_char n)" "digit_val (digit_char n) = n"
    using o assms by (simp_all add: isdigit_def digit_val_def)
  have "digit_char n \<noteq> c" if "(of_char c :: nat) < 48" for c using o that by auto
  then show "digit_char n \<noteq> CHR ''-''" "digit_char n \<noteq> CHR ''+''" "\<not> isspace (digit_char n)"
    using o by (auto simp: isspace_def)
qed

lemma digits_val_append: "digits_val acc (xs @ ys) = digits_val (digits_val acc xs) ys"
  by (induction xs arbitrary: acc) simp_all

lemma decimal_ok:
  "decimal n \<noteq> [] \<and> list_all isdigit (decimal n) \<and> digits_val 0 (decimal n) = n \<and>
   \<not> isspace (hd (decimal n)) \<and> hd (decimal n) \<noteq> CHR ''-'' \<and> hd (decimal n) \<noteq> CHR ''+''"
proof (induction n rule: decimal.induct)
  case (1 n)
  show ?case
  proof (cases "n < 10")
    case True
    then show ?thesis by (simp add: decimal.simps [of n])
  next
    case False
    with 1 show ?thesis by (simp add: decimal.simps [of n] digits_val_append)
  qed
qed

lemma not_isdigit_nl [simp]: "\<not> isdigit (CHR 0x0A)" "isspace (CHR 0x0A)"
  by (simp_all add: isdigit_def isspace_def)

lemma takeWhile_all: "list_all P xs \<Longrightarrow> \<not> P c \<Longrightarrow> takeWhile P (xs @ c # ys) = xs"
  by (induction xs) simp_all

lemma dropWhile_all: "list_all P xs \<Longrightarrow> \<not> P c \<Longrightarrow> dropWhile P (xs @ c # ys) = c # ys"
  by (induction xs) simp_all

lemma takeWhile_id: "list_all P xs \<Longrightarrow> takeWhile P xs = xs"
  by (induction xs) simp_all

lemma dropWhile_nil: "list_all P xs \<Longrightarrow> dropWhile P xs = []"
  by (induction xs) simp_all

text \<open>\<open>atoi\<close>; a number that is no \<open>int\<close> is undefined behaviour.\<close>

definition atoi :: "string \<Rightarrow> int res" where
  "atoi s =
     (let t = dropWhile isspace s;
          neg = (t \<noteq> [] \<and> hd t = CHR ''-'');
          u = (if t \<noteq> [] \<and> (hd t = CHR ''-'' \<or> hd t = CHR ''+'') then tl t else t);
          n = int (digits_val 0 (takeWhile isdigit u));
          v = (if neg then - n else n)
      in if int_ok v then Inr v else Inl Int_overflow)"

lemma atoi_decimal: "n < 2 ^ 31 \<Longrightarrow> atoi (decimal n) = Inr (int n)"
proof -
  assume n: "n < 2 ^ 31"
  have d: "decimal n \<noteq> []" "list_all isdigit (decimal n)" "digits_val 0 (decimal n) = n"
    "\<not> isspace (hd (decimal n))" "hd (decimal n) \<noteq> CHR ''-''" "hd (decimal n) \<noteq> CHR ''+''"
    using decimal_ok [of n] by auto
  have "dropWhile isspace (decimal n) = decimal n" using d(1,4) by (simp add: dropWhile_eq_self_iff)
  then show ?thesis using d n by (simp add: atoi_def Let_def int_ok_def takeWhile_id)
qed

section \<open>Ends of a process\<close>

text \<open>The ways a statement ends the process: \<open>ensure\<close> prints its message and exits with 1, \<open>assert\<close> aborts.\<close>

datatype stop = Exit_1 string | Aborted string | Fault fault

definition ensure :: "bool \<Rightarrow> string \<Rightarrow> 's \<Rightarrow> stop + 's" where
  "ensure expression msg s = (if expression then Inr s else Inl (Exit_1 msg))"

definition atoi_arg :: "string \<Rightarrow> stop + int" where
  "atoi_arg s = (case atoi s of Inl e \<Rightarrow> Inl (Fault e) | Inr x \<Rightarrow> Inr x)"

definition assert_that :: "bool \<Rightarrow> string \<Rightarrow> 'a \<Rightarrow> stop + 'a" where
  "assert_that b msg a = (if b then Inr a else Inl (Aborted msg))"

section \<open>strtok_r\<close>

text \<open>The next token of a string for one separator, and what is left to scan after it.\<close>

definition strtok :: "char \<Rightarrow> string \<Rightarrow> (string \<times> string) option" where
  "strtok d s =
     (let t = dropWhile (\<lambda>c. c = d) s
      in if t = [] then None else Some (takeWhile (\<lambda>c. c \<noteq> d) t, drop 1 (dropWhile (\<lambda>c. c \<noteq> d) t)))"

lemma strtok_shorter: "strtok d s = Some (tok, rest) \<Longrightarrow> length rest < length s"
proof -
  assume a: "strtok d s = Some (tok, rest)"
  define t where "t = dropWhile (\<lambda>c. c = d) s"
  have t: "t \<noteq> []" "rest = drop 1 (dropWhile (\<lambda>c. c \<noteq> d) t)"
    using a by (auto simp: strtok_def Let_def t_def split: if_splits)
  have "length t \<le> length s" by (simp add: t_def length_dropWhile_le)
  moreover have "length (dropWhile (\<lambda>c. c \<noteq> d) t) \<le> length t" by (rule length_dropWhile_le)
  ultimately show ?thesis using t by (cases t) (auto split: if_splits)
qed

lemma strtok_first:
  assumes "tok \<noteq> []" "d \<notin> set tok"
  shows "strtok d (tok @ d # rest) = Some (tok, rest)" "strtok d tok = Some (tok, [])"
proof -
  have h: "hd tok \<noteq> d" using assms by (metis hd_in_set)
  have a: "\<And>c. c \<in> set tok \<Longrightarrow> c \<noteq> d" using assms(2) by blast
  have dw: "dropWhile (\<lambda>c. c = d) (tok @ ys) = tok @ ys" for ys
    using h assms(1) by (simp add: dropWhile_eq_self_iff)
  have "takeWhile (\<lambda>c. c \<noteq> d) (tok @ d # rest) = tok" "dropWhile (\<lambda>c. c \<noteq> d) (tok @ d # rest) = d # rest"
    using a by (simp_all add: takeWhile_append2 dropWhile_append2)
  then show "strtok d (tok @ d # rest) = Some (tok, rest)"
    using dw [of "d # rest"] assms(1) by (simp add: strtok_def)
  have "list_all (\<lambda>c. c \<noteq> d) tok" using a by (simp add: list_all_iff)
  then show "strtok d tok = Some (tok, [])"
    using dw [of "[]"] assms(1) by (simp add: strtok_def takeWhile_id dropWhile_nil)
qed

lemma strtok_nil [simp]: "strtok d [] = None"
  by (simp add: strtok_def)

text \<open>Tokens with one separator between them.\<close>

fun join :: "char \<Rightarrow> string list \<Rightarrow> string" where
  "join d [] = []"
| "join d (x # xs) = (if xs = [] then x else x @ d # join d xs)"

lemma strtok_join: "x \<noteq> [] \<Longrightarrow> d \<notin> set x \<Longrightarrow> strtok d (join d (x # xs)) = Some (x, join d xs)"
  by (simp add: strtok_first)

lemma set_join: "set (join d xs) \<subseteq> insert d (\<Union> (set ` set xs))"
  by (induction xs) auto

lemma join_nonempty: "x \<noteq> [] \<Longrightarrow> join d (x # xs) \<noteq> []"
  by simp

lemma decimal_chars: "c \<in> set (decimal n) \<Longrightarrow> isdigit c"
  using decimal_ok [of n] by (simp add: list_all_iff)

section \<open>getopt\<close>

text \<open>
  The options that repeated calls of \<open>getopt (argc, argv, optstring)\<close> return, with their \<open>optarg\<close>, in order. \<open>spec c\<close> says whether \<open>c\<close> is
  an option letter, and whether it takes an argument: the rest of its word, or else the next word. An unknown letter and a
  missing argument are answered with \<open>?\<close>. A word that is no option is passed over, and \<open>--\<close> ends the options.
\<close>

datatype opt_kind = No_option | Flag | With_arg

fun cluster :: "(char \<Rightarrow> opt_kind) \<Rightarrow> string \<Rightarrow> string list \<Rightarrow> (char \<times> string) list \<times> string list" where
  "cluster spec [] ws = ([], ws)"
| "cluster spec (c # cs) ws = (case spec c of
       No_option \<Rightarrow> (let (os, ws') = cluster spec cs ws in ((CHR ''?'', []) # os, ws'))
     | Flag \<Rightarrow> (let (os, ws') = cluster spec cs ws in ((c, []) # os, ws'))
     | With_arg \<Rightarrow>
         if cs \<noteq> [] then ([(c, cs)], ws)
         else case ws of [] \<Rightarrow> ([(CHR ''?'', [])], []) | a # ws' \<Rightarrow> ([(c, a)], ws'))"

lemma cluster_length: "length (snd (cluster spec cs ws)) \<le> length ws"
  by (induction cs) (auto simp: case_prod_beta split: opt_kind.splits list.splits)

function getopt :: "(char \<Rightarrow> opt_kind) \<Rightarrow> string list \<Rightarrow> (char \<times> string) list" where
  "getopt spec [] = []"
| "getopt spec (w # ws) =
     (if w = ''--'' then []
      else if w \<noteq> [] \<and> hd w = CHR ''-'' \<and> tl w \<noteq> []
      then fst (cluster spec (tl w) ws) @ getopt spec (snd (cluster spec (tl w) ws))
      else getopt spec ws)"
  by pat_completeness auto
termination
  by (relation "measure (\<lambda>(spec, ws). length ws)") (auto simp: le_imp_less_Suc cluster_length)

text \<open>An option string: a letter followed by a colon takes an argument.\<close>

fun optstring :: "string \<Rightarrow> char \<Rightarrow> opt_kind" where
  "optstring [] c = No_option"
| "optstring (x # xs) c =
     (if x = c \<and> c \<noteq> CHR '':'' then (if xs \<noteq> [] \<and> hd xs = CHR '':'' then With_arg else Flag) else optstring xs c)"

end
