(* ===== verification/Ring.thy ===== *)
theory Ring
  imports Contracts Ctext
begin

text \<open>
  The shared buffer of \<open>src/concurrency/threads-cv\<close>: the globals of \<open>pc-header.h\<close> and the functions
  \<open>do_fill\<close> and \<open>do_get\<close>, which the four programs repeat word for word. Each C statement is a
  function of its own, since the threads interleave between statements; \<open>do_fill\<close> and \<open>do_get\<close>
  compose them. The record is extensible: the thread programs add their own state to it.
\<close>

section \<open>The buffer\<close>

record ring =
  buffer :: "int list"
  slots :: int        \<comment> \<open>the code's \<open>max\<close>\<close>
  use_ptr :: int
  fill_ptr :: int
  num_full :: int

definition EMPTY :: int where "EMPTY = -2"

definition END_OF_STREAM :: int where "END_OF_STREAM = -1"

definition load :: "'z ring_scheme \<Rightarrow> int \<Rightarrow> stop + int" where
  "load s i = (if 0 \<le> i \<and> i < int (length (buffer s)) then Inr (buffer s ! nat i)
     else Inl (Fault Out_of_bounds))"

definition store :: "int \<Rightarrow> int \<Rightarrow> 'z ring_scheme \<Rightarrow> stop + 'z ring_scheme" where
  "store i x s = (if 0 \<le> i \<and> i < int (length (buffer s)) then Inr (s\<lparr>buffer := (buffer s)[nat i := x]\<rparr>)
     else Inl (Fault Out_of_bounds))"

text \<open>\<open>do_fill\<close>, statement by statement.\<close>

definition fill_check :: "'z ring_scheme \<Rightarrow> stop + 'z ring_scheme" where
  "fill_check s = and_then (load s (fill_ptr s)) (\<lambda>x.
     ensure (x = EMPTY) ''error: tried to fill a non-empty buffer'' s)"

definition fill_store :: "int \<Rightarrow> 'z ring_scheme \<Rightarrow> stop + 'z ring_scheme" where
  "fill_store value s = store (fill_ptr s) value s"

definition fill_advance :: "'z ring_scheme \<Rightarrow> 'z ring_scheme" where
  "fill_advance s = s\<lparr>fill_ptr := c_mod (fill_ptr s + 1) (slots s)\<rparr>"

definition fill_count :: "'z ring_scheme \<Rightarrow> 'z ring_scheme" where
  "fill_count s = s\<lparr>num_full := num_full s + 1\<rparr>"

definition do_fill :: "int \<Rightarrow> 'z ring_scheme \<Rightarrow> stop + 'z ring_scheme" where
  "do_fill value s =
     and_then (fill_check s) (\<lambda>s. and_then (fill_store value s) (\<lambda>s. Inr (fill_count (fill_advance s))))"

text \<open>\<open>do_get\<close>, statement by statement.\<close>

definition get_load :: "'z ring_scheme \<Rightarrow> stop + int" where
  "get_load s = load s (use_ptr s)"

definition get_check :: "int \<Rightarrow> 'z ring_scheme \<Rightarrow> stop + 'z ring_scheme" where
  "get_check tmp s = ensure (tmp \<noteq> EMPTY) ''error: tried to get an empty buffer'' s"

definition get_clear :: "'z ring_scheme \<Rightarrow> stop + 'z ring_scheme" where
  "get_clear s = store (use_ptr s) EMPTY s"

definition get_advance :: "'z ring_scheme \<Rightarrow> 'z ring_scheme" where
  "get_advance s = s\<lparr>use_ptr := c_mod (use_ptr s + 1) (slots s)\<rparr>"

definition get_count :: "'z ring_scheme \<Rightarrow> 'z ring_scheme" where
  "get_count s = s\<lparr>num_full := num_full s - 1\<rparr>"

definition do_get :: "'z ring_scheme \<Rightarrow> stop + int \<times> 'z ring_scheme" where
  "do_get s =
     and_then (get_load s) (\<lambda>tmp. and_then (get_check tmp s) (\<lambda>s. and_then (get_clear s) (\<lambda>s.
       Inr (tmp, get_count (get_advance s)))))"

text \<open>\<open>main\<close>'s initialisation of the buffer (\<open>main-common.c\<close>), with the static zeros of the rest.\<close>

definition ring_init :: "nat \<Rightarrow> ring" where
  "ring_init n = \<lparr>buffer = replicate n EMPTY, slots = int n, use_ptr = 0, fill_ptr = 0, num_full = 0\<rparr>"

text \<open>The view of the buffer that the \<open>-v\<close> trace prints (\<open>main-header.h\<close>).\<close>

definition do_print_pointers :: "'z ring_scheme \<Rightarrow> int \<Rightarrow> char" where
  "do_print_pointers s index =
     (if use_ptr s = index \<and> fill_ptr s = index then CHR ''*''
      else if use_ptr s = index then CHR ''u''
      else if fill_ptr s = index then CHR ''f'' else CHR '' '')"

datatype cell = Slot_empty | Slot_eos | Slot_value int

definition do_print_buffer :: "'z ring_scheme \<Rightarrow> int \<times> (char \<times> cell) list" where
  "do_print_buffer s =
     (num_full s, map (\<lambda>i. (do_print_pointers s (int i),
        let x = buffer s ! i in
        if x = EMPTY then Slot_empty else if x = END_OF_STREAM then Slot_eos else Slot_value x))
      [0..<nat (slots s)])"

section \<open>The ring as a queue\<close>

definition cell_at :: "'z ring_scheme \<Rightarrow> nat \<Rightarrow> int" where
  "cell_at s j = buffer s ! nat ((use_ptr s + int j) mod slots s)"

definition ring_items :: "'z ring_scheme \<Rightarrow> int list" where
  "ring_items s = map (cell_at s) [0..<nat (num_full s)]"

definition ring_ok :: "'z ring_scheme \<Rightarrow> bool" where
  "ring_ok s \<longleftrightarrow> 0 < slots s \<and> int (length (buffer s)) = slots s \<and>
     0 \<le> use_ptr s \<and> use_ptr s < slots s \<and> 0 \<le> num_full s \<and> num_full s \<le> slots s \<and>
     fill_ptr s = (use_ptr s + num_full s) mod slots s \<and>
     (\<forall>j < nat (slots s). cell_at s j = EMPTY \<longleftrightarrow> nat (num_full s) \<le> j)"

lemma ring_items_length [simp]: "length (ring_items s) = nat (num_full s)"
  by (simp add: ring_items_def)

lemma ring_init_ok: "0 < n \<Longrightarrow> ring_ok (ring_init n)" "ring_items (ring_init n) = []"
  by (auto simp: ring_ok_def ring_init_def ring_items_def cell_at_def nat_less_iff)

text \<open>Different offsets below the size are different slots.\<close>

lemma offset_inj:
  assumes "0 < m" "(u + int i) mod m = (u + int j) mod m" "int i < m" "int j < m"
  shows "i = j"
proof -
  have "m dvd int i - int j"
    using assms(2) by (metis add_diff_cancel_left mod_eq_dvd_iff)
  moreover have "\<bar>int i - int j\<bar> < m" using assms(3,4) by linarith
  ultimately show ?thesis by (metis zdvd_imp_le abs_ge_zero dvd_abs_iff zero_less_abs_iff eq_iff_diff_eq_0 linorder_not_less of_nat_eq_iff)
qed

lemma nat_offset_inj:
  assumes "0 < m" "nat ((u + int i) mod m) = nat ((u + int j) mod m)" "int i < m" "int j < m"
  shows "i = j"
  using offset_inj [OF assms(1) _ assms(3,4), of u] assms(1,2)
  by (metis int_nat_eq pos_mod_sign)

lemma ring_slot:
  "ring_ok s \<Longrightarrow> 0 \<le> (use_ptr s + x) mod slots s \<and> (use_ptr s + x) mod slots s < int (length (buffer s))"
  by (simp add: ring_ok_def)

subsection \<open>Filling\<close>

lemma fill_check_ok:
  assumes "ring_ok s" "num_full s < slots s"
  shows "fill_check s = Inr s"
proof -
  have "cell_at s (nat (num_full s)) = EMPTY" using assms by (auto simp: ring_ok_def)
  then have "buffer s ! nat (fill_ptr s) = EMPTY"
    using assms(1) by (simp add: ring_ok_def cell_at_def)
  then show ?thesis
    using ring_slot [OF assms(1), of "num_full s"] assms(1)
    by (simp add: fill_check_def load_def ensure_def ring_ok_def)
qed

lemma fill_store_ok:
  "ring_ok s \<Longrightarrow> fill_store v s = Inr (s\<lparr>buffer := (buffer s)[nat (fill_ptr s) := v]\<rparr>)"
  using ring_slot [of s "num_full s"] by (auto simp: fill_store_def store_def ring_ok_def)

text \<open>The state after all statements of \<open>do_fill\<close>.\<close>

definition filled :: "int \<Rightarrow> 'z ring_scheme \<Rightarrow> 'z ring_scheme" where
  "filled v s = fill_count (fill_advance (s\<lparr>buffer := (buffer s)[nat (fill_ptr s) := v]\<rparr>))"

lemma filled_cell:
  assumes "ring_ok s" "num_full s < slots s" "j < nat (slots s)"
  shows "cell_at (filled v s) j = (if j = nat (num_full s) then v else cell_at s j)"
proof -
  have r: "0 < slots s" "int (length (buffer s)) = slots s" "0 \<le> num_full s"
    "fill_ptr s = (use_ptr s + num_full s) mod slots s"
    using assms(1) by (auto simp: ring_ok_def)
  have "nat ((use_ptr s + int j) mod slots s) < length (buffer s)"
    using r by (simp add: nat_less_iff)
  moreover have "nat (fill_ptr s) = nat ((use_ptr s + int j) mod slots s) \<longleftrightarrow> j = nat (num_full s)"
    using nat_offset_inj [of "slots s" "use_ptr s" j "nat (num_full s)"] assms r by auto
  ultimately show ?thesis
    by (auto simp: cell_at_def filled_def fill_count_def fill_advance_def nth_list_update)
qed

lemma filled_ok:
  assumes "ring_ok s" "num_full s < slots s" "v \<noteq> EMPTY"
  shows "ring_ok (filled v s)" "ring_items (filled v s) = ring_items s @ [v]"
    "num_full (filled v s) = num_full s + 1" "slots (filled v s) = slots s"
proof -
  have r: "0 < slots s" "int (length (buffer s)) = slots s" "0 \<le> num_full s"
    "fill_ptr s = (use_ptr s + num_full s) mod slots s" "0 \<le> use_ptr s" "use_ptr s < slots s"
    "\<And>j. j < nat (slots s) \<Longrightarrow> cell_at s j = EMPTY \<longleftrightarrow> nat (num_full s) \<le> j"
    using assms(1) by (auto simp: ring_ok_def)
  have "fill_ptr (filled v s) = (fill_ptr s + 1) mod slots s"
    using r by (simp add: filled_def fill_count_def fill_advance_def)
  then have fp: "fill_ptr (filled v s) = (use_ptr s + (num_full s + 1)) mod slots s"
    using r(4) by (simp add: mod_simps add.assoc)
  show nf: "num_full (filled v s) = num_full s + 1" and sl: "slots (filled v s) = slots s"
    by (simp_all add: filled_def fill_count_def fill_advance_def)
  have ub: "use_ptr (filled v s) = use_ptr s" "length (buffer (filled v s)) = length (buffer s)"
    by (simp_all add: filled_def fill_count_def fill_advance_def)
  have "cell_at (filled v s) j = EMPTY \<longleftrightarrow> nat (num_full s + 1) \<le> j" if "j < nat (slots s)" for j
    using filled_cell [OF assms(1,2) that] r(3,7) that assms(3) by auto
  then show "ring_ok (filled v s)"
    using r fp nf sl ub assms(2) by (simp add: ring_ok_def)
  have "map (cell_at (filled v s)) [0..<nat (num_full s)] = ring_items s"
    unfolding ring_items_def using filled_cell [OF assms(1,2)] assms(2) by auto
  moreover have "cell_at (filled v s) (nat (num_full s)) = v"
    using filled_cell [OF assms(1,2), of "nat (num_full s)"] assms(2) r(3) by simp
  moreover have "nat (num_full s + 1) = Suc (nat (num_full s))" using r(3) by simp
  ultimately show "ring_items (filled v s) = ring_items s @ [v]"
    unfolding ring_items_def nf by simp
qed

subsection \<open>Getting\<close>

lemma get_load_ok:
  assumes "ring_ok s" "0 < num_full s"
  shows "get_load s = Inr (hd (ring_items s))" "hd (ring_items s) \<noteq> EMPTY"
proof -
  have r: "0 < slots s" "int (length (buffer s)) = slots s" "0 \<le> use_ptr s" "use_ptr s < slots s"
    "num_full s \<le> slots s" "\<And>j. j < nat (slots s) \<Longrightarrow> cell_at s j = EMPTY \<longleftrightarrow> nat (num_full s) \<le> j"
    using assms(1) by (auto simp: ring_ok_def)
  have "hd (ring_items s) = cell_at s 0"
    using assms(2) by (simp add: ring_items_def hd_map)
  moreover have "cell_at s 0 = buffer s ! nat (use_ptr s)"
    using r by (simp add: cell_at_def)
  ultimately show "get_load s = Inr (hd (ring_items s))"
    using r by (simp add: get_load_def load_def)
  show "hd (ring_items s) \<noteq> EMPTY"
    using \<open>hd (ring_items s) = cell_at s 0\<close> r(1) r(6) [of 0] assms(2) by simp
qed

lemma get_clear_ok:
  "ring_ok s \<Longrightarrow> get_clear s = Inr (s\<lparr>buffer := (buffer s)[nat (use_ptr s) := EMPTY]\<rparr>)"
  by (auto simp: get_clear_def store_def ring_ok_def)

text \<open>The state after all statements of \<open>do_get\<close>.\<close>

definition taken :: "'z ring_scheme \<Rightarrow> 'z ring_scheme" where
  "taken s = get_count (get_advance (s\<lparr>buffer := (buffer s)[nat (use_ptr s) := EMPTY]\<rparr>))"

lemma taken_cell:
  assumes "ring_ok s" "j < nat (slots s)"
  shows "cell_at (taken s) j = (if Suc j = nat (slots s) then EMPTY else cell_at s (Suc j))"
proof -
  have r: "0 < slots s" "int (length (buffer s)) = slots s" "0 \<le> use_ptr s" "use_ptr s < slots s"
    using assms(1) by (auto simp: ring_ok_def)
  have pos: "(use_ptr (taken s) + int j) mod slots s = (use_ptr s + int (Suc j)) mod slots s"
    using r by (simp add: taken_def get_count_def get_advance_def mod_simps add.assoc)
  have "nat (use_ptr s) = nat ((use_ptr s + int (Suc j)) mod slots s) \<longleftrightarrow> Suc j = nat (slots s)"
  proof
    assume "Suc j = nat (slots s)"
    then show "nat (use_ptr s) = nat ((use_ptr s + int (Suc j)) mod slots s)" using r by simp
  next
    assume eq: "nat (use_ptr s) = nat ((use_ptr s + int (Suc j)) mod slots s)"
    show "Suc j = nat (slots s)"
    proof (rule ccontr)
      assume "Suc j \<noteq> nat (slots s)"
      then have "int (Suc j) < slots s" using assms(2) by linarith
      then have "Suc j = 0"
        using nat_offset_inj [of "slots s" "use_ptr s" "Suc j" 0] r eq by simp
      then show False by simp
    qed
  qed
  moreover have "nat (use_ptr s) < length (buffer s)" using r by linarith
  ultimately show ?thesis
    using pos by (simp add: cell_at_def taken_def get_count_def get_advance_def nth_list_update)
qed

lemma taken_ok:
  assumes "ring_ok s" "0 < num_full s"
  shows "ring_ok (taken s)" "ring_items s = hd (ring_items s) # ring_items (taken s)"
    "num_full (taken s) = num_full s - 1" "slots (taken s) = slots s"
proof -
  have r: "0 < slots s" "int (length (buffer s)) = slots s" "num_full s \<le> slots s"
    "fill_ptr s = (use_ptr s + num_full s) mod slots s"
    "\<And>j. j < nat (slots s) \<Longrightarrow> cell_at s j = EMPTY \<longleftrightarrow> nat (num_full s) \<le> j"
    "0 \<le> use_ptr s" "use_ptr s < slots s"
    using assms(1) by (auto simp: ring_ok_def)
  show nf: "num_full (taken s) = num_full s - 1" and sl: "slots (taken s) = slots s"
    by (simp_all add: taken_def get_count_def get_advance_def)
  have ub: "use_ptr (taken s) = (use_ptr s + 1) mod slots s"
    "length (buffer (taken s)) = length (buffer s)" "fill_ptr (taken s) = fill_ptr s"
    using r by (simp_all add: taken_def get_count_def get_advance_def)
  have fp: "fill_ptr (taken s) = (use_ptr (taken s) + num_full (taken s)) mod slots s"
    using r(4) by (simp add: ub nf mod_simps)
  have "cell_at (taken s) j = EMPTY \<longleftrightarrow> nat (num_full s - 1) \<le> j" if "j < nat (slots s)" for j
    using taken_cell [OF assms(1) that] r(3) r(5) [of "Suc j"] that assms(2) by auto
  then show "ring_ok (taken s)"
    using r ub nf sl fp assms(2) by (simp add: ring_ok_def)
  have n: "nat (num_full s) = Suc (nat (num_full s - 1))" using assms(2) by simp
  have "map (cell_at s) [1..<nat (num_full s)] = map (cell_at (taken s)) [0..<nat (num_full s - 1)]"
    unfolding n One_nat_def map_Suc_upt [symmetric] map_map
    using taken_cell [OF assms(1)] r(3) assms(2) by auto
  moreover have "ring_items s = cell_at s 0 # map (cell_at s) [1..<nat (num_full s)]"
    using assms(2) by (simp add: ring_items_def upt_conv_Cons)
  ultimately show "ring_items s = hd (ring_items s) # ring_items (taken s)"
    by (simp add: ring_items_def [of "taken s"] nf)
qed

section \<open>The queue contract\<close>

lemma do_fill_ok:
  "ring_ok s \<Longrightarrow> num_full s < slots s \<Longrightarrow> do_fill v s = Inr (filled v s)"
  by (simp add: do_fill_def fill_check_ok fill_store_ok filled_def)

lemma do_get_ok:
  "ring_ok s \<Longrightarrow> 0 < num_full s \<Longrightarrow> do_get s = Inr (hd (ring_items s), taken s)"
  by (simp add: do_get_def get_load_ok get_check_def ensure_def get_clear_ok taken_def)

text \<open>On a full buffer and on an empty one the checks of the two functions end the process.\<close>

lemma do_fill_full:
  assumes "ring_ok s" "num_full s = slots s"
  shows "do_fill v s = Inl (Exit_1 ''error: tried to fill a non-empty buffer'')"
proof -
  have "cell_at s 0 \<noteq> EMPTY" using assms by (auto simp: ring_ok_def)
  then have "buffer s ! nat (fill_ptr s) \<noteq> EMPTY"
    using assms by (simp add: ring_ok_def cell_at_def)
  then show ?thesis
    using ring_slot [OF assms(1), of "num_full s"] assms(1)
    by (simp add: do_fill_def fill_check_def load_def ensure_def ring_ok_def)
qed

lemma do_get_empty:
  assumes "ring_ok s" "num_full s = 0"
  shows "do_get s = Inl (Exit_1 ''error: tried to get an empty buffer'')"
proof -
  have "cell_at s 0 = EMPTY" using assms by (auto simp: ring_ok_def)
  then have "buffer s ! nat (use_ptr s) = EMPTY"
    using assms by (simp add: ring_ok_def cell_at_def)
  then show ?thesis
    using assms(1) by (simp add: do_get_def get_load_def load_def get_check_def ensure_def ring_ok_def)
qed

text \<open>A consumer that finds the buffer empty does not call \<open>do_get\<close>.\<close>

definition try_get :: "'z ring_scheme \<Rightarrow> stop + int option \<times> 'z ring_scheme" where
  "try_get s = (if num_full s = 0 then Inr (None, s)
     else and_then (do_get s) (\<lambda>(x, t). Inr (Some x, t)))"

interpretation ring: fifo do_fill try_get ring_items "\<lambda>x. x \<noteq> EMPTY" "\<lambda>s. num_full s < slots s" ring_ok
proof unfold_locales
  fix s :: "'z ring_scheme" and x
  assume s: "ring_ok s" and x: "x \<noteq> EMPTY" and room: "num_full s < slots s"
  then show "\<exists>t. do_fill x s = Inr t \<and> ring_ok t \<and> ring_items t = ring_items s @ [x]"
    by (simp add: do_fill_ok filled_ok)
next
  fix s t :: "'z ring_scheme" and x
  assume "ring_ok s" "do_fill x s = Inr t"
  then show "num_full s < slots s"
    using do_fill_full [of s x] by (cases "num_full s = slots s") (auto simp: ring_ok_def)
next
  fix s :: "'z ring_scheme"
  assume s: "ring_ok s" "ring_items s = []"
  then have "num_full s = 0" by (auto simp: ring_ok_def ring_items_def)
  with s show "\<exists>t. try_get s = Inr (None, t) \<and> ring_ok t \<and> ring_items t = []"
    by (simp add: try_get_def)
next
  fix s :: "'z ring_scheme" and x xs
  assume s: "ring_ok s" "ring_items s = x # xs"
  then have "0 < num_full s" by (auto simp: ring_items_def ring_ok_def intro: ccontr)
  then show "\<exists>t. try_get s = Inr (Some x, t) \<and> ring_ok t \<and> ring_items t = xs"
    using s do_get_ok [of s] taken_ok [of s] by (auto simp: try_get_def)
qed

text \<open>
  Property C12. On every consistent state of the buffer the checks of \<open>do_fill\<close> and \<open>do_get\<close> are exact: \<open>do_fill\<close> appends
  its value and keeps the state consistent when there is a free slot, and otherwise ends the process with its
  message; \<open>do_get\<close> takes out the oldest value, or ends the process when there is none.
\<close>

theorem ring_checks_exact:
  assumes "ring_ok s" "v \<noteq> EMPTY"
  shows "(if num_full s < slots s
      then \<exists>t. do_fill v s = Inr t \<and> ring_ok t \<and> ring_items t = ring_items s @ [v]
      else do_fill v s = Inl (Exit_1 ''error: tried to fill a non-empty buffer'')) \<and>
    (case ring_items s of
       [] \<Rightarrow> do_get s = Inl (Exit_1 ''error: tried to get an empty buffer'')
     | x # xs \<Rightarrow> \<exists>t. do_get s = Inr (x, t) \<and> ring_ok t \<and> ring_items t = xs)"
proof (intro conjI)
  have full: "num_full s = slots s" if "\<not> num_full s < slots s" using that assms(1) by (simp add: ring_ok_def)
  show "if num_full s < slots s
      then \<exists>t. do_fill v s = Inr t \<and> ring_ok t \<and> ring_items t = ring_items s @ [v]
      else do_fill v s = Inl (Exit_1 ''error: tried to fill a non-empty buffer'')"
    using do_fill_ok [OF assms(1)] filled_ok(1,2) [OF assms(1) _ assms(2)] do_fill_full [OF assms(1) full] by simp
  show "case ring_items s of
       [] \<Rightarrow> do_get s = Inl (Exit_1 ''error: tried to get an empty buffer'')
     | x # xs \<Rightarrow> \<exists>t. do_get s = Inr (x, t) \<and> ring_ok t \<and> ring_items t = xs"
  proof (cases "ring_items s")
    case Nil
    then have "num_full s = 0" using assms(1) by (auto simp: ring_ok_def ring_items_def)
    then show ?thesis using Nil do_get_empty [OF assms(1)] by simp
  next
    case (Cons x xs)
    then have "0 < num_full s" using assms(1) by (auto simp: ring_items_def ring_ok_def intro: ccontr)
    then show ?thesis using Cons do_get_ok [OF assms(1)] taken_ok [OF assms(1)] by auto
  qed
qed

theorem ring_checks_exact_witness:
  "\<exists>t. do_fill 7 (ring_init 1) = Inr t \<and> ring_items t = [7] \<and>
     do_get (ring_init 1) = Inl (Exit_1 ''error: tried to get an empty buffer'')"
  using ring_checks_exact [OF ring_init_ok(1) [of 1], of 7] ring_init_ok(2) [of 1]
  by (auto simp: ring_init_def EMPTY_def)

end
