(* ===== verification/ProdCons.thy ===== *)
theory ProdCons
  imports Ring
begin

text \<open>
  The producer/consumer programs of \<open>src/concurrency/threads-cv\<close>: the producer and consumer threads
  of \<open>main-two-cvs-while.c\<close>, \<open>main-one-cv-while.c\<close>, \<open>main-two-cvs-if.c\<close> and
  \<open>main-two-cvs-while-extra-unlock.c\<close>, and the \<open>main\<close> they share (\<open>main-common.c\<close>), from the creation
  of the threads to its return. A thread is at a program point; a step executes the statement
  there, and the scheduler picks any thread. The mutex is its holder. A thread in
  \<open>Cond_wait\<close> sleeps at a program point that names the condition variable; \<open>Cond_signal\<close> wakes any
  one of the threads that sleep on its variable (the action names it), and a sleeping thread may also
  wake up spuriously, as POSIX allows. The printing and sleeping of \<open>do_pause\<close> and \<open>do_eos\<close> change no state and
  are left out. \<open>produced\<close> and \<open>consumed\<close> are history variables: the values stored into and
  taken out of the buffer, in order; no code reads them.
\<close>

section \<open>State\<close>

datatype tid = Main | Producer nat | Consumer nat

datatype condvar = CV | Empty_cv | Fill_cv

datatype pc =
    Not_created | Done
  | P_for | P_lock | P_test | P_wait | P_sleep condvar | P_wake | P_unlock2
  | F_check | F_store | F_advance | F_count | P_relock | P_signal | P_unlock
  | C_while | C_lock | C_test | C_wait | C_sleep condvar | C_wake | C_unlock2
  | G_load | G_check | G_clear | G_advance | G_count | C_relock | C_signal | C_unlock
  | M_create_p | M_create_c | M_join_p | M_eos | M_join_c

record pcsys = ring +
  loops :: nat
  producers :: nat
  consumers :: nat
  mutex :: "tid option"
  pcs :: "tid \<Rightarrow> pc"
  idx :: "tid \<Rightarrow> nat"       \<comment> \<open>\<open>i\<close> of a producer and of \<open>main\<close>, \<open>consumed_count\<close> of a consumer\<close>
  tmp :: "tid \<Rightarrow> int"
  stopped :: "stop option"
  produced :: "int list"
  consumed :: "int list"

datatype action = Step tid "tid option" | Spurious tid

definition threads :: "pcsys \<Rightarrow> tid list" where
  "threads s = Main # map Producer [0..<producers s] @ map Consumer [0..<consumers s]"

definition sleeping_on :: "condvar \<Rightarrow> pc \<Rightarrow> bool" where
  "sleeping_on cv p \<longleftrightarrow> p = P_sleep cv \<or> p = C_sleep cv"

definition sleepers :: "condvar \<Rightarrow> pcsys \<Rightarrow> tid list" where
  "sleepers cv s = filter (\<lambda>t. sleeping_on cv (pcs s t)) (threads s)"

section \<open>Primitives\<close>

definition goto :: "tid \<Rightarrow> pc \<Rightarrow> pcsys \<Rightarrow> pcsys" where
  "goto t p s = s\<lparr>pcs := (pcs s)(t := p)\<rparr>"

definition mutex_lock :: "tid \<Rightarrow> pc \<Rightarrow> pcsys \<Rightarrow> pcsys option" where
  "mutex_lock t p s = (if mutex s = None then Some (goto t p (s\<lparr>mutex := Some t\<rparr>)) else None)"

definition mutex_unlock :: "tid \<Rightarrow> pc \<Rightarrow> pcsys \<Rightarrow> pcsys option" where
  "mutex_unlock t p s = Some (goto t p (s\<lparr>mutex := None\<rparr>))"

text \<open>\<open>Cond_wait\<close> releases the mutex and goes to sleep in one step.\<close>

definition cond_wait :: "tid \<Rightarrow> pc \<Rightarrow> pcsys \<Rightarrow> pcsys option" where
  "cond_wait t p s = Some (goto t p (s\<lparr>mutex := None\<rparr>))"

definition wake_point :: "pc \<Rightarrow> pc" where
  "wake_point p = (case p of P_sleep cv \<Rightarrow> P_wake | C_sleep cv \<Rightarrow> C_wake | q \<Rightarrow> q)"

definition wake :: "tid \<Rightarrow> pcsys \<Rightarrow> pcsys" where
  "wake w s = goto w (wake_point (pcs s w)) s"

definition cond_signal :: "condvar \<Rightarrow> tid \<Rightarrow> pc \<Rightarrow> tid option \<Rightarrow> pcsys \<Rightarrow> pcsys option" where
  "cond_signal cv t p who s =
     (case who of
        None \<Rightarrow> if sleepers cv s = [] then Some (goto t p s) else None
      | Some w \<Rightarrow> if w \<in> set (sleepers cv s) then Some (goto t p (wake w s)) else None)"

text \<open>A statement that may end the process.\<close>

definition exec :: "tid \<Rightarrow> pc \<Rightarrow> stop + pcsys \<Rightarrow> pcsys \<Rightarrow> pcsys option" where
  "exec t p r s = (case r of Inl e \<Rightarrow> Some (s\<lparr>stopped := Some e\<rparr>) | Inr u \<Rightarrow> Some (goto t p u))"

text \<open>A call of \<open>do_fill (v)\<close> that returns to \<open>ret\<close>, and a call of \<open>do_get\<close>.\<close>

definition fill_step :: "tid \<Rightarrow> int \<Rightarrow> pc \<Rightarrow> pcsys \<Rightarrow> pcsys option" where
  "fill_step t v ret s = (case pcs s t of
       F_check \<Rightarrow> exec t F_store (fill_check s) s
     | F_store \<Rightarrow> exec t F_advance
         (and_then (fill_store v s) (\<lambda>u. Inr (u\<lparr>produced := produced u @ [v]\<rparr>))) s
     | F_advance \<Rightarrow> Some (goto t F_count (fill_advance s))
     | F_count \<Rightarrow> Some (goto t ret (fill_count s))
     | _ \<Rightarrow> None)"

definition get_step :: "tid \<Rightarrow> pc \<Rightarrow> pcsys \<Rightarrow> pcsys option" where
  "get_step t ret s = (case pcs s t of
       G_load \<Rightarrow> exec t G_check (and_then (get_load s) (\<lambda>x. Inr (s\<lparr>tmp := (tmp s)(t := x)\<rparr>))) s
     | G_check \<Rightarrow> exec t G_clear (get_check (tmp s t) s) s
     | G_clear \<Rightarrow> exec t G_advance
         (and_then (get_clear s) (\<lambda>u. Inr (u\<lparr>consumed := consumed u @ [tmp u t]\<rparr>))) s
     | G_advance \<Rightarrow> Some (goto t G_count (get_advance s))
     | G_count \<Rightarrow> Some (goto t ret (get_count s))
     | _ \<Rightarrow> None)"

definition incr :: "tid \<Rightarrow> pcsys \<Rightarrow> pcsys" where
  "incr t s = s\<lparr>idx := (idx s)(t := idx s t + 1)\<rparr>"

definition value_of :: "nat \<Rightarrow> pcsys \<Rightarrow> int" where
  "value_of k s = (let base = int k * int (loops s) in base + int (idx s (Producer k)))"

section \<open>The threads of main-two-cvs-while.c\<close>

definition producer_while :: "nat \<Rightarrow> tid option \<Rightarrow> pcsys \<Rightarrow> pcsys option" where
  "producer_while k who s = (let t = Producer k in case pcs s t of
       P_for \<Rightarrow> Some (goto t (if idx s t < loops s then P_lock else Done) s)
     | P_lock \<Rightarrow> mutex_lock t P_test s
     | P_test \<Rightarrow> Some (goto t (if num_full s = slots s then P_wait else F_check) s)
     | P_wait \<Rightarrow> cond_wait t (P_sleep Empty_cv) s
     | P_wake \<Rightarrow> mutex_lock t P_test s
     | P_signal \<Rightarrow> cond_signal Fill_cv t P_unlock who s
     | P_unlock \<Rightarrow> mutex_unlock t P_for (incr t s)
     | _ \<Rightarrow> fill_step t (value_of k s) P_signal s)"

definition consumer_while :: "nat \<Rightarrow> tid option \<Rightarrow> pcsys \<Rightarrow> pcsys option" where
  "consumer_while k who s = (let t = Consumer k in case pcs s t of
       C_while \<Rightarrow> Some (goto t (if tmp s t \<noteq> END_OF_STREAM then C_lock else Done) s)
     | C_lock \<Rightarrow> mutex_lock t C_test s
     | C_test \<Rightarrow> Some (goto t (if num_full s = 0 then C_wait else G_load) s)
     | C_wait \<Rightarrow> cond_wait t (C_sleep Fill_cv) s
     | C_wake \<Rightarrow> mutex_lock t C_test s
     | C_signal \<Rightarrow> cond_signal Empty_cv t C_unlock who s
     | C_unlock \<Rightarrow> mutex_unlock t C_while (incr t s)
     | _ \<Rightarrow> get_step t C_signal s)"

section \<open>main, the part all programs share\<close>

text \<open>
  From the creation of the threads: \<open>pthread_create\<close> makes a thread runnable, \<open>pthread_join\<close> waits for
  its end. \<open>fill_cv\<close> and \<open>empty_cv\<close> are the pointers that each program sets. What the joins store into \<open>counts\<close> is not
  part of the state, since only the final printing reads it; \<open>store_results\<close> below models these stores by themselves, and the
  results about the threads hold as far as the last of them leaves the state alone.
\<close>

definition main_step :: "condvar \<Rightarrow> condvar \<Rightarrow> tid option \<Rightarrow> pcsys \<Rightarrow> pcsys option" where
  "main_step fill_cv empty_cv who s = (let i = idx s Main in case pcs s Main of
       M_create_p \<Rightarrow> Some (if i < producers s
         then incr Main (goto (Producer i) P_for s)
         else goto Main M_create_c (s\<lparr>idx := (idx s)(Main := 0)\<rparr>))
     | M_create_c \<Rightarrow> Some (if i < consumers s
         then incr Main (goto (Consumer i) C_while s)
         else goto Main M_join_p (s\<lparr>idx := (idx s)(Main := 0)\<rparr>))
     | M_join_p \<Rightarrow> (if i < producers s
         then (if pcs s (Producer i) = Done then Some (incr Main s) else None)
         else Some (goto Main M_eos (s\<lparr>idx := (idx s)(Main := 0)\<rparr>)))
     | M_eos \<Rightarrow> Some (if i < consumers s then goto Main P_lock s
         else goto Main M_join_c (s\<lparr>idx := (idx s)(Main := 0)\<rparr>))
     | P_lock \<Rightarrow> mutex_lock Main P_test s
     | P_test \<Rightarrow> Some (goto Main (if num_full s = slots s then P_wait else F_check) s)
     | P_wait \<Rightarrow> cond_wait Main (P_sleep empty_cv) s
     | P_wake \<Rightarrow> mutex_lock Main P_test s
     | P_signal \<Rightarrow> cond_signal fill_cv Main P_unlock who s
     | P_unlock \<Rightarrow> mutex_unlock Main M_eos (incr Main s)
     | M_join_c \<Rightarrow> (if i < consumers s
         then (if pcs s (Consumer i) = Done then Some (incr Main s) else None)
         else Some (goto Main Done s))
     | _ \<Rightarrow> fill_step Main END_OF_STREAM P_signal s)"

text \<open>
  \<open>Pthread_join(cid[i], (void * ) &counts[i])\<close> stores the pointer that consumer \<open>i\<close> returned, of 8 bytes, over an element
  of 4 bytes of the array \<open>counts[consumers]\<close>. The array is the list of its bytes, the pointers have the lowest byte first.
\<close>

definition store_result :: "nat \<Rightarrow> 64 word \<Rightarrow> 8 word list \<Rightarrow> 8 word list res" where
  "store_result i p counts =
     (if 4 * i + 8 \<le> length counts
      then Inr (take (4 * i) counts @ map (\<lambda>k. ucast (drop_bit (8 * k) p)) [0..<8] @ drop (4 * i + 8) counts)
      else Inl Out_of_bounds)"

fun store_results :: "nat \<Rightarrow> 64 word list \<Rightarrow> 8 word list \<Rightarrow> 8 word list res" where
  "store_results i [] counts = Inr counts"
| "store_results i (p # ps) counts = and_then (store_result i p counts) (store_results (i + 1) ps)"

text \<open>The store for the last consumer always reaches 4 bytes behind the array.\<close>

lemma store_results_overflow:
  "ps \<noteq> [] \<Longrightarrow> length counts = 4 * (i + length ps) \<Longrightarrow> store_results i ps counts = Inl Out_of_bounds"
proof (induction ps arbitrary: i counts)
  case (Cons p ps)
  show ?case
  proof (cases "ps = []")
    case True
    then show ?thesis using Cons.prems by (simp add: store_result_def)
  next
    case False
    then have "4 * i + 8 \<le> length counts" using Cons.prems(2) by (cases ps) simp_all
    then obtain c' where "store_result i p counts = Inr c'" "length c' = length counts"
      by (simp add: store_result_def)
    then show ?thesis using Cons.IH [OF False, of c' "i + 1"] Cons.prems(2) by simp
  qed
qed simp

definition pc_init :: "nat \<Rightarrow> nat \<Rightarrow> nat \<Rightarrow> nat \<Rightarrow> pcsys" where
  "pc_init l m p c =
     \<lparr>buffer = buffer (ring_init m), slots = slots (ring_init m), use_ptr = use_ptr (ring_init m),
      fill_ptr = fill_ptr (ring_init m), num_full = num_full (ring_init m),
      loops = l, producers = p, consumers = c, mutex = None,
      pcs = (\<lambda>t. Not_created)(Main := M_create_p), idx = (\<lambda>_. 0), tmp = (\<lambda>_. 0),
      stopped = None, produced = [], consumed = []\<rparr>"

text \<open>
  \<open>main\<close> after its four assertions, for any numbers on the command line that pass them, with which
  \<open>base + i\<close> stays below \<open>2^31\<close> and the array \<open>counts[consumers]\<close> is not empty.
\<close>

definition MAX_THREADS :: nat where "MAX_THREADS = 100"

definition pc_start :: "pcsys \<Rightarrow> bool" where
  "pc_start s \<longleftrightarrow> 0 < loops s \<and> 0 < slots s \<and> producers s \<le> MAX_THREADS \<and>
     0 < consumers s \<and> consumers s \<le> MAX_THREADS \<and> int (producers s) * int (loops s) \<le> 2 ^ 31 \<and>
     s = pc_init (loops s) (nat (slots s)) (producers s) (consumers s)"

text \<open>One step of a whole program, given the code of its threads.\<close>

definition system_step ::
    "(nat \<Rightarrow> tid option \<Rightarrow> pcsys \<Rightarrow> pcsys option) \<Rightarrow> (nat \<Rightarrow> tid option \<Rightarrow> pcsys \<Rightarrow> pcsys option) \<Rightarrow>
      (tid option \<Rightarrow> pcsys \<Rightarrow> pcsys option) \<Rightarrow> action \<Rightarrow> pcsys \<Rightarrow> pcsys option" where
  "system_step producer_fn consumer_fn main_fn a s =
     (if stopped s \<noteq> None then None
      else case a of
        Step t who \<Rightarrow> (case t of Main \<Rightarrow> main_fn who s | Producer i \<Rightarrow> producer_fn i who s | Consumer j \<Rightarrow> consumer_fn j who s)
      | Spurious t \<Rightarrow>
          if wake_point (pcs s t) \<noteq> pcs s t then Some (wake t s) else None)"

definition step_two_cvs_while :: "action \<Rightarrow> pcsys \<Rightarrow> pcsys option" where
  "step_two_cvs_while = system_step producer_while consumer_while (main_step Fill_cv Empty_cv)"

text \<open>The steps that threads take by themselves, and the end of the program.\<close>

definition own_step :: "action \<Rightarrow> bool" where
  "own_step a = (case a of Step t who \<Rightarrow> True | Spurious t \<Rightarrow> False)"

definition pc_finished :: "pcsys \<Rightarrow> bool" where
  "pc_finished s \<longleftrightarrow> pcs s Main = Done"

section \<open>main-one-cv-while.c: one condition variable for both\<close>

definition producer_one_cv :: "nat \<Rightarrow> tid option \<Rightarrow> pcsys \<Rightarrow> pcsys option" where
  "producer_one_cv k who s = (let t = Producer k in case pcs s t of
       P_for \<Rightarrow> Some (goto t (if idx s t < loops s then P_lock else Done) s)
     | P_lock \<Rightarrow> mutex_lock t P_test s
     | P_test \<Rightarrow> Some (goto t (if num_full s = slots s then P_wait else F_check) s)
     | P_wait \<Rightarrow> cond_wait t (P_sleep CV) s
     | P_wake \<Rightarrow> mutex_lock t P_test s
     | P_signal \<Rightarrow> cond_signal CV t P_unlock who s
     | P_unlock \<Rightarrow> mutex_unlock t P_for (incr t s)
     | _ \<Rightarrow> fill_step t (value_of k s) P_signal s)"

definition consumer_one_cv :: "nat \<Rightarrow> tid option \<Rightarrow> pcsys \<Rightarrow> pcsys option" where
  "consumer_one_cv k who s = (let t = Consumer k in case pcs s t of
       C_while \<Rightarrow> Some (goto t (if tmp s t \<noteq> END_OF_STREAM then C_lock else Done) s)
     | C_lock \<Rightarrow> mutex_lock t C_test s
     | C_test \<Rightarrow> Some (goto t (if num_full s = 0 then C_wait else G_load) s)
     | C_wait \<Rightarrow> cond_wait t (C_sleep CV) s
     | C_wake \<Rightarrow> mutex_lock t C_test s
     | C_signal \<Rightarrow> cond_signal CV t C_unlock who s
     | C_unlock \<Rightarrow> mutex_unlock t C_while (incr t s)
     | _ \<Rightarrow> get_step t C_signal s)"

definition step_one_cv_while :: "action \<Rightarrow> pcsys \<Rightarrow> pcsys option" where
  "step_one_cv_while = system_step producer_one_cv consumer_one_cv (main_step CV CV)"

section \<open>main-two-cvs-if.c: the condition is not checked again after a wait\<close>

definition producer_if :: "nat \<Rightarrow> tid option \<Rightarrow> pcsys \<Rightarrow> pcsys option" where
  "producer_if k who s = (let t = Producer k in case pcs s t of
       P_for \<Rightarrow> Some (goto t (if idx s t < loops s then P_lock else Done) s)
     | P_lock \<Rightarrow> mutex_lock t P_test s
     | P_test \<Rightarrow> Some (goto t (if num_full s = slots s then P_wait else F_check) s)
     | P_wait \<Rightarrow> cond_wait t (P_sleep Empty_cv) s
     | P_wake \<Rightarrow> mutex_lock t F_check s
     | P_signal \<Rightarrow> cond_signal Fill_cv t P_unlock who s
     | P_unlock \<Rightarrow> mutex_unlock t P_for (incr t s)
     | _ \<Rightarrow> fill_step t (value_of k s) P_signal s)"

definition consumer_if :: "nat \<Rightarrow> tid option \<Rightarrow> pcsys \<Rightarrow> pcsys option" where
  "consumer_if k who s = (let t = Consumer k in case pcs s t of
       C_while \<Rightarrow> Some (goto t (if tmp s t \<noteq> END_OF_STREAM then C_lock else Done) s)
     | C_lock \<Rightarrow> mutex_lock t C_test s
     | C_test \<Rightarrow> Some (goto t (if num_full s = 0 then C_wait else G_load) s)
     | C_wait \<Rightarrow> cond_wait t (C_sleep Fill_cv) s
     | C_wake \<Rightarrow> mutex_lock t G_load s
     | C_signal \<Rightarrow> cond_signal Empty_cv t C_unlock who s
     | C_unlock \<Rightarrow> mutex_unlock t C_while (incr t s)
     | _ \<Rightarrow> get_step t C_signal s)"

definition step_two_cvs_if :: "action \<Rightarrow> pcsys \<Rightarrow> pcsys option" where
  "step_two_cvs_if = system_step producer_if consumer_if (main_step Fill_cv Empty_cv)"

section \<open>main-two-cvs-while-extra-unlock.c: the buffer is accessed without the mutex\<close>

definition producer_extra :: "nat \<Rightarrow> tid option \<Rightarrow> pcsys \<Rightarrow> pcsys option" where
  "producer_extra k who s = (let t = Producer k in case pcs s t of
       P_for \<Rightarrow> Some (goto t (if idx s t < loops s then P_lock else Done) s)
     | P_lock \<Rightarrow> mutex_lock t P_test s
     | P_test \<Rightarrow> Some (goto t (if num_full s = slots s then P_wait else P_unlock2) s)
     | P_wait \<Rightarrow> cond_wait t (P_sleep Empty_cv) s
     | P_wake \<Rightarrow> mutex_lock t P_test s
     | P_unlock2 \<Rightarrow> mutex_unlock t F_check s
     | P_relock \<Rightarrow> mutex_lock t P_signal s
     | P_signal \<Rightarrow> cond_signal Fill_cv t P_unlock who s
     | P_unlock \<Rightarrow> mutex_unlock t P_for (incr t s)
     | _ \<Rightarrow> fill_step t (value_of k s) P_relock s)"

definition consumer_extra :: "nat \<Rightarrow> tid option \<Rightarrow> pcsys \<Rightarrow> pcsys option" where
  "consumer_extra k who s = (let t = Consumer k in case pcs s t of
       C_while \<Rightarrow> Some (goto t (if tmp s t \<noteq> END_OF_STREAM then C_lock else Done) s)
     | C_lock \<Rightarrow> mutex_lock t C_test s
     | C_test \<Rightarrow> Some (goto t (if num_full s = 0 then C_wait else C_unlock2) s)
     | C_wait \<Rightarrow> cond_wait t (C_sleep Fill_cv) s
     | C_wake \<Rightarrow> mutex_lock t C_test s
     | C_unlock2 \<Rightarrow> mutex_unlock t G_load s
     | C_relock \<Rightarrow> mutex_lock t C_signal s
     | C_signal \<Rightarrow> cond_signal Empty_cv t C_unlock who s
     | C_unlock \<Rightarrow> mutex_unlock t C_while (incr t s)
     | _ \<Rightarrow> get_step t C_relock s)"

definition step_extra_unlock :: "action \<Rightarrow> pcsys \<Rightarrow> pcsys option" where
  "step_extra_unlock = system_step producer_extra consumer_extra (main_step Fill_cv Empty_cv)"

text \<open>The definitions that a step unfolds to.\<close>

lemmas primitive_defs = goto_def mutex_lock_def mutex_unlock_def cond_wait_def incr_def exec_def

lemmas step_defs = primitive_defs cond_signal_def fill_step_def get_step_def wake_def

lemmas access_defs = ring_init_def fill_check_def fill_store_def fill_advance_def fill_count_def
  get_load_def get_check_def get_clear_def get_advance_def get_count_def load_def store_def ensure_def

text \<open>The definitions with which the simplifier evaluates a run.\<close>

lemmas eval_defs = step_defs access_defs system_step_def main_step_def Let_def value_of_def wake_point_def
  sleepers_def sleeping_on_def threads_def upt_rec EMPTY_def END_OF_STREAM_def pc_init_def
  step_two_cvs_while_def producer_while_def consumer_while_def
  step_one_cv_while_def producer_one_cv_def consumer_one_cv_def
  step_two_cvs_if_def producer_if_def consumer_if_def
  step_extra_unlock_def producer_extra_def consumer_extra_def

end
