(* ===== verification/ProdCons_Monitor.thy ===== *)
theory ProdCons_Monitor
  imports ProdCons
begin

text \<open>
  The monitor of \<open>main-two-cvs-while.c\<close>. The steps of the three thread functions are first shown to be
  moves of one relation (\<open>move\<close>) that says what a step does to the mutex, the buffer and the condition
  variables, whatever the thread. The invariant of the monitor is then kept by every move: mutual
  exclusion, the shape of the buffer as the holder of the mutex will leave it, the first-in
  first-out order, and that no wake-up is lost.
\<close>

section \<open>Moves\<close>

text \<open>Program points outside of the critical section, at which a thread is awake and waits for nothing.\<close>

definition outside :: "pc set" where
  "outside = {Not_created, Done, P_for, C_while, M_create_p, M_create_c, M_join_p, M_eos, M_join_c,
     P_lock, C_lock}"

inductive move :: "pcsys \<Rightarrow> tid \<Rightarrow> pcsys \<Rightarrow> bool" where
  mv_outside: "pcs s t \<in> outside \<Longrightarrow> q \<in> outside \<Longrightarrow>
    (q = C_lock \<Longrightarrow> tmp s t \<noteq> END_OF_STREAM) \<Longrightarrow>
    move s t (s\<lparr>pcs := (pcs s)(t := q), idx := f\<rparr>)"
| mv_lock_p: "mutex s = None \<Longrightarrow> pcs s t = P_lock \<or> pcs s t = P_wake \<Longrightarrow>
    move s t (s\<lparr>mutex := Some t, pcs := (pcs s)(t := P_test)\<rparr>)"
| mv_lock_c: "mutex s = None \<Longrightarrow> pcs s t = C_lock \<or> pcs s t = C_wake \<Longrightarrow>
    move s t (s\<lparr>mutex := Some t, pcs := (pcs s)(t := C_test)\<rparr>)"
| mv_full: "pcs s t = P_test \<Longrightarrow> num_full s = slots s \<Longrightarrow> move s t (s\<lparr>pcs := (pcs s)(t := P_wait)\<rparr>)"
| mv_room: "pcs s t = P_test \<Longrightarrow> num_full s \<noteq> slots s \<Longrightarrow> move s t (s\<lparr>pcs := (pcs s)(t := F_check)\<rparr>)"
| mv_none: "pcs s t = C_test \<Longrightarrow> num_full s = 0 \<Longrightarrow> move s t (s\<lparr>pcs := (pcs s)(t := C_wait)\<rparr>)"
| mv_some: "pcs s t = C_test \<Longrightarrow> num_full s \<noteq> 0 \<Longrightarrow> move s t (s\<lparr>pcs := (pcs s)(t := G_load)\<rparr>)"
| mv_sleep_p: "pcs s t = P_wait \<Longrightarrow>
    move s t (s\<lparr>mutex := None, pcs := (pcs s)(t := P_sleep Empty_cv)\<rparr>)"
| mv_sleep_c: "pcs s t = C_wait \<Longrightarrow>
    move s t (s\<lparr>mutex := None, pcs := (pcs s)(t := C_sleep Fill_cv)\<rparr>)"
| mv_fill: "pcs s t \<in> {F_check, F_store, F_advance, F_count} \<Longrightarrow> v \<noteq> EMPTY \<Longrightarrow>
    fill_step t v P_signal s = Some s' \<Longrightarrow> move s t s'"
| mv_get: "pcs s t \<in> {G_load, G_check, G_clear, G_advance, G_count} \<Longrightarrow>
    get_step t C_signal s = Some s' \<Longrightarrow> move s t s'"
| mv_signal_p: "pcs s t = P_signal \<Longrightarrow> cond_signal Fill_cv t P_unlock who s = Some s' \<Longrightarrow> move s t s'"
| mv_signal_c: "pcs s t = C_signal \<Longrightarrow> cond_signal Empty_cv t C_unlock who s = Some s' \<Longrightarrow> move s t s'"
| mv_unlock: "pcs s t = P_unlock \<or> pcs s t = C_unlock \<Longrightarrow> q \<in> {P_for, C_while, M_eos} \<Longrightarrow>
    move s t (s\<lparr>idx := f, mutex := None, pcs := (pcs s)(t := q)\<rparr>)"
| mv_spurious: "wake_point (pcs s t) \<noteq> pcs s t \<Longrightarrow> move s t (wake t s)"

text \<open>Which program points the three kinds of threads have, and what they know there.\<close>

definition producer_pcs :: "pc set" where
  "producer_pcs = {Not_created, Done, P_for, P_lock, P_test, P_wait, P_sleep Empty_cv, P_wake,
     F_check, F_store, F_advance, F_count, P_signal, P_unlock}"

definition consumer_pcs :: "pc set" where
  "consumer_pcs = {Not_created, Done, C_while, C_lock, C_test, C_wait, C_sleep Fill_cv, C_wake,
     G_load, G_check, G_clear, G_advance, G_count, C_signal, C_unlock}"

definition main_pcs :: "pc set" where
  "main_pcs = {M_create_p, M_create_c, M_join_p, M_eos, M_join_c, Done, P_lock, P_test, P_wait,
     P_sleep Empty_cv, P_wake, F_check, F_store, F_advance, F_count, P_signal, P_unlock}"

definition roles_ok :: "pcsys \<Rightarrow> bool" where
  "roles_ok s \<longleftrightarrow> pcs s Main \<in> main_pcs \<and> (\<forall>i. pcs s (Producer i) \<in> producer_pcs) \<and>
     (\<forall>j. pcs s (Consumer j) \<in> consumer_pcs) \<and>
     (\<forall>i. producers s \<le> i \<longrightarrow> pcs s (Producer i) = Not_created) \<and>
     (\<forall>j. consumers s \<le> j \<longrightarrow> pcs s (Consumer j) = Not_created) \<and>
     (pcs s Main = M_create_p \<longrightarrow> (\<forall>i \<ge> idx s Main. pcs s (Producer i) = Not_created) \<and>
        (\<forall>j. pcs s (Consumer j) = Not_created)) \<and>
     (pcs s Main = M_create_c \<longrightarrow> (\<forall>j \<ge> idx s Main. pcs s (Consumer j) = Not_created))"

lemma value_of_nonneg [simp]: "0 \<le> value_of k s"
  by (simp add: value_of_def)

lemma not_special [simp]: "0 \<le> v \<Longrightarrow> v \<noteq> EMPTY" "0 \<le> v \<Longrightarrow> v \<noteq> END_OF_STREAM" "END_OF_STREAM \<noteq> EMPTY"
  by (simp_all add: EMPTY_def END_OF_STREAM_def)

lemmas thread_defs = goto_def mutex_lock_def mutex_unlock_def cond_wait_def incr_def


lemma mv_outside_id: "pcs s t \<in> outside \<Longrightarrow> q \<in> outside \<Longrightarrow>
    (q = C_lock \<Longrightarrow> tmp s t \<noteq> END_OF_STREAM) \<Longrightarrow> move s t (s\<lparr>pcs := (pcs s)(t := q)\<rparr>)"
  using mv_outside [of s t q "idx s"] by simp

lemma mv_outside_idx:
  assumes "pcs s t \<in> outside" "q \<in> outside" "q = C_lock \<Longrightarrow> tmp s t \<noteq> END_OF_STREAM"
  shows "move s t (s\<lparr>idx := f, pcs := (pcs s)(t := q)\<rparr>)"
proof -
  have eq: "s\<lparr>idx := f, pcs := (pcs s)(t := q)\<rparr> = s\<lparr>pcs := (pcs s)(t := q), idx := f\<rparr>"
    by (rule pcsys.equality) simp_all
  show ?thesis unfolding eq by (rule mv_outside [OF assms])
qed

lemma mv_outside_stay: "pcs s t \<in> outside \<Longrightarrow> (pcs s t = C_lock \<Longrightarrow> tmp s t \<noteq> END_OF_STREAM) \<Longrightarrow>
    move s t (s\<lparr>idx := f\<rparr>)"
  using mv_outside [of s t "pcs s t" f] by simp

lemma producer_move:
  assumes "producer_while k who s = Some s'" "pcs s (Producer k) \<in> producer_pcs"
  shows "move s (Producer k) s'"
proof -
  consider "pcs s (Producer k) \<in> {F_check, F_store, F_advance, F_count}"
    | "pcs s (Producer k) = P_for"
    | "pcs s (Producer k) \<in> {Not_created, Done, P_lock, P_test, P_wait, P_sleep Empty_cv, P_wake, P_signal, P_unlock}"
    using assms(2) unfolding producer_pcs_def by blast
  then show ?thesis
  proof cases
    case 1
    then show ?thesis
      using assms(1) mv_fill [of s "Producer k" "value_of k s" s']
      by (auto simp: producer_while_def Let_def)
  next
    case 2
    then show ?thesis
      using assms(1) 
      by (auto simp: producer_while_def Let_def goto_def outside_def split: if_splits intro!: mv_outside_id)
  next
    case 3
    then show ?thesis
      using assms(1)
      by (elim insertE emptyE) (auto simp: producer_while_def Let_def thread_defs fill_step_def
          split: if_splits intro: move.intros)
  qed
qed

lemma consumer_move:
  assumes "consumer_while k who s = Some s'" "pcs s (Consumer k) \<in> consumer_pcs"
  shows "move s (Consumer k) s'"
proof -
  consider "pcs s (Consumer k) \<in> {G_load, G_check, G_clear, G_advance, G_count}"
    | "pcs s (Consumer k) = C_while"
    | "pcs s (Consumer k) \<in> {Not_created, Done, C_lock, C_test, C_wait, C_sleep Fill_cv, C_wake, C_signal, C_unlock}"
    using assms(2) unfolding consumer_pcs_def by blast
  then show ?thesis
  proof cases
    case 1
    then show ?thesis
      using assms(1) mv_get [of s "Consumer k" s'] by (auto simp: consumer_while_def Let_def)
  next
    case 2
    then show ?thesis
      using assms(1) 
      by (auto simp: consumer_while_def Let_def goto_def outside_def split: if_splits intro!: mv_outside_id)
  next
    case 3
    then show ?thesis
      using assms(1)
      by (elim insertE emptyE) (auto simp: consumer_while_def Let_def thread_defs get_step_def
          split: if_splits intro: move.intros)
  qed
qed

lemma main_move:
  assumes "main_step Fill_cv Empty_cv who s = Some s'" "roles_ok s"
  shows "\<exists>t \<in> set (threads s). move s t s'"
proof -
  have M: "Main \<in> set (threads s)" "\<And>i. i < producers s \<Longrightarrow> Producer i \<in> set (threads s)"
    "\<And>i. i < consumers s \<Longrightarrow> Consumer i \<in> set (threads s)"
    by (auto simp: threads_def)
  consider "pcs s Main \<in> {F_check, F_store, F_advance, F_count}"
    | "pcs s Main \<in> {M_eos, M_join_p, M_join_c}"
    | "pcs s Main = M_create_p" | "pcs s Main = M_create_c"
    | "pcs s Main \<in> {Done, P_lock, P_test, P_wait, P_sleep Empty_cv, P_wake, P_signal, P_unlock}"
    using assms(2) unfolding roles_ok_def main_pcs_def by blast
  then show ?thesis
  proof cases
    case 1
    then have "move s Main s'"
      using assms(1) mv_fill [of s Main END_OF_STREAM s'] by (auto simp: main_step_def Let_def)
    with M show ?thesis by blast
  next
    case 2
    then have "move s Main s'"
      using assms(1)
      by (elim insertE emptyE) (auto simp: main_step_def Let_def goto_def incr_def outside_def
        split: if_splits intro!: mv_outside_id mv_outside_idx mv_outside_stay)
    with M show ?thesis by blast
  next
    case 3
    then have "pcs s (Producer (idx s Main)) = Not_created" using assms(2) by (simp add: roles_ok_def)
    then have "move s (if idx s Main < producers s then Producer (idx s Main) else Main) s'"
      using assms(1) 3
      by (auto simp: main_step_def Let_def goto_def incr_def outside_def
        split: if_splits intro!: mv_outside mv_outside_idx)
    with M show ?thesis by (auto split: if_splits)
  next
    case 4
    then have "pcs s (Consumer (idx s Main)) = Not_created" using assms(2) by (simp add: roles_ok_def)
    then have "move s (if idx s Main < consumers s then Consumer (idx s Main) else Main) s'"
      using assms(1) 4
      by (auto simp: main_step_def Let_def goto_def incr_def outside_def
        split: if_splits intro!: mv_outside mv_outside_idx)
    with M show ?thesis by (auto split: if_splits)
  next
    case 5
    then have "move s Main s'"
      using assms(1)
      by (elim insertE emptyE) (auto simp: main_step_def Let_def thread_defs fill_step_def
          split: if_splits intro: move.intros)
    with M show ?thesis by blast
  qed
qed

lemma wake_point_cases:
  obtains cv where "p = P_sleep cv" "wake_point p = P_wake"
    | cv where "p = C_sleep cv" "wake_point p = C_wake"
    | "wake_point p = p"
  by (cases p) (auto simp: wake_point_def)

lemma wake_point_idle [simp]: "wake_point Not_created = Not_created"
  by (simp add: wake_point_def)

lemma step_move:
  assumes "step_two_cvs_while a s = Some s'" "roles_ok s"
  shows "\<exists>t \<in> set (threads s). move s t s'"
proof -
  have "i < producers s \<or> pcs s (Producer i) = Not_created"
    "i < consumers s \<or> pcs s (Consumer i) = Not_created" for i
    using assms(2) unfolding roles_ok_def by (meson linorder_not_less)+
  then have out: "t \<in> set (threads s) \<or> pcs s t = Not_created" for t
    by (cases t) (auto simp: threads_def image_iff)
  have *: "move s t s' \<Longrightarrow> pcs s t \<noteq> Not_created \<Longrightarrow> ?thesis" for t using out by blast
  show ?thesis
  proof (cases a)
    case (Spurious t)
    then have "s' = wake t s" "wake_point (pcs s t) \<noteq> pcs s t"
      using assms(1) by (auto simp: step_two_cvs_while_def system_step_def split: if_splits)
    then show ?thesis using * [of t] mv_spurious [of s t] by fastforce
  next
    case (Step t who)
    show ?thesis
    proof (cases t)
      case Main
      then show ?thesis
        using assms Step main_move by (auto simp: step_two_cvs_while_def system_step_def split: if_splits)
    next
      case (Producer k)
      then have st: "producer_while k who s = Some s'"
        using assms Step by (auto simp: step_two_cvs_while_def system_step_def split: if_splits)
      then have "pcs s (Producer k) \<noteq> Not_created"
        by (auto simp: producer_while_def Let_def fill_step_def)
      then show ?thesis using * producer_move [OF st] assms(2) by (auto simp: roles_ok_def)
    next
      case (Consumer k)
      then have st: "consumer_while k who s = Some s'"
        using assms Step by (auto simp: step_two_cvs_while_def system_step_def split: if_splits)
      then have "pcs s (Consumer k) \<noteq> Not_created"
        by (auto simp: consumer_while_def Let_def get_step_def)
      then show ?thesis using * consumer_move [OF st] assms(2) by (auto simp: roles_ok_def)
    qed
  qed
qed

section \<open>The monitor invariant\<close>

definition ring_of :: "pcsys \<Rightarrow> ring" where
  "ring_of s = \<lparr>buffer = buffer s, slots = slots s, use_ptr = use_ptr s, fill_ptr = fill_ptr s,
     num_full = num_full s\<rparr>"

lemma ring_of_upd [simp]:
  "ring_of (s\<lparr>pcs := p\<rparr>) = ring_of s" "ring_of (s\<lparr>idx := f\<rparr>) = ring_of s"
  "ring_of (s\<lparr>mutex := m\<rparr>) = ring_of s" "ring_of (s\<lparr>tmp := x\<rparr>) = ring_of s"
  "ring_of (s\<lparr>produced := xs\<rparr>) = ring_of s" "ring_of (s\<lparr>consumed := xs\<rparr>) = ring_of s"
  "ring_of (s\<lparr>buffer := b\<rparr>) = ring_of s\<lparr>buffer := b\<rparr>"
  "ring_of (fill_advance s) = fill_advance (ring_of s)" "ring_of (fill_count s) = fill_count (ring_of s)"
  "ring_of (get_advance s) = get_advance (ring_of s)" "ring_of (get_count s) = get_count (ring_of s)"
  by (simp_all add: ring_of_def fill_advance_def fill_count_def get_advance_def get_count_def)

lemma ring_of_sel [simp]:
  "buffer (ring_of s) = buffer s" "slots (ring_of s) = slots s" "use_ptr (ring_of s) = use_ptr s"
  "fill_ptr (ring_of s) = fill_ptr s" "num_full (ring_of s) = num_full s"
  by (simp_all add: ring_of_def)

lemma ring_of_abs [simp]:
  "ring_ok (ring_of s) = ring_ok s" "ring_items (ring_of s) = ring_items s"
  by (simp_all add: ring_ok_def ring_items_def cell_at_def [abs_def])

text \<open>What the rest of the state keeps when the buffer is accessed.\<close>

lemma access_sel [simp]:
  "pcs (fill_advance s) = pcs s" "pcs (fill_count s) = pcs s"
  "pcs (get_advance s) = pcs s" "pcs (get_count s) = pcs s"
  "mutex (fill_advance s) = mutex s" "mutex (fill_count s) = mutex s"
  "mutex (get_advance s) = mutex s" "mutex (get_count s) = mutex s"
  "tmp (fill_advance s) = tmp s" "tmp (fill_count s) = tmp s"
  "tmp (get_advance s) = tmp s" "tmp (get_count s) = tmp s"
  "idx (fill_advance s) = idx s" "idx (fill_count s) = idx s"
  "idx (get_advance s) = idx s" "idx (get_count s) = idx s"
  "stopped (fill_advance s) = stopped s" "stopped (fill_count s) = stopped s"
  "stopped (get_advance s) = stopped s" "stopped (get_count s) = stopped s"
  "produced (fill_advance s) = produced s" "produced (fill_count s) = produced s"
  "produced (get_advance s) = produced s" "produced (get_count s) = produced s"
  "consumed (fill_advance s) = consumed s" "consumed (fill_count s) = consumed s"
  "consumed (get_advance s) = consumed s" "consumed (get_count s) = consumed s"
  "loops (fill_advance s) = loops s" "loops (fill_count s) = loops s"
  "loops (get_advance s) = loops s" "loops (get_count s) = loops s"
  "producers (fill_advance s) = producers s" "producers (fill_count s) = producers s"
  "producers (get_advance s) = producers s" "producers (get_count s) = producers s"
  "consumers (fill_advance s) = consumers s" "consumers (fill_count s) = consumers s"
  "consumers (get_advance s) = consumers s" "consumers (get_count s) = consumers s"
  "slots (fill_advance s) = slots s" "slots (fill_count s) = slots s"
  "slots (get_advance s) = slots s" "slots (get_count s) = slots s"
  "num_full (fill_advance s) = num_full s" "num_full (fill_count s) = num_full s + 1"
  "num_full (get_advance s) = num_full s" "num_full (get_count s) = num_full s - 1"
  by (simp_all add: fill_advance_def fill_count_def get_advance_def get_count_def)

text \<open>The program points at which a thread holds the mutex, and those the correct program never reaches.\<close>

definition crit :: "pc \<Rightarrow> bool" where
  "crit p \<longleftrightarrow> p \<in> {P_test, P_wait, F_check, F_store, F_advance, F_count, P_signal, P_unlock,
     C_test, C_wait, G_load, G_check, G_clear, G_advance, G_count, C_signal, C_unlock}"

definition unused :: "pc \<Rightarrow> bool" where
  "unused p \<longleftrightarrow> p \<in> {P_sleep CV, P_sleep Fill_cv, C_sleep CV, C_sleep Empty_cv,
     P_unlock2, P_relock, C_unlock2, C_relock}"

definition mutex_ok :: "pcsys \<Rightarrow> bool" where
  "mutex_ok s \<longleftrightarrow> (\<forall>t. (crit (pcs s t) \<longleftrightarrow> mutex s = Some t) \<and> \<not> unused (pcs s t))"

text \<open>
  The buffer \<open>r\<close> against the history, and what the holder of the mutex, at program point \<open>p\<close>
  and with \<open>x\<close> in its variable \<open>tmp\<close>, knows of them: the buffer is consistent once the
  function it is in has completed.
\<close>

definition agrees :: "ring \<Rightarrow> int list \<Rightarrow> int list \<Rightarrow> bool" where
  "agrees r taken_out put_in \<longleftrightarrow> ring_ok r \<and> taken_out @ ring_items r = put_in"

definition holder_ok :: "pc \<Rightarrow> int \<Rightarrow> ring \<Rightarrow> int list \<Rightarrow> int list \<Rightarrow> bool" where
  "holder_ok p x r c w = (case p of
       P_wait \<Rightarrow> agrees r c w \<and> num_full r = slots r
     | F_check \<Rightarrow> agrees r c w \<and> num_full r < slots r
     | F_store \<Rightarrow> agrees r c w \<and> num_full r < slots r
     | F_advance \<Rightarrow> agrees (fill_count (fill_advance r)) c w
     | F_count \<Rightarrow> agrees (fill_count r) c w
     | C_wait \<Rightarrow> agrees r c w \<and> num_full r = 0
     | G_load \<Rightarrow> agrees r c w \<and> 0 < num_full r
     | G_check \<Rightarrow> agrees r c w \<and> 0 < num_full r \<and> x = hd (ring_items r)
     | G_clear \<Rightarrow> agrees r c w \<and> 0 < num_full r \<and> x = hd (ring_items r)
     | G_advance \<Rightarrow> agrees (get_count (get_advance r)) c w
     | G_count \<Rightarrow> agrees (get_count r) c w
     | _ \<Rightarrow> agrees r c w)"

definition buffer_ok :: "pcsys \<Rightarrow> bool" where
  "buffer_ok s \<longleftrightarrow> stopped s = None \<and>
     (case mutex s of
        None \<Rightarrow> agrees (ring_of s) (consumed s) (produced s)
      | Some h \<Rightarrow> holder_ok (pcs s h) (tmp s h) (ring_of s) (consumed s) (produced s))"

lemma mutex_ok_holder:
  "mutex_ok s \<Longrightarrow> crit (pcs s t) \<Longrightarrow> mutex s = Some t"
  by (simp add: mutex_ok_def)

lemma mutex_ok_free: "mutex_ok s \<Longrightarrow> \<not> crit (pcs s t) \<Longrightarrow> mutex s \<noteq> Some t"
  by (auto simp: mutex_ok_def)

lemma buffer_ok_holder:
  "mutex_ok s \<Longrightarrow> buffer_ok s \<Longrightarrow> crit (pcs s t) \<Longrightarrow>
    stopped s = None \<and> holder_ok (pcs s t) (tmp s t) (ring_of s) (consumed s) (produced s)"
  by (simp add: mutex_ok_def buffer_ok_def)

lemma crit_simps [simp]:
  "crit P_test" "crit P_wait" "crit F_check" "crit F_store" "crit F_advance" "crit F_count"
  "crit P_signal" "crit P_unlock" "crit C_test" "crit C_wait" "crit G_load" "crit G_check"
  "crit G_clear" "crit G_advance" "crit G_count" "crit C_signal" "crit C_unlock"
  "\<not> crit Not_created" "\<not> crit Done" "\<not> crit P_for" "\<not> crit C_while"
  "\<not> crit M_create_p" "\<not> crit M_create_c" "\<not> crit M_join_p" "\<not> crit M_eos"
  "\<not> crit M_join_c" "\<not> crit P_lock" "\<not> crit C_lock" "\<not> crit P_wake"
  "\<not> crit C_wake" "\<not> crit (P_sleep cv)" "\<not> crit (C_sleep cv)"
  "\<not> crit P_unlock2" "\<not> crit P_relock" "\<not> crit C_unlock2" "\<not> crit C_relock"
  by (simp_all add: crit_def)

lemma unused_simps [simp]:
  "\<not> unused P_test" "\<not> unused P_wait" "\<not> unused F_check" "\<not> unused F_store"
  "\<not> unused F_advance" "\<not> unused F_count" "\<not> unused P_signal"
  "\<not> unused P_unlock" "\<not> unused C_test" "\<not> unused C_wait" "\<not> unused G_load"
  "\<not> unused G_check" "\<not> unused G_clear" "\<not> unused G_advance"
  "\<not> unused G_count" "\<not> unused C_signal" "\<not> unused C_unlock"
  "\<not> unused Not_created" "\<not> unused Done" "\<not> unused P_for" "\<not> unused C_while"
  "\<not> unused M_create_p" "\<not> unused M_create_c" "\<not> unused M_join_p"
  "\<not> unused M_eos" "\<not> unused M_join_c" "\<not> unused P_lock" "\<not> unused C_lock"
  "\<not> unused P_wake" "\<not> unused C_wake"
  by (simp_all add: unused_def)

lemma unused_sleep [simp]:
  "unused (P_sleep cv) \<longleftrightarrow> cv \<noteq> Empty_cv" "unused (C_sleep cv) \<longleftrightarrow> cv \<noteq> Fill_cv"
  by (cases cv; simp add: unused_def)+

lemma outside_pcs [simp]: "p \<in> outside \<Longrightarrow> \<not> crit p" "p \<in> outside \<Longrightarrow> \<not> unused p"
  unfolding outside_def by (elim insertE; simp)+

lemma wake_sel [simp]:
  "mutex (wake w s) = mutex s" "tmp (wake w s) = tmp s" "stopped (wake w s) = stopped s"
  "produced (wake w s) = produced s" "consumed (wake w s) = consumed s"
  "pcs (wake w s) = (pcs s)(w := wake_point (pcs s w))" "ring_of (wake w s) = ring_of s"
  "num_full (wake w s) = num_full s" "slots (wake w s) = slots s" "threads (wake w s) = threads s"
  "idx (wake w s) = idx s" "loops (wake w s) = loops s" "producers (wake w s) = producers s"
  "consumers (wake w s) = consumers s"
  by (simp_all add: wake_def goto_def threads_def)

lemma sleepersD: "w \<in> set (sleepers cv s) \<Longrightarrow> pcs s w = P_sleep cv \<or> pcs s w = C_sleep cv"
  by (auto simp: sleepers_def sleeping_on_def)

lemma wake_point_crit:
  assumes "wake_point p \<noteq> p"
  shows "\<not> crit p" "\<not> crit (wake_point p)" "\<not> unused (wake_point p)"
  using assms by (cases rule: wake_point_cases [of p]; simp)+

lemma cond_signal_cases:
  assumes "cond_signal cv t p who s = Some s'"
  obtains "who = None" "sleepers cv s = []" "s' = goto t p s"
    | w where "who = Some w" "w \<in> set (sleepers cv s)" "pcs s w = P_sleep cv" "s' = goto t p (goto w P_wake s)"
    | w where "who = Some w" "w \<in> set (sleepers cv s)" "pcs s w = C_sleep cv" "s' = goto t p (goto w C_wake s)"
  using assms
  by (auto simp: cond_signal_def wake_def wake_point_def dest: sleepersD split: option.splits if_splits
    dest!: sleepersD)

text \<open>A move of the thread that holds the mutex, or takes it; and a move of another thread.\<close>

lemma mutex_ok_holder_move:
  assumes "mutex_ok s" "mutex s = None \<or> mutex s = Some t"
    "pcs s' = (pcs s)(t := q)" "\<not> unused q" "mutex s' = (if crit q then Some t else None)"
  shows "mutex_ok s'"
  using assms by (auto simp: mutex_ok_def)

lemma mutex_ok_other_move:
  assumes "mutex_ok s" "\<not> crit (pcs s t)"
    "pcs s' = (pcs s)(t := q)" "\<not> unused q" "\<not> crit q" "mutex s' = mutex s"
  shows "mutex_ok s'"
  using assms mutex_ok_free [OF assms(1,2)] by (auto simp: mutex_ok_def)

lemma mutex_signal:
  assumes "mutex_ok s" "mutex s = Some t" "cond_signal cv t q who s = Some s'" "crit q" "\<not> unused q"
  shows "mutex_ok s'"
proof -
  have "mutex_ok (goto t q s)" 
    using mutex_ok_holder_move [OF assms(1) _ _ assms(5), of t "goto t q s"] assms(2,4)
    by (simp add: goto_def)
  moreover have "mutex_ok (goto t q (goto w p s))"
    if "\<not> crit (pcs s w)" "\<not> crit p" "\<not> unused p" for w p
    using mutex_ok_holder_move [OF mutex_ok_other_move [OF assms(1) that(1) _ that(3,2)] _ _ assms(5),
        of "goto w p s" t "goto t q (goto w p s)"] assms(2,4)
    by (simp add: goto_def)
  ultimately show ?thesis using assms(3) by (auto elim!: cond_signal_cases)
qed

lemma access_shape:
  "pcs s t \<in> {F_check, F_store, F_advance, F_count} \<Longrightarrow> fill_step t v P_signal s = Some s' \<Longrightarrow>
    pcs s' = (pcs s)(t := pcs s' t) \<and> crit (pcs s' t) \<and> \<not> unused (pcs s' t) \<and> mutex s' = mutex s"
  "pcs s t \<in> {G_load, G_check, G_clear, G_advance, G_count} \<Longrightarrow> get_step t C_signal s = Some s' \<Longrightarrow>
    pcs s' = (pcs s)(t := pcs s' t) \<and> crit (pcs s' t) \<and> \<not> unused (pcs s' t) \<and> mutex s' = mutex s"
  by (elim insertE emptyE; auto simp: fill_step_def get_step_def exec_def goto_def
    fill_check_def fill_store_def get_load_def get_check_def get_clear_def load_def store_def ensure_def
    fun_upd_idem split: if_splits)+

lemma mutex_move:
  assumes "mutex_ok s" "move s t s'"
  shows "mutex_ok s'"
  using assms(2)
proof cases
  case mv_spurious
  then show ?thesis
    using mutex_ok_other_move [OF assms(1), of t s'] wake_point_crit [of "pcs s t"] by simp
next
  case (mv_outside q f)
  then show ?thesis using mutex_ok_other_move [OF assms(1), of t s' q] by simp
next
  case (mv_signal_p who)
  then show ?thesis
    using mutex_signal [OF assms(1) mutex_ok_holder [OF assms(1)], of t Fill_cv] by simp
next
  case (mv_signal_c who)
  then show ?thesis
    using mutex_signal [OF assms(1) mutex_ok_holder [OF assms(1)], of t Empty_cv] by simp
next
  case (mv_fill v)
  then have "mutex s = Some t" using mutex_ok_holder [OF assms(1), of t] by auto
  then show ?thesis
    using access_shape(1) [OF mv_fill(1,3)] mutex_ok_holder_move [OF assms(1), of t s'] by auto
next
  case mv_get
  then have "mutex s = Some t" using mutex_ok_holder [OF assms(1), of t] by auto
  then show ?thesis
    using access_shape(2) [OF mv_get] mutex_ok_holder_move [OF assms(1), of t s'] by auto
next
  case (mv_unlock q f)
  then show ?thesis
    using mutex_ok_holder [OF assms(1), of t] mutex_ok_holder_move [OF assms(1), of t s' q] by auto
qed (use mutex_ok_holder_move [OF assms(1), of t s'] mutex_ok_holder [OF assms(1), of t] in simp)+

lemma buffer_move_fill:
  assumes "mutex_ok s" "buffer_ok s" "pcs s t \<in> {F_check, F_store, F_advance, F_count}" "v \<noteq> EMPTY"
    "fill_step t v P_signal s = Some s'"
  shows "buffer_ok s'"
proof -
  have c: "crit (pcs s t)" using assms(3) by auto
  have m: "mutex s = Some t" using mutex_ok_holder [OF assms(1) c] .
  have h: "stopped s = None" "holder_ok (pcs s t) (tmp s t) (ring_of s) (consumed s) (produced s)"
    using buffer_ok_holder [OF assms(1,2) c] by auto
  consider "pcs s t = F_check" | "pcs s t = F_store" | "pcs s t \<in> {F_advance, F_count}"
    using assms(3) by auto
  then show ?thesis
  proof cases
    case 1
    then have "s' = goto t F_store s"
      using h assms(5) fill_check_ok [of s]
      by (simp add: holder_ok_def agrees_def fill_step_def exec_def)
    then show ?thesis using h m 1 by (simp add: buffer_ok_def goto_def holder_ok_def)
  next
    case 2
    let ?b = "(buffer s)[nat (fill_ptr s) := v]"
    have r: "ring_ok (ring_of s)" "num_full (ring_of s) < slots (ring_of s)"
      using h 2 by (simp_all add: holder_ok_def agrees_def)
    have "s' = goto t F_advance (s\<lparr>buffer := ?b, produced := produced s @ [v]\<rparr>)"
      using h assms(5) 2 fill_store_ok [of s v] r
      by (simp add: fill_step_def exec_def)
    moreover have "agrees (fill_count (fill_advance (ring_of s\<lparr>buffer := ?b\<rparr>))) (consumed s) (produced s @ [v])"
      using filled_ok [OF r assms(4)] h 2 by (auto simp: agrees_def holder_ok_def filled_def)
    ultimately show ?thesis using h m by (simp add: buffer_ok_def goto_def holder_ok_def)
  next
    case 3
    then show ?thesis using h m assms(5)
      by (auto simp: fill_step_def buffer_ok_def goto_def holder_ok_def)
  qed
qed

lemma buffer_move_get:
  assumes "mutex_ok s" "buffer_ok s" "pcs s t \<in> {G_load, G_check, G_clear, G_advance, G_count}"
    "get_step t C_signal s = Some s'"
  shows "buffer_ok s'"
proof -
  have c: "crit (pcs s t)" using assms(3) by auto
  have m: "mutex s = Some t" using mutex_ok_holder [OF assms(1) c] .
  have h: "stopped s = None" "holder_ok (pcs s t) (tmp s t) (ring_of s) (consumed s) (produced s)"
    using buffer_ok_holder [OF assms(1,2) c] by auto
  consider "pcs s t = G_load" | "pcs s t = G_check" | "pcs s t = G_clear"
    | "pcs s t \<in> {G_advance, G_count}"
    using assms(3) by auto
  then show ?thesis
  proof cases
    case 1
    then have "s' = goto t G_check (s\<lparr>tmp := (tmp s)(t := hd (ring_items s))\<rparr>)"
      using h assms(4) get_load_ok [of s] by (simp add: holder_ok_def agrees_def get_step_def exec_def)
    then show ?thesis using h m 1 by (simp add: buffer_ok_def goto_def holder_ok_def)
  next
    case 2
    then have "s' = goto t G_clear s"
      using h assms(4) get_load_ok(2) [of "ring_of s"]
      by (auto simp: holder_ok_def agrees_def get_step_def exec_def get_check_def ensure_def)
    then show ?thesis using h m 2 by (simp add: buffer_ok_def goto_def holder_ok_def)
  next
    case 3
    let ?b = "(buffer s)[nat (use_ptr s) := EMPTY]"
    have r: "ring_ok (ring_of s)" "0 < num_full (ring_of s)" "tmp s t = hd (ring_items (ring_of s))"
      "consumed s @ ring_items (ring_of s) = produced s"
      using h 3 by (simp_all add: holder_ok_def agrees_def)
    have "s' = goto t G_advance (s\<lparr>buffer := ?b, consumed := consumed s @ [tmp s t]\<rparr>)"
      using assms(4) 3 get_clear_ok [of s] r by (simp add: get_step_def exec_def)
    moreover have "agrees (get_count (get_advance (ring_of s\<lparr>buffer := ?b\<rparr>)))
        (consumed s @ [tmp s t]) (produced s)"
      using taken_ok [OF r(1,2)] r(3,4) by (simp add: agrees_def taken_def)
    ultimately show ?thesis using h m by (simp add: buffer_ok_def goto_def holder_ok_def)
  next
    case 4
    then show ?thesis using h m assms(4)
      by (auto simp: get_step_def buffer_ok_def goto_def holder_ok_def)
  qed
qed

lemma buffer_move:
  assumes "mutex_ok s" "buffer_ok s" "move s t s'"
  shows "buffer_ok s'"
  using assms(3)
proof cases
  case (mv_fill v)
  then show ?thesis using buffer_move_fill assms(1,2) by blast
next
  case mv_get
  then show ?thesis using buffer_move_get assms(1,2) by blast
next
  case mv_spurious
  have "mutex s \<noteq> Some t"
    using assms(1) wake_point_crit(1) [OF mv_spurious(2)] by (simp add: mutex_ok_def)
  then show ?thesis using assms(2) mv_spurious by (auto simp: buffer_ok_def split: option.splits)
next
  case (mv_outside q f)
  then have "mutex s \<noteq> Some t" using mutex_ok_free [OF assms(1)] by simp
  then show ?thesis using assms(2) mv_outside by (auto simp: buffer_ok_def split: option.splits)
next
  case (mv_lock_p)
  then show ?thesis using assms(2) by (simp add: buffer_ok_def holder_ok_def)
next
  case (mv_lock_c)
  then show ?thesis using assms(2) by (simp add: buffer_ok_def holder_ok_def)
next
  case (mv_signal_p who)
  then show ?thesis using buffer_ok_holder [OF assms(1,2), of t] mutex_ok_holder [OF assms(1), of t]
    by (auto simp: buffer_ok_def holder_ok_def goto_def elim!: cond_signal_cases)
next
  case (mv_signal_c who)
  then show ?thesis using buffer_ok_holder [OF assms(1,2), of t] mutex_ok_holder [OF assms(1), of t]
    by (auto simp: buffer_ok_def holder_ok_def goto_def elim!: cond_signal_cases)
next
  case mv_room
  then show ?thesis using buffer_ok_holder [OF assms(1,2), of t] mutex_ok_holder [OF assms(1), of t]
    by (auto simp: buffer_ok_def holder_ok_def agrees_def ring_ok_def)
next
  case mv_some
  then show ?thesis using buffer_ok_holder [OF assms(1,2), of t] mutex_ok_holder [OF assms(1), of t]
    by (auto simp: buffer_ok_def holder_ok_def agrees_def ring_ok_def)
qed (use buffer_ok_holder [OF assms(1,2), of t] mutex_ok_holder [OF assms(1), of t] in
    \<open>auto simp: buffer_ok_def holder_ok_def\<close>)

section \<open>No wake-up is lost\<close>

text \<open>
  While a consumer sleeps, every full slot is accounted for by a thread that will take it or signal it:
  a consumer between its wake-up and the end of \<open>do_get\<close>, or a filler about to signal. The same for
  sleeping fillers and empty slots.
\<close>

definition takers :: "pc \<Rightarrow> bool" where
  "takers p \<longleftrightarrow> p \<in> {C_wake, C_test, G_load, G_check, G_clear, G_advance, G_count, P_signal}"

definition putters :: "pc \<Rightarrow> bool" where
  "putters p \<longleftrightarrow> p \<in> {P_wake, P_test, F_check, F_store, F_advance, F_count, C_signal}"

definition wakeups_ok :: "pcsys \<Rightarrow> bool" where
  "wakeups_ok s \<longleftrightarrow>
     ((\<exists>u \<in> set (threads s). pcs s u = C_sleep Fill_cv) \<longrightarrow>
        num_full s \<le> int (count_at (set (threads s)) takers (pcs s))) \<and>
     ((\<exists>u \<in> set (threads s). pcs s u = P_sleep Empty_cv) \<longrightarrow>
        slots s - num_full s \<le> int (count_at (set (threads s)) putters (pcs s)))"

lemma takers_simps [simp]:
  "takers C_wake" "takers C_test" "takers G_load" "takers G_check" "takers G_clear"
  "takers G_advance" "takers G_count" "takers P_signal" "\<not> takers P_wake"
  "\<not> takers P_test" "\<not> takers F_check" "\<not> takers F_store" "\<not> takers F_advance"
  "\<not> takers F_count" "\<not> takers C_signal" "\<not> takers P_lock" "\<not> takers C_lock"
  "\<not> takers P_wait" "\<not> takers C_wait"
  "\<not> takers P_unlock" "\<not> takers C_unlock" "\<not> takers (P_sleep cv)"
  "\<not> takers (C_sleep cv)"
  by (simp_all add: takers_def)

lemma putters_simps [simp]:
  "putters P_wake" "putters P_test" "putters F_check" "putters F_store" "putters F_advance"
  "putters F_count" "putters C_signal" "\<not> putters C_wake" "\<not> putters C_test"
  "\<not> putters G_load" "\<not> putters G_check" "\<not> putters G_clear"
  "\<not> putters G_advance" "\<not> putters G_count" "\<not> putters P_signal"
  "\<not> putters P_lock" "\<not> putters C_lock"
  "\<not> putters P_wait" "\<not> putters C_wait" "\<not> putters P_unlock"
  "\<not> putters C_unlock" "\<not> putters (P_sleep cv)" "\<not> putters (C_sleep cv)"
  by (simp_all add: putters_def)

lemma outside_waits [simp]:
  "p \<in> outside \<Longrightarrow> \<not> takers p" "p \<in> outside \<Longrightarrow> \<not> putters p"
  "p \<in> outside \<Longrightarrow> p \<noteq> P_sleep cv" "p \<in> outside \<Longrightarrow> p \<noteq> C_sleep cv"
  unfolding takers_def putters_def outside_def by (elim insertE; simp)+

lemma threads_upd [simp]:
  "threads (goto t q s) = threads s" "threads (s\<lparr>pcs := p\<rparr>) = threads s"
  "threads (s\<lparr>idx := f\<rparr>) = threads s" "threads (s\<lparr>mutex := m\<rparr>) = threads s"
  "threads (s\<lparr>tmp := x\<rparr>) = threads s" "threads (s\<lparr>stopped := e\<rparr>) = threads s"
  "threads (s\<lparr>produced := xs\<rparr>) = threads s" "threads (s\<lparr>consumed := xs\<rparr>) = threads s"
  "threads (s\<lparr>buffer := b\<rparr>) = threads s" "threads (fill_advance s) = threads s"
  "threads (fill_count s) = threads s" "threads (get_advance s) = threads s"
  "threads (get_count s) = threads s"
  by (simp_all add: threads_def goto_def)

lemma wakeups_upd:
  assumes "wakeups_ok s" "t \<in> set (threads s)"
    "pcs s' = (pcs s)(t := q)" "threads s' = threads s" "slots s' = slots s"
    "num_full s' = 0 \<or> q \<noteq> C_sleep Fill_cv \<and>
      num_full s' - num_full s \<le> of_bool (takers q) - of_bool (takers (pcs s t))"
    "num_full s' = slots s \<or> q \<noteq> P_sleep Empty_cv \<and>
      num_full s - num_full s' \<le> of_bool (putters q) - of_bool (putters (pcs s t))"
  shows "wakeups_ok s'"
proof -
  have sl: "(\<exists>u \<in> set (threads s). pcs s' u = p) \<Longrightarrow> q \<noteq> p \<Longrightarrow> \<exists>u \<in> set (threads s). pcs s u = p" for p
    using assms(3) by (auto split: if_splits)
  have "num_full s' \<le> int (count_at (set (threads s)) takers (pcs s'))"
    if "\<exists>u \<in> set (threads s). pcs s' u = C_sleep Fill_cv"
    using assms(1,6) sl [OF that] count_at_upd [OF _ assms(2), of takers "pcs s" q]
    by (auto simp: assms(3) wakeups_ok_def)
  moreover have "slots s - num_full s' \<le> int (count_at (set (threads s)) putters (pcs s'))"
    if "\<exists>u \<in> set (threads s). pcs s' u = P_sleep Empty_cv"
    using assms(1,7) sl [OF that] count_at_upd [OF _ assms(2), of putters "pcs s" q]
    by (auto simp: assms(3) wakeups_ok_def)
  ultimately show ?thesis using assms(4,5) by (simp add: wakeups_ok_def)
qed

lemma wakeups_mono:
  assumes "wakeups_ok s" "threads s' = threads s" "slots s' = slots s" "num_full s' = num_full s"
    "\<And>u. u \<in> set (threads s) \<Longrightarrow> pcs s' u = C_sleep Fill_cv \<Longrightarrow> pcs s u = C_sleep Fill_cv \<and>
      count_at (set (threads s)) takers (pcs s) \<le> count_at (set (threads s)) takers (pcs s')"
    "\<And>u. u \<in> set (threads s) \<Longrightarrow> pcs s' u = P_sleep Empty_cv \<Longrightarrow> pcs s u = P_sleep Empty_cv \<and>
      count_at (set (threads s)) putters (pcs s) \<le> count_at (set (threads s)) putters (pcs s')"
  shows "wakeups_ok s'"
  unfolding wakeups_ok_def assms(2-4)
proof (intro conjI impI; elim bexE)
  fix u assume u: "u \<in> set (threads s)" "pcs s' u = C_sleep Fill_cv"
  then have "num_full s \<le> int (count_at (set (threads s)) takers (pcs s))"
    using assms(1) assms(5) [OF u] unfolding wakeups_ok_def by blast
  then show "num_full s \<le> int (count_at (set (threads s)) takers (pcs s'))"
    using assms(5) [OF u] by linarith
next
  fix u assume u: "u \<in> set (threads s)" "pcs s' u = P_sleep Empty_cv"
  then have "slots s - num_full s \<le> int (count_at (set (threads s)) putters (pcs s))"
    using assms(1) assms(6) [OF u] unfolding wakeups_ok_def by blast
  then show "slots s - num_full s \<le> int (count_at (set (threads s)) putters (pcs s'))"
    using assms(6) [OF u] by linarith
qed

text \<open>A signal hands the responsibility of the signalling thread on, or nobody needs it.\<close>

lemma wakeups_signal:
  assumes "wakeups_ok s" "t \<in> set (threads s)" "mutex_ok s" "cond_signal cv t q who s = Some s'"
    "cv = Fill_cv \<and> pcs s t = P_signal \<and> q = P_unlock \<or> cv = Empty_cv \<and> pcs s t = C_signal \<and> q = C_unlock"
  shows "wakeups_ok s'"
proof -
  let ?T = "set (threads s)"
  have shape: "pcs s u \<noteq> P_sleep Fill_cv" "pcs s u \<noteq> C_sleep Empty_cv" for u
    using assms(3) by (metis mutex_ok_def condvar.distinct unused_sleep)+
  have upd: "int (count_at ?T P ((pcs s)(t := q))) = int (count_at ?T P (pcs s)) + of_bool (P q) - of_bool (P (pcs s t))"
    for P by (rule count_at_upd [OF _ assms(2)]) simp
  have upd2: "int (count_at ?T P ((pcs s)(w := p, t := q))) = int (count_at ?T P (pcs s))
      + of_bool (P p) - of_bool (P (pcs s w)) + of_bool (P q) - of_bool (P (pcs s t))"
    if "w \<in> ?T" "w \<noteq> t" for P w p
    using count_at_upd [OF _ that(1), of P "pcs s" p] count_at_upd [OF _ assms(2), of P "(pcs s)(w := p)" q] that(2)
    by simp
  consider "sleepers cv s = []" "s' = goto t q s"
    | w where "w \<in> ?T" "pcs s w = C_sleep Fill_cv" "cv = Fill_cv" "s' = goto t q (goto w C_wake s)"
    | w where "w \<in> ?T" "pcs s w = P_sleep Empty_cv" "cv = Empty_cv" "s' = goto t q (goto w P_wake s)"
    using assms(4,5) shape
    by (auto elim!: cond_signal_cases simp: sleepers_def)
  then show ?thesis
  proof cases
    case 1
    then have n: "u \<in> ?T \<Longrightarrow> \<not> sleeping_on cv (pcs s u)" for u
      by (auto simp: sleepers_def filter_empty_conv)
    show ?thesis
      using assms(5) 1(2) n upd [of takers] upd [of putters]
      by (intro wakeups_mono [OF assms(1)]) (auto simp: goto_def sleeping_on_def split: if_splits)
  next
    case (2 w)
    then have "w \<noteq> t" using assms(5) by auto
    then show ?thesis
      using assms(5) 2 upd2 [OF 2(1), of takers C_wake] upd2 [OF 2(1), of putters C_wake]
      by (intro wakeups_mono [OF assms(1)]) (auto simp: goto_def split: if_splits)
  next
    case (3 w)
    then have "w \<noteq> t" using assms(5) by auto
    then show ?thesis
      using assms(5) 3 upd2 [OF 3(1), of takers P_wake] upd2 [OF 3(1), of putters P_wake]
      by (intro wakeups_mono [OF assms(1)]) (auto simp: goto_def split: if_splits)
  qed
qed

lemma access_frame:
  "fill_step t v p s = Some s' \<Longrightarrow> slots s' = slots s \<and> threads s' = threads s \<and>
    (stopped s' = None \<longrightarrow> num_full s' - num_full s = of_bool (pcs s t = F_count))"
  "get_step t p s = Some s' \<Longrightarrow> slots s' = slots s \<and> threads s' = threads s \<and>
    (stopped s' = None \<longrightarrow> num_full s - num_full s' = of_bool (pcs s t = G_count))"
  by (auto simp: fill_step_def get_step_def exec_def goto_def threads_def
    fill_check_def fill_store_def get_load_def get_check_def get_clear_def load_def store_def ensure_def
    split: pc.splits if_splits)

lemma access_next:
  assumes "stopped s = None" "stopped s' = None"
  shows "pcs s t \<in> {F_check, F_store, F_advance, F_count} \<Longrightarrow> fill_step t v P_signal s = Some s' \<Longrightarrow>
      (pcs s t, pcs s' t) \<in> {(F_check, F_store), (F_store, F_advance), (F_advance, F_count), (F_count, P_signal)}"
    "pcs s t \<in> {G_load, G_check, G_clear, G_advance, G_count} \<Longrightarrow> get_step t C_signal s = Some s' \<Longrightarrow>
      (pcs s t, pcs s' t) \<in> {(G_load, G_check), (G_check, G_clear), (G_clear, G_advance),
        (G_advance, G_count), (G_count, C_signal)}"
  using assms
  by (elim insertE emptyE; auto simp: fill_step_def get_step_def exec_def goto_def split: sum.splits)+

lemma wakeups_move:
  assumes "mutex_ok s" "buffer_ok s" "wakeups_ok s" "move s t s'" "t \<in> set (threads s)"
  shows "wakeups_ok s'"
  using assms(4)
proof cases
  case (mv_signal_p who)
  then show ?thesis using wakeups_signal [OF assms(3,5,1)] by blast
next
  case (mv_signal_c who)
  then show ?thesis using wakeups_signal [OF assms(3,5,1)] by blast
next
  case (mv_fill v)
  have st: "stopped s = None" "stopped s' = None"
    using assms(2) buffer_move [OF assms(1,2,4)] by (simp_all add: buffer_ok_def)
  show ?thesis
    using access_frame(1) [OF mv_fill(3)] access_shape(1) [OF mv_fill(1,3)] st(2)
      access_next(1) [OF st mv_fill(1,3)]
    by (intro wakeups_upd [OF assms(3,5), of s' "pcs s' t"]) auto
next
  case mv_get
  have st: "stopped s = None" "stopped s' = None"
    using assms(2) buffer_move [OF assms(1,2,4)] by (simp_all add: buffer_ok_def)
  show ?thesis
    using access_frame(2) [OF mv_get(2)] access_shape(2) [OF mv_get] st(2)
      access_next(2) [OF st mv_get]
    by (intro wakeups_upd [OF assms(3,5), of s' "pcs s' t"]) auto
next
  case mv_sleep_p
  then show ?thesis
    using wakeups_upd [OF assms(3,5), of s' "P_sleep Empty_cv"] buffer_ok_holder [OF assms(1,2), of t]
    by (simp add: holder_ok_def)
next
  case mv_sleep_c
  then show ?thesis
    using wakeups_upd [OF assms(3,5), of s' "C_sleep Fill_cv"] buffer_ok_holder [OF assms(1,2), of t]
    by (simp add: holder_ok_def)
next
  case mv_spurious
  show ?thesis
  proof (cases rule: wake_point_cases [of "pcs s t"])
    case (1 cv)
    then show ?thesis using wakeups_upd [OF assms(3,5), of s' P_wake] mv_spurious by simp
  next
    case (2 cv)
    then show ?thesis using wakeups_upd [OF assms(3,5), of s' C_wake] mv_spurious by simp
  next
    case 3
    then show ?thesis using mv_spurious by simp
  qed
next
  case (mv_unlock q f)
  then have "q \<in> outside" by (auto simp: outside_def)
  with mv_unlock show ?thesis by (intro wakeups_upd [OF assms(3,5), of s' q]) auto
next
  case (mv_outside q f)
  then show ?thesis by (intro wakeups_upd [OF assms(3,5), of s' q]) simp_all
next
  case mv_lock_p
  then show ?thesis by (intro wakeups_upd [OF assms(3,5), of s' P_test]) auto
next
  case mv_lock_c
  then show ?thesis by (intro wakeups_upd [OF assms(3,5), of s' C_test]) auto
next
  case mv_full
  then show ?thesis by (intro wakeups_upd [OF assms(3,5), of s' P_wait]) auto
next
  case mv_room
  then show ?thesis by (intro wakeups_upd [OF assms(3,5), of s' F_check]) auto
next
  case mv_none
  then show ?thesis by (intro wakeups_upd [OF assms(3,5), of s' C_wait]) auto
next
  case mv_some
  then show ?thesis by (intro wakeups_upd [OF assms(3,5), of s' G_load]) auto
qed

end
