(* ===== verification/ProdCons_Safety.thy ===== *)
theory ProdCons_Safety
  imports ProdCons_Monitor
begin

text \<open>
  Safety of \<open>main-two-cvs-while.c\<close>: what a step of each thread does to its own program point, loop
  counter and variable and to the histories, and what it leaves alone; from it the invariant of
  the whole program, and the theorems: mutual exclusion, that no check of \<open>do_fill\<close> or \<open>do_get\<close> ever fails,
  and the first-in first-out order.
\<close>

section \<open>What a step does to the other threads and to its own\<close>

text \<open>A step changes nothing of another thread, except that it may wake it up.\<close>

definition others_ok :: "tid \<Rightarrow> pcsys \<Rightarrow> pcsys \<Rightarrow> bool" where
  "others_ok t s s' \<longleftrightarrow>
     loops s' = loops s \<and> slots s' = slots s \<and> producers s' = producers s \<and> consumers s' = consumers s \<and>
     (\<forall>u. u \<noteq> t \<longrightarrow> idx s' u = idx s u \<and> tmp s' u = tmp s u \<and>
       (pcs s' u = pcs s u \<or> wake_point (pcs s u) \<noteq> pcs s u \<and> pcs s' u = wake_point (pcs s u)))"

lemma others_goto [simp]: "others_ok t s (goto t q s)"
  by (simp add: others_ok_def goto_def)

lemma wake_point_sleep [simp]: "wake_point (P_sleep cv) = P_wake" "wake_point (C_sleep cv) = C_wake"
  by (simp_all add: wake_point_def)

lemma others_signal:
  assumes "cond_signal cv t q who s = Some s'"
  shows "others_ok t s s'"
  using assms by (cases rule: cond_signal_cases) (auto simp: others_ok_def goto_def)

lemma others_refl [simp]:
  "others_ok t s (goto t q (fill_advance s))" "others_ok t s (goto t q (fill_count s))"
  "others_ok t s (goto t q (get_advance s))" "others_ok t s (goto t q (get_count s))"
  "others_ok t s (s\<lparr>stopped := e\<rparr>)" "others_ok t s (goto t q (s\<lparr>tmp := (tmp s)(t := x)\<rparr>))"
  "others_ok t s (goto t q (s\<lparr>buffer := b, produced := xs\<rparr>))"
  "others_ok t s (goto t q (s\<lparr>buffer := b, consumed := xs\<rparr>))"
  "others_ok t s (goto t q (s\<lparr>mutex := m\<rparr>))" 
  "others_ok t s (goto t q (s\<lparr>idx := (idx s)(t := i), mutex := m\<rparr>))"
  by (auto simp: others_ok_def goto_def)

lemma others_access:
  "fill_step t v q s = Some s' \<Longrightarrow> others_ok t s s'"
  "get_step t q s = Some s' \<Longrightarrow> others_ok t s s'"
  by (cases "pcs s t"; auto simp: fill_step_def get_step_def exec_def 
    fill_check_def fill_store_def get_load_def get_check_def get_clear_def load_def store_def ensure_def
    split: if_splits)+

lemmas lock_defs = mutex_lock_def mutex_unlock_def cond_wait_def incr_def

lemma others_thread:
  "producer_while k who s = Some s' \<Longrightarrow> others_ok (Producer k) s s'"
  "consumer_while j who s = Some s' \<Longrightarrow> others_ok (Consumer j) s s'"
  subgoal
    by (cases "pcs s (Producer k)"; auto simp: producer_while_def Let_def lock_defs
      split: if_splits dest: others_signal others_access)
  subgoal
    by (cases "pcs s (Consumer j)"; auto simp: consumer_while_def Let_def lock_defs
      split: if_splits dest: others_signal others_access)
  done

text \<open>The program points of a thread, in order, and what it does to its own variables and the history.\<close>

definition producer_edges :: "(pc \<times> pc) set" where
  "producer_edges = {(P_for, P_lock), (P_for, Done), (P_lock, P_test), (P_test, P_wait), (P_test, F_check),
     (P_wait, P_sleep Empty_cv), (P_wake, P_test), (F_check, F_store), (F_store, F_advance),
     (F_advance, F_count), (F_count, P_signal), (P_signal, P_unlock), (P_unlock, P_for)}"

definition consumer_edges :: "(pc \<times> pc) set" where
  "consumer_edges = {(C_while, C_lock), (C_while, Done), (C_lock, C_test), (C_test, C_wait), (C_test, G_load),
     (C_wait, C_sleep Fill_cv), (C_wake, C_test), (G_load, G_check), (G_check, G_clear), (G_clear, G_advance),
     (G_advance, G_count), (G_count, C_signal), (C_signal, C_unlock), (C_unlock, C_while)}"

definition main_edges :: "(pc \<times> pc) set" where
  "main_edges = {(M_create_p, M_create_p), (M_create_p, M_create_c), (M_create_c, M_create_c),
     (M_create_c, M_join_p), (M_join_p, M_join_p), (M_join_p, M_eos), (M_eos, P_lock), (M_eos, M_join_c),
     (P_lock, P_test), (P_test, P_wait), (P_test, F_check),
     (P_wait, P_sleep Empty_cv), (P_wake, P_test), (F_check, F_store), (F_store, F_advance),
     (F_advance, F_count), (F_count, P_signal), (P_signal, P_unlock), (P_unlock, M_eos),
     (M_join_c, M_join_c), (M_join_c, Done)}"

lemma signal_own:
  assumes "cond_signal cv t q who s = Some s'" "wake_point (pcs s t) = pcs s t"
  shows "pcs s' t = q" "idx s' = idx s" "tmp s' = tmp s" "produced s' = produced s" "consumed s' = consumed s"
    "stopped s' = stopped s" "mutex s' = mutex s"
  using assms by (auto simp: goto_def elim!: cond_signal_cases)

lemma fill_own:
  assumes "fill_step t v P_signal s = Some s'" "stopped s = None" "stopped s' = None"
  shows "idx s' = idx s" "tmp s' = tmp s" "consumed s' = consumed s" "mutex s' = mutex s"
    "produced s' = produced s @ (if pcs s t = F_store then [v] else [])"
    "(pcs s t, pcs s' t) \<in> {(F_check, F_store), (F_store, F_advance), (F_advance, F_count), (F_count, P_signal)}"
  using assms
  by (cases "pcs s t"; auto simp: fill_step_def exec_def goto_def
    fill_check_def fill_store_def load_def store_def ensure_def split: if_splits)+

lemma get_own:
  assumes "get_step t C_signal s = Some s'" "stopped s = None" "stopped s' = None"
  shows "idx s' = idx s" "produced s' = produced s" "mutex s' = mutex s"
    "pcs s t \<noteq> G_load \<Longrightarrow> tmp s' = tmp s"
    "consumed s' = consumed s @ (if pcs s t = G_clear then [tmp s t] else [])"
    "(pcs s t, pcs s' t) \<in> {(G_load, G_check), (G_check, G_clear), (G_clear, G_advance),
        (G_advance, G_count), (G_count, C_signal)}"
  using assms
  by (cases "pcs s t"; auto simp: get_step_def exec_def goto_def
    get_load_def get_check_def get_clear_def load_def store_def ensure_def split: if_splits)+

lemma producer_own:
  assumes "producer_while k who s = Some s'" "pcs s (Producer k) \<in> producer_pcs"
    "stopped s = None" "stopped s' = None"
  shows "(pcs s (Producer k), pcs s' (Producer k)) \<in> producer_edges \<and>
      idx s' (Producer k) = idx s (Producer k) + of_bool (pcs s (Producer k) = P_unlock) \<and>
      tmp s' = tmp s \<and> consumed s' = consumed s \<and>
      produced s' = produced s @ (if pcs s (Producer k) = F_store then [value_of k s] else []) \<and>
      (pcs s (Producer k) = P_for \<longrightarrow>
        pcs s' (Producer k) = (if idx s (Producer k) < loops s then P_lock else Done))"
proof -
  consider "pcs s (Producer k) \<in> {F_check, F_store, F_advance, F_count}"
    | "pcs s (Producer k) = P_signal"
    | "pcs s (Producer k) \<in> {Not_created, Done, P_for, P_lock, P_test, P_wait, P_sleep Empty_cv, P_wake, P_unlock}"
    using assms(2) unfolding producer_pcs_def by blast
  then show ?thesis
  proof cases
    case 1
    then have st: "fill_step (Producer k) (value_of k s) P_signal s = Some s'"
      using assms(1) by (auto simp: producer_while_def Let_def)
    show ?thesis using fill_own [OF st assms(3,4)] 1 by (auto simp: producer_edges_def)
  next
    case 2
    then have st: "cond_signal Fill_cv (Producer k) P_unlock who s = Some s'"
      using assms(1) by (auto simp: producer_while_def Let_def)
    show ?thesis using signal_own [OF st] 2 by (simp add: producer_edges_def wake_point_def)
  next
    case 3
    then show ?thesis
      using assms(1)
      by (elim insertE emptyE)
        (auto simp: producer_while_def Let_def thread_defs fill_step_def producer_edges_def split: if_splits)
  qed
qed

lemma consumer_own:
  assumes "consumer_while k who s = Some s'" "pcs s (Consumer k) \<in> consumer_pcs"
    "stopped s = None" "stopped s' = None"
  shows "(pcs s (Consumer k), pcs s' (Consumer k)) \<in> consumer_edges \<and>
      idx s' (Consumer k) = idx s (Consumer k) + of_bool (pcs s (Consumer k) = C_unlock) \<and>
      produced s' = produced s \<and>
      consumed s' = consumed s @ (if pcs s (Consumer k) = G_clear then [tmp s (Consumer k)] else []) \<and>
      (pcs s (Consumer k) \<noteq> G_load \<longrightarrow> tmp s' = tmp s) \<and>
      (pcs s (Consumer k) = C_while \<longrightarrow>
        pcs s' (Consumer k) = (if tmp s (Consumer k) \<noteq> END_OF_STREAM then C_lock else Done))"
proof -
  consider "pcs s (Consumer k) \<in> {G_load, G_check, G_clear, G_advance, G_count}"
    | "pcs s (Consumer k) = C_signal"
    | "pcs s (Consumer k) \<in> {Not_created, Done, C_while, C_lock, C_test, C_wait, C_sleep Fill_cv, C_wake, C_unlock}"
    using assms(2) unfolding consumer_pcs_def by blast
  then show ?thesis
  proof cases
    case 1
    then have st: "get_step (Consumer k) C_signal s = Some s'"
      using assms(1) by (auto simp: consumer_while_def Let_def)
    show ?thesis using get_own [OF st assms(3,4)] 1 by (auto simp: consumer_edges_def)
  next
    case 2
    then have st: "cond_signal Empty_cv (Consumer k) C_unlock who s = Some s'"
      using assms(1) by (auto simp: consumer_while_def Let_def)
    show ?thesis using signal_own [OF st] 2 by (simp add: consumer_edges_def wake_point_def)
  next
    case 3
    then show ?thesis
      using assms(1)
      by (elim insertE emptyE)
        (auto simp: consumer_while_def Let_def thread_defs get_step_def consumer_edges_def split: if_splits)
  qed
qed

text \<open>
  A step of \<open>main\<close>: the next program point with the loop counter, and the thread it creates, if any.
\<close>

definition created :: "pcsys \<Rightarrow> tid \<Rightarrow> bool" where
  "created s u \<longleftrightarrow> pcs s Main = M_create_p \<and> u = Producer (idx s Main) \<and> idx s Main < producers s \<or>
     pcs s Main = M_create_c \<and> u = Consumer (idx s Main) \<and> idx s Main < consumers s"

definition main_next :: "pcsys \<Rightarrow> pc \<Rightarrow> nat \<Rightarrow> bool" where
  "main_next s q i \<longleftrightarrow> (case pcs s Main of
       M_create_p \<Rightarrow> if idx s Main < producers s then q = M_create_p \<and> i = idx s Main + 1
         else q = M_create_c \<and> i = 0
     | M_create_c \<Rightarrow> if idx s Main < consumers s then q = M_create_c \<and> i = idx s Main + 1
         else q = M_join_p \<and> i = 0
     | M_join_p \<Rightarrow> if idx s Main < producers s
         then q = M_join_p \<and> i = idx s Main + 1 \<and> pcs s (Producer (idx s Main)) = Done
         else q = M_eos \<and> i = 0
     | M_eos \<Rightarrow> if idx s Main < consumers s then q = P_lock \<and> i = idx s Main else q = M_join_c \<and> i = 0
     | M_join_c \<Rightarrow> if idx s Main < consumers s
         then q = M_join_c \<and> i = idx s Main + 1 \<and> pcs s (Consumer (idx s Main)) = Done
         else q = Done \<and> i = idx s Main
     | P_unlock \<Rightarrow> q = M_eos \<and> i = idx s Main + 1
     | p \<Rightarrow> (p, q) \<in> main_edges \<and> i = idx s Main)"

lemma main_own:
  assumes "main_step Fill_cv Empty_cv who s = Some s'" "pcs s Main \<in> main_pcs"
    "stopped s = None" "stopped s' = None"
  shows "main_next s (pcs s' Main) (idx s' Main) \<and> tmp s' = tmp s \<and> consumed s' = consumed s \<and>
      produced s' = produced s @ (if pcs s Main = F_store then [END_OF_STREAM] else []) \<and>
      loops s' = loops s \<and> slots s' = slots s \<and> producers s' = producers s \<and> consumers s' = consumers s \<and>
      (\<forall>u. created s u \<longrightarrow> pcs s' u = (case u of Producer i \<Rightarrow> P_for | _ \<Rightarrow> C_while)) \<and>
      (\<forall>u. u \<noteq> Main \<longrightarrow> idx s' u = idx s u \<and> (pcs s' u = pcs s u \<or>
         created s u \<and> pcs s' u = (case u of Producer i \<Rightarrow> P_for | _ \<Rightarrow> C_while) \<or>
         wake_point (pcs s u) \<noteq> pcs s u \<and> pcs s' u = wake_point (pcs s u)))"
proof -
  consider "pcs s Main \<in> {F_check, F_store, F_advance, F_count}"
    | "pcs s Main = P_signal"
    | "pcs s Main \<in> {M_create_p, M_create_c, M_join_p, M_eos, M_join_c}"
    | "pcs s Main \<in> {Done, P_lock, P_test, P_wait, P_sleep Empty_cv, P_wake, P_unlock}"
    using assms(2) unfolding main_pcs_def by blast
  then show ?thesis
  proof cases
    case 1
    then have st: "fill_step Main END_OF_STREAM P_signal s = Some s'"
      using assms(1) by (auto simp: main_step_def Let_def)
    show ?thesis
      using fill_own [OF st assms(3,4)] 1 others_access(1) [OF st]
      by (auto simp: main_edges_def main_next_def others_ok_def created_def)
  next
    case 2
    then have st: "cond_signal Fill_cv Main P_unlock who s = Some s'"
      using assms(1) by (auto simp: main_step_def Let_def)
    show ?thesis
      using signal_own [OF st] 2 others_signal [OF st]
      by (auto simp: main_edges_def main_next_def others_ok_def wake_point_def created_def)
  next
    case 3
    then show ?thesis
      using assms(1)
      by (elim insertE emptyE)
        (auto simp: main_step_def Let_def goto_def incr_def main_next_def created_def split: if_splits)
  next
    case 4
    then show ?thesis
      using assms(1)
      by (elim insertE emptyE)
        (auto simp: main_step_def Let_def thread_defs fill_step_def main_next_def main_edges_def created_def split: if_splits)
  qed
qed

lemma wake_point_pcs [simp]:
  "p \<in> producer_pcs \<Longrightarrow> wake_point p \<in> producer_pcs"
  "p \<in> consumer_pcs \<Longrightarrow> wake_point p \<in> consumer_pcs"
  "p \<in> main_pcs \<Longrightarrow> wake_point p \<in> main_pcs"
  "wake_point p = Not_created \<longleftrightarrow> p = Not_created"
  "wake_point p = M_create_p \<longleftrightarrow> p = M_create_p"
  "wake_point p = M_create_c \<longleftrightarrow> p = M_create_c"
  by (cases p rule: wake_point_cases; auto simp: producer_pcs_def consumer_pcs_def main_pcs_def)+

lemma first_pcs [simp]: "P_for \<in> producer_pcs" "C_while \<in> consumer_pcs"
  by (simp_all add: producer_pcs_def consumer_pcs_def)

lemma edge_pcs:
  "(p, q) \<in> producer_edges \<Longrightarrow> p \<noteq> Not_created \<and> q \<in> producer_pcs"
  "(p, q) \<in> consumer_edges \<Longrightarrow> p \<noteq> Not_created \<and> q \<in> consumer_pcs"
  by (auto simp: producer_edges_def producer_pcs_def consumer_edges_def consumer_pcs_def)

lemma main_next_pcs: "main_next s q i \<Longrightarrow> pcs s Main \<in> main_pcs \<Longrightarrow> q \<in> main_pcs"
  by (auto simp: main_next_def main_edges_def main_pcs_def split: if_splits)

text \<open>The roles without \<open>main\<close>'s creation loops, which only its own steps change.\<close>

lemma roles_same:
  assumes "roles_ok s" "producers s' = producers s" "consumers s' = consumers s" "idx s' Main = idx s Main"
    "\<And>u. pcs s' u = pcs s u \<or> pcs s' u = wake_point (pcs s u) \<or>
      pcs s u \<noteq> Not_created \<and> (case u of Main \<Rightarrow> False | Producer i \<Rightarrow> pcs s' u \<in> producer_pcs
        | Consumer j \<Rightarrow> pcs s' u \<in> consumer_pcs)"
  shows "roles_ok s'"
proof -
  have M: "pcs s' Main = pcs s Main \<or> pcs s' Main = wake_point (pcs s Main)" using assms(5) [of Main] by simp
  have P: "pcs s' (Producer i) \<in> producer_pcs" "pcs s (Producer i) = Not_created \<Longrightarrow> pcs s' (Producer i) = Not_created" for i
    using assms(5) [of "Producer i"] assms(1) by (auto simp: roles_ok_def)
  have C: "pcs s' (Consumer i) \<in> consumer_pcs" "pcs s (Consumer i) = Not_created \<Longrightarrow> pcs s' (Consumer i) = Not_created" for i
    using assms(5) [of "Consumer i"] assms(1) by (auto simp: roles_ok_def)
  have "pcs s' Main = M_create_p \<longleftrightarrow> pcs s Main = M_create_p" "pcs s' Main = M_create_c \<longleftrightarrow> pcs s Main = M_create_c"
    using M wake_point_pcs(5,6) by metis+
  then show ?thesis
    using assms(1-4) P C M unfolding roles_ok_def by auto
qed

lemma roles_main:
  assumes "roles_ok s" "stopped s = None" "stopped s' = None" "main_step Fill_cv Empty_cv who s = Some s'"
  shows "roles_ok s'"
proof -
  have M: "pcs s Main \<in> main_pcs" using assms(1) by (simp add: roles_ok_def)
  note own = main_own [OF assms(4) M assms(2,3)]
  have eq: "producers s' = producers s" "consumers s' = consumers s"
    and nx: "main_next s (pcs s' Main) (idx s' Main)"
    and oth: "u \<noteq> Main \<Longrightarrow> pcs s' u = pcs s u \<or>
       created s u \<and> pcs s' u = (case u of Producer i \<Rightarrow> P_for | _ \<Rightarrow> C_while) \<or> pcs s' u = wake_point (pcs s u)" for u
    using own by auto
  have P: "pcs s' (Producer i) \<in> producer_pcs"
    "pcs s (Producer i) = Not_created \<Longrightarrow> pcs s' (Producer i) = Not_created \<or> created s (Producer i)" for i
    using oth [of "Producer i"] assms(1) by (auto simp: roles_ok_def)
  have C: "pcs s' (Consumer i) \<in> consumer_pcs"
    "pcs s (Consumer i) = Not_created \<Longrightarrow> pcs s' (Consumer i) = Not_created \<or> created s (Consumer i)" for i
    using oth [of "Consumer i"] assms(1) by (auto simp: roles_ok_def)
  have cr: "created s (Producer i) \<Longrightarrow> pcs s Main = M_create_p \<and> i = idx s Main \<and> i < producers s"
    "created s (Consumer i) \<Longrightarrow> pcs s Main = M_create_c \<and> i = idx s Main \<and> i < consumers s" for i
    by (auto simp: created_def)
  have 1: "pcs s' (Producer i) = Not_created" if "producers s \<le> i" for i
    using P(2) [of i] cr(1) [of i] that assms(1) by (auto simp: roles_ok_def)
  have 2: "pcs s' (Consumer i) = Not_created" if "consumers s \<le> i" for i
    using C(2) [of i] cr(2) [of i] that assms(1) by (auto simp: roles_ok_def)
  have 3: "pcs s' (Producer i) = Not_created" if "pcs s' Main = M_create_p" "idx s' Main \<le> i" for i
    using that nx P(2) [of i] cr(1) [of i] assms(1)
    by (auto simp: main_next_def roles_ok_def main_edges_def split: pc.splits if_splits)
  have 4: "pcs s' (Consumer i) = Not_created" if "pcs s' Main = M_create_p" for i
    using that nx C(2) [of i] cr(2) [of i] assms(1)
    by (auto simp: main_next_def roles_ok_def main_edges_def split: pc.splits if_splits)
  have 5: "pcs s' (Consumer i) = Not_created" if "pcs s' Main = M_create_c" "idx s' Main \<le> i" for i
    using that nx C(2) [of i] cr(2) [of i] assms(1)
    by (auto simp: main_next_def roles_ok_def main_edges_def split: pc.splits if_splits)
  show ?thesis
    using main_next_pcs [OF nx M] P(1) C(1) 1 2 3 4 5 eq
    unfolding roles_ok_def by auto
qed

lemma roles_step:
  assumes "roles_ok s" "stopped s = None" "stopped s' = None" "step_two_cvs_while a s = Some s'"
  shows "roles_ok s'"
proof (cases a)
  case (Spurious t)
  then have "s' = wake t s"
    using assms(4) by (auto simp: step_two_cvs_while_def system_step_def split: if_splits)
  then show ?thesis by (intro roles_same [OF assms(1)]) auto
next
  case (Step t who)
  show ?thesis
  proof (cases t)
    case Main
    then show ?thesis
      using assms Step roles_main by (auto simp: step_two_cvs_while_def system_step_def split: if_splits)
  next
    case (Producer k)
    then have st: "producer_while k who s = Some s'"
      using assms Step by (auto simp: step_two_cvs_while_def system_step_def split: if_splits)
    have "pcs s (Producer k) \<in> producer_pcs" using assms(1) by (simp add: roles_ok_def)
    then have own: "pcs s (Producer k) \<noteq> Not_created \<and> pcs s' (Producer k) \<in> producer_pcs"
      using producer_own [OF st _ assms(2,3)] edge_pcs(1) by blast
    have oth: "producers s' = producers s" "consumers s' = consumers s" "idx s' Main = idx s Main"
      "u \<noteq> Producer k \<Longrightarrow> pcs s' u = pcs s u \<or> pcs s' u = wake_point (pcs s u)" for u
      using others_thread(1) [OF st] by (auto simp: others_ok_def)
    show ?thesis
    proof (rule roles_same [OF assms(1) oth(1-3)])
      fix u
      show "pcs s' u = pcs s u \<or> pcs s' u = wake_point (pcs s u) \<or>
        pcs s u \<noteq> Not_created \<and> (case u of Main \<Rightarrow> False | Producer i \<Rightarrow> pcs s' u \<in> producer_pcs
          | Consumer j \<Rightarrow> pcs s' u \<in> consumer_pcs)"
        using own oth(4) [of u] by (cases "u = Producer k") auto
    qed
  next
    case (Consumer k)
    then have st: "consumer_while k who s = Some s'"
      using assms Step by (auto simp: step_two_cvs_while_def system_step_def split: if_splits)
    have "pcs s (Consumer k) \<in> consumer_pcs" using assms(1) by (simp add: roles_ok_def)
    then have own: "pcs s (Consumer k) \<noteq> Not_created \<and> pcs s' (Consumer k) \<in> consumer_pcs"
      using consumer_own [OF st _ assms(2,3)] edge_pcs(2) by blast
    have oth: "producers s' = producers s" "consumers s' = consumers s" "idx s' Main = idx s Main"
      "u \<noteq> Consumer k \<Longrightarrow> pcs s' u = pcs s u \<or> pcs s' u = wake_point (pcs s u)" for u
      using others_thread(2) [OF st] by (auto simp: others_ok_def)
    show ?thesis
    proof (rule roles_same [OF assms(1) oth(1-3)])
      fix u
      show "pcs s' u = pcs s u \<or> pcs s' u = wake_point (pcs s u) \<or>
        pcs s u \<noteq> Not_created \<and> (case u of Main \<Rightarrow> False | Producer i \<Rightarrow> pcs s' u \<in> producer_pcs
          | Consumer j \<Rightarrow> pcs s' u \<in> consumer_pcs)"
        using own oth(4) [of u] by (cases "u = Consumer k") auto
    qed
  qed
qed

section \<open>The invariant\<close>

definition pc_invar :: "pcsys \<Rightarrow> bool" where
  "pc_invar s \<longleftrightarrow> roles_ok s \<and> mutex_ok s \<and> buffer_ok s \<and> wakeups_ok s"

lemma pc_invar_start: "pc_start s \<Longrightarrow> pc_invar s"
proof -
  assume "pc_start s"
  then obtain l m p c where s: "s = pc_init l m p c" "0 < m"
    unfolding pc_start_def by (metis zero_less_nat_eq)
  have "ring_of s = ring_init m" using s by (simp add: ring_of_def pc_init_def)
  then have "agrees (ring_of s) [] []"
    using ring_init_ok(1) [OF s(2)] ring_init_ok(2) [of m] by (simp only: agrees_def) simp
  moreover have "stopped s = None" "mutex s = None" "consumed s = []" "produced s = []"
    using s(1) by (simp_all add: pc_init_def)
  ultimately have "buffer_ok s" by (simp add: buffer_ok_def)
  moreover have "roles_ok s" using s(1)
    by (auto simp: roles_ok_def pc_init_def main_pcs_def producer_pcs_def consumer_pcs_def)
  moreover have "mutex_ok s" "wakeups_ok s" using s(1)
    by (auto simp: mutex_ok_def wakeups_ok_def pc_init_def split: if_splits)
  ultimately show ?thesis by (simp add: pc_invar_def)
qed

lemma pc_invar_step:
  assumes "pc_invar s" "step_two_cvs_while a s = Some s'"
  shows "pc_invar s'"
proof -
  have I: "roles_ok s" "mutex_ok s" "buffer_ok s" "wakeups_ok s" using assms(1) by (simp_all add: pc_invar_def)
  obtain t where t: "t \<in> set (threads s)" "move s t s'" using step_move [OF assms(2) I(1)] by blast
  have b: "buffer_ok s'" using buffer_move [OF I(2,3) t(2)] .
  then have "stopped s = None" "stopped s' = None" using I(3) by (simp_all add: buffer_ok_def)
  then show ?thesis
    using roles_step [OF I(1) _ _ assms(2)] mutex_move [OF I(2) t(2)] b wakeups_move [OF I(2-4) t(2,1)]
    by (simp add: pc_invar_def)
qed

interpretation pc: safe_program step_two_cvs_while pc_start pc_invar
  by unfold_locales (auto intro: pc_invar_start pc_invar_step)

section \<open>Properties\<close>

text \<open>A complete run with one producer, one consumer and one slot, and its first steps.\<close>

definition two_cvs_schedule :: "action list" where
  "two_cvs_schedule = [
     Step Main None, Step Main None, Step Main None, Step Main None, Step (Producer 0) None,
     Step (Producer 0) None, Step (Producer 0) None, Step (Producer 0) None,
     Step (Producer 0) None, Step (Producer 0) None, Step (Producer 0) None,
     Step (Producer 0) None, Step (Producer 0) None, Step (Producer 0) None, Step Main None,
     Step Main None, Step Main None, Step (Consumer 0) None, Step (Consumer 0) None,
     Step (Consumer 0) None, Step (Consumer 0) None, Step (Consumer 0) None,
     Step (Consumer 0) None, Step (Consumer 0) None, Step (Consumer 0) None,
     Step (Consumer 0) None, Step (Consumer 0) None, Step Main None, Step Main None,
     Step Main None, Step Main None, Step Main None, Step Main None, Step Main None,
     Step Main None, Step Main None, Step (Consumer 0) None, Step (Consumer 0) None,
     Step (Consumer 0) None, Step (Consumer 0) None, Step (Consumer 0) None,
     Step (Consumer 0) None, Step (Consumer 0) None, Step (Consumer 0) None,
     Step (Consumer 0) None, Step (Consumer 0) None, Step (Consumer 0) None, Step Main None,
     Step Main None]"

lemma start_1111: "pc_start (pc_init 1 1 1 1)"
  by (simp add: pc_start_def pc_init_def ring_init_def MAX_THREADS_def)

lemma run_prefix: "\<exists>s'. run step_two_cvs_while (take 7 two_cvs_schedule) (pc_init 1 1 1 1) = Some s' \<and>
    crit (pcs s' (Producer 0))"
  by (simp add: eval_defs two_cvs_schedule_def)

lemma run_complete: "\<exists>s'. run step_two_cvs_while two_cvs_schedule (pc_init 1 1 1 1) = Some s' \<and>
    mutex s' = None \<and> pcs s' Main = Done \<and> produced s' = [0, -1]"
  by (simp add: eval_defs two_cvs_schedule_def)


text \<open>
  In every run of main-two-cvs-while.c, with any number of threads and any
  schedule, spurious wake-ups included, at most one thread is between \<open>Mutex_lock\<close> (or the return of
  \<open>Cond_wait\<close>) and the \<open>Mutex_unlock\<close> or \<open>Cond_wait\<close> that follows: it is the holder of the mutex.
\<close>

theorem two_cvs_mutual_exclusion:
  assumes "pc_start s" "run step_two_cvs_while as s = Some s'" "crit (pcs s' t)" "crit (pcs s' u)"
  shows "t = u \<and> mutex s' = Some t"
  using pc.invar_run [OF pc_invar_start [OF assms(1)] assms(2)] assms(3,4)
  by (simp add: pc_invar_def mutex_ok_def)

theorem two_cvs_mutual_exclusion_witness:
  "\<exists>s'. run step_two_cvs_while (take 7 two_cvs_schedule) (pc_init 1 1 1 1) = Some s' \<and>
     mutex s' = Some (Producer 0)"
  using run_prefix two_cvs_mutual_exclusion [OF start_1111] by metis

text \<open>
  Property C1. No run of main-two-cvs-while.c fails: neither an \<open>ensure\<close> of \<open>do_fill\<close> or \<open>do_get\<close> nor an access
  of the buffer ends the process, whatever the schedule.
\<close>

theorem two_cvs_never_fails:
  assumes "pc_start s" "run step_two_cvs_while as s = Some s'"
  shows "stopped s' = None"
  using pc.invar_run [OF pc_invar_start [OF assms(1)] assms(2)] by (simp add: pc_invar_def buffer_ok_def)

theorem two_cvs_never_fails_witness:
  "\<exists>s'. run step_two_cvs_while two_cvs_schedule (pc_init 1 1 1 1) = Some s' \<and> stopped s' = None"
  using run_complete two_cvs_never_fails [OF start_1111] by metis

text \<open>
  Property C14. The buffer of main-two-cvs-while.c is a first-in first-out channel between the threads:
  at every moment at which nobody holds the mutex, the values taken out so far followed by those in the
  buffer are the values put in so far, in order; the buffer never holds more than \<open>max\<close> of them.
\<close>

theorem two_cvs_fifo:
  assumes "pc_start s" "run step_two_cvs_while as s = Some s'" "mutex s' = None"
  shows "consumed s' @ ring_items s' = produced s' \<and>
    length (ring_items s') = nat (num_full s') \<and> 0 \<le> num_full s' \<and> num_full s' \<le> slots s'"
  using pc.invar_run [OF pc_invar_start [OF assms(1)] assms(2)] assms(3)
  by (auto simp: pc_invar_def buffer_ok_def agrees_def ring_ok_def)

theorem two_cvs_fifo_witness:
  "\<exists>s'. run step_two_cvs_while two_cvs_schedule (pc_init 1 1 1 1) = Some s' \<and>
     consumed s' @ ring_items s' = [0, -1]"
  using run_complete two_cvs_fifo [OF start_1111] by metis

end
