(* ===== verification/ProdCons_Progress.thy ===== *)
theory ProdCons_Progress
  imports ProdCons_Safety
begin

text \<open>
  Progress of \<open>main-two-cvs-while.c\<close>: what has been produced and consumed, counted by thread. The invariant
  says of every producer that it has put in exactly its own values in order, of \<open>main\<close> that it has put in
  one \<open>END_OF_STREAM\<close> for each turn of its loop after all producers had returned, and of every consumer that it
  ends with an \<open>END_OF_STREAM\<close> of its own. With the invariant that no wake-up is lost, the program cannot
  deadlock. That it ends under every schedule is not claimed: spurious wake-ups can go on for ever.
\<close>

section \<open>Steps by the thread that moves\<close>

definition first_point :: "tid \<Rightarrow> pc" where
  "first_point u = (case u of Producer i \<Rightarrow> P_for | _ \<Rightarrow> C_while)"

definition frame :: "tid option \<Rightarrow> pcsys \<Rightarrow> pcsys \<Rightarrow> bool" where
  "frame m s s' \<longleftrightarrow> loops s' = loops s \<and> slots s' = slots s \<and> producers s' = producers s \<and>
     consumers s' = consumers s \<and>
     (\<forall>u. m \<noteq> Some u \<longrightarrow> idx s' u = idx s u \<and> tmp s' u = tmp s u \<and>
       (pcs s' u = pcs s u \<or> pcs s' u = wake_point (pcs s u) \<or>
         m = Some Main \<and> created s u \<and> pcs s' u = first_point u))"

lemma frame_others: "others_ok t s s' \<Longrightarrow> frame (Some t) s s'"
  by (auto simp: frame_def others_ok_def)

lemma step_cases:
  assumes "pc_invar s" "step_two_cvs_while a s = Some s'"
  obtains (spurious) "frame None s s'" "produced s' = produced s" "consumed s' = consumed s"
  | (producer) k where "frame (Some (Producer k)) s s'"
      "(pcs s (Producer k), pcs s' (Producer k)) \<in> producer_edges"
      "idx s' (Producer k) = idx s (Producer k) + of_bool (pcs s (Producer k) = P_unlock)"
      "tmp s' = tmp s" "consumed s' = consumed s"
      "produced s' = produced s @ (if pcs s (Producer k) = F_store then [value_of k s] else [])"
      "pcs s (Producer k) = P_for \<longrightarrow>
        pcs s' (Producer k) = (if idx s (Producer k) < loops s then P_lock else Done)"
  | (consumer) k where "frame (Some (Consumer k)) s s'"
      "(pcs s (Consumer k), pcs s' (Consumer k)) \<in> consumer_edges"
      "idx s' (Consumer k) = idx s (Consumer k) + of_bool (pcs s (Consumer k) = C_unlock)"
      "produced s' = produced s"
      "consumed s' = consumed s @ (if pcs s (Consumer k) = G_clear then [tmp s (Consumer k)] else [])"
      "pcs s (Consumer k) \<noteq> G_load \<longrightarrow> tmp s' = tmp s"
      "pcs s (Consumer k) = C_while \<longrightarrow>
        pcs s' (Consumer k) = (if tmp s (Consumer k) \<noteq> END_OF_STREAM then C_lock else Done)"
  | (main) "frame (Some Main) s s'" "main_next s (pcs s' Main) (idx s' Main)"
      "\<forall>u. created s u \<longrightarrow> pcs s' u = first_point u"
      "tmp s' = tmp s" "consumed s' = consumed s"
      "produced s' = produced s @ (if pcs s Main = F_store then [END_OF_STREAM] else [])"
proof (cases a)
  case (Spurious t)
  then have "s' = wake t s"
    using assms(2) by (auto simp: step_two_cvs_while_def system_step_def split: if_splits)
  then show ?thesis by (intro spurious) (auto simp: frame_def)
next
  case (Step t who)
  have R: "roles_ok s" "stopped s = None" "stopped s' = None"
    using assms(1) pc_invar_step [OF assms] by (simp_all add: pc_invar_def buffer_ok_def)
  show ?thesis
  proof (cases t)
    case Main
    then have st: "main_step Fill_cv Empty_cv who s = Some s'"
      using assms Step by (auto simp: step_two_cvs_while_def system_step_def split: if_splits)
    have "pcs s Main \<in> main_pcs" using R(1) by (simp add: roles_ok_def)
    note own = main_own [OF st this R(2,3)]
    have oth: "idx s' u = idx s u \<and> (pcs s' u = pcs s u \<or> created s u \<and> pcs s' u = first_point u \<or>
        pcs s' u = wake_point (pcs s u))" if "u \<noteq> Main" for u
      using own that unfolding first_point_def by blast
    have "frame (Some Main) s s'"
      unfolding frame_def
    proof (intro conjI allI impI)
      fix u assume u: "Some Main \<noteq> Some u"
      then show "idx s' u = idx s u" "tmp s' u = tmp s u" using oth [of u] own by simp_all
      from u show "pcs s' u = pcs s u \<or> pcs s' u = wake_point (pcs s u) \<or>
          Some Main = Some Main \<and> created s u \<and> pcs s' u = first_point u"
        using oth [of u] by blast
    qed (use own in simp_all)
    moreover have "\<forall>u. created s u \<longrightarrow> pcs s' u = first_point u"
      using own unfolding first_point_def by blast
    ultimately show ?thesis using main own by blast
  next
    case (Producer k)
    then have st: "producer_while k who s = Some s'"
      using assms Step by (auto simp: step_two_cvs_while_def system_step_def split: if_splits)
    have "pcs s (Producer k) \<in> producer_pcs" using R(1) by (simp add: roles_ok_def)
    note own = producer_own [OF st this R(2,3)]
    show ?thesis using producer [OF frame_others [OF others_thread(1) [OF st]]] own by blast
  next
    case (Consumer k)
    then have st: "consumer_while k who s = Some s'"
      using assms Step by (auto simp: step_two_cvs_while_def system_step_def split: if_splits)
    have "pcs s (Consumer k) \<in> consumer_pcs" using R(1) by (simp add: roles_ok_def)
    note own = consumer_own [OF st this R(2,3)]
    show ?thesis using consumer [OF frame_others [OF others_thread(2) [OF st]]] own by blast
  qed
qed

text \<open>
  A predicate on program points that survives a wake-up and the creation of a thread is kept for all
  threads but the one that moves.
\<close>

lemma frame_keep:
  assumes "frame m s s'" "roles_ok s" "m \<noteq> Some u" "Q (pcs s u)"
    "\<And>cv. Q (P_sleep cv) \<Longrightarrow> Q P_wake" "\<And>cv. Q (C_sleep cv) \<Longrightarrow> Q C_wake"
    "Q Not_created \<Longrightarrow> Q (first_point u)"
  shows "Q (pcs s' u)"
proof -
  consider "pcs s' u = pcs s u" | "pcs s' u = wake_point (pcs s u)"
    | "created s u" "pcs s' u = first_point u"
    using assms(1,3) unfolding frame_def by blast
  then show ?thesis
  proof cases
    case 2
    then show ?thesis using assms(4-6) by (cases rule: wake_point_cases [of "pcs s u"]) auto
  next
    case 3
    then have "pcs s u = Not_created" using assms(2) by (auto simp: created_def roles_ok_def)
    then show ?thesis using assms(4,7) 3 by simp
  qed (use assms(4) in simp)
qed

lemma frame_vars:
  "frame m s s' \<Longrightarrow> loops s' = loops s \<and> slots s' = slots s \<and> producers s' = producers s \<and> consumers s' = consumers s"
  "frame m s s' \<Longrightarrow> m \<noteq> Some u \<Longrightarrow> idx s' u = idx s u" "frame m s s' \<Longrightarrow> m \<noteq> Some u \<Longrightarrow> tmp s' u = tmp s u"
  unfolding frame_def by blast+

lemma first_point_simps [simp]:
  "first_point (Producer k) = P_for" "first_point (Consumer k) = C_while"
  by (simp_all add: first_point_def)

section \<open>The producers\<close>

text \<open>The loop counter \<open>i\<close> of a producer at each program point.\<close>

definition turn_ok :: "nat \<Rightarrow> pc \<Rightarrow> nat \<Rightarrow> bool" where
  "turn_ok l p i \<longleftrightarrow> i \<le> l \<and> (p = Not_created \<longrightarrow> i = 0) \<and> (p = Done \<longrightarrow> i = l) \<and>
     (p \<notin> {Not_created, P_for, Done} \<longrightarrow> i < l)"

text \<open>How many values a thread has put in: those of the completed turns and the one after the store.\<close>

definition stored :: "pc \<Rightarrow> bool" where
  "stored p \<longleftrightarrow> p \<in> {F_advance, F_count, P_signal, P_unlock}"

definition made :: "pcsys \<Rightarrow> tid \<Rightarrow> nat" where
  "made s u = idx s u + of_bool (stored (pcs s u))"

definition own_items :: "nat \<Rightarrow> nat \<Rightarrow> int list \<Rightarrow> int list" where
  "own_items l k xs = filter (\<lambda>v. 0 \<le> v \<and> v div int l = int k) xs"

definition producers_ok :: "pcsys \<Rightarrow> bool" where
  "producers_ok s \<longleftrightarrow> 0 < loops s \<and>
     (\<forall>k. turn_ok (loops s) (pcs s (Producer k)) (idx s (Producer k)) \<and>
       own_items (loops s) k (produced s) =
         map (\<lambda>i. int k * int (loops s) + int i) [0..<made s (Producer k)])"

lemma frame_turn:
  "frame m s s' \<Longrightarrow> roles_ok s \<Longrightarrow> m \<noteq> Some (Producer k) \<Longrightarrow>
    turn_ok (loops s) (pcs s (Producer k)) (idx s (Producer k)) \<Longrightarrow>
    turn_ok (loops s') (pcs s' (Producer k)) (idx s' (Producer k))"
  using frame_keep [of m s s' "Producer k" "\<lambda>p. turn_ok (loops s) p (idx s (Producer k))"]
    frame_vars(1) [of m s s'] frame_vars(2) [of m s s' "Producer k"]
  by (auto simp: turn_ok_def)

lemma frame_made:
  "frame m s s' \<Longrightarrow> roles_ok s \<Longrightarrow> m \<noteq> Some u \<Longrightarrow> made s' u = made s u"
  using frame_keep [of m s s' u "\<lambda>p. stored p = stored (pcs s u)"] frame_vars(2) [of m s s' u]
  by (cases u) (simp_all add: made_def stored_def first_point_def)

lemma own_items_append [simp]: "own_items l k (xs @ ys) = own_items l k xs @ own_items l k ys"
  by (simp add: own_items_def)

lemma own_items_eos [simp]: "own_items l k [END_OF_STREAM] = []" "own_items l k [] = []"
  by (simp_all add: own_items_def END_OF_STREAM_def)

lemma own_items_value:
  "i < l \<Longrightarrow> own_items l k [int j * int l + int i] = (if j = k then [int j * int l + int i] else [])"
  by (simp add: own_items_def)

lemma producer_turn:
  assumes "(p, q) \<in> producer_edges" "turn_ok l p i" "j = i + of_bool (p = P_unlock)"
    "p = P_for \<longrightarrow> q = (if i < l then P_lock else Done)"
  shows "turn_ok l q j" "j + of_bool (stored q) = i + of_bool (stored p) + of_bool (p = F_store)"
  using assms by (auto simp: producer_edges_def turn_ok_def stored_def split: if_splits)

lemma producers_step:
  assumes "pc_invar s" "producers_ok s" "step_two_cvs_while a s = Some s'"
  shows "producers_ok s'"
proof -
  have R: "roles_ok s" using assms(1) by (simp add: pc_invar_def)
  have inv: "0 < loops s" "turn_ok (loops s) (pcs s (Producer k)) (idx s (Producer k))"
    "own_items (loops s) k (produced s) =
         map (\<lambda>i. int k * int (loops s) + int i) [0..<made s (Producer k)]" for k
    using assms(2) by (simp_all add: producers_ok_def)
  have keep: "producers_ok s'" if "frame m s s'" "\<And>k. m \<noteq> Some (Producer k)"
    "\<And>k. own_items (loops s) k (produced s') = own_items (loops s) k (produced s)" for m
    using that inv frame_turn [OF that(1) R that(2)] frame_made [OF that(1) R that(2)] frame_vars(1) [OF that(1)]
    by (simp add: producers_ok_def)
  show ?thesis
    using assms(1,3)
  proof (cases rule: step_cases)
    case spurious
    then show ?thesis by (intro keep) auto
  next
    case (consumer k)
    then show ?thesis by (intro keep) auto
  next
    case main
    then show ?thesis by (intro keep) auto
  next
    case (producer k)
    let ?l = "loops s"
    note t = producer_turn [OF producer(2) inv(2) producer(3,7)]
    have fs: "pcs s (Producer k) = F_store \<Longrightarrow> idx s (Producer k) < ?l \<and> made s (Producer k) = idx s (Producer k)"
      using inv(2) [of k] by (simp add: turn_ok_def made_def stored_def)
    have "own_items ?l j (produced s') = map (\<lambda>i. int j * int ?l + int i) [0..<made s' (Producer j)]" for j
    proof (cases "j = k")
      case True
      have "made s' (Producer k) = made s (Producer k) + of_bool (pcs s (Producer k) = F_store)"
        using t(2) by (simp add: made_def)
      then show ?thesis
        using True inv(3) [of k] producer(6) fs own_items_value [of "idx s (Producer k)" ?l k k]
        by (auto simp: value_of_def Let_def)
    next
      case False
      then have "made s' (Producer j) = made s (Producer j)" using frame_made [OF producer(1) R] by simp
      then show ?thesis
        using False inv(3) [of j] producer(6) fs own_items_value [of "idx s (Producer k)" ?l j k]
        by (auto simp: value_of_def Let_def)
    qed
    moreover have "turn_ok ?l (pcs s' (Producer j)) (idx s' (Producer j))" for j
      using t(1) frame_turn [OF producer(1) R, of j] inv(2) [of j] frame_vars(1) [OF producer(1)]
      by (cases "j = k") auto
    ultimately show ?thesis using inv(1) frame_vars(1) [OF producer(1)] by (simp add: producers_ok_def)
  qed
qed

section \<open>main\<close>

definition creating :: "pc \<Rightarrow> bool" where
  "creating p \<longleftrightarrow> p \<in> {M_create_p, M_create_c}"

definition before_eos :: "pc \<Rightarrow> bool" where
  "before_eos p \<longleftrightarrow> p \<in> {M_create_p, M_create_c, M_join_p}"

definition after_eos :: "pc \<Rightarrow> bool" where
  "after_eos p \<longleftrightarrow> p \<in> {M_join_c, Done}"

definition main_ok :: "pcsys \<Rightarrow> bool" where
  "main_ok s \<longleftrightarrow> (let p = pcs s Main; i = idx s Main in
     (\<forall>k < producers s. p \<noteq> M_create_p \<or> k < i \<longrightarrow> pcs s (Producer k) \<noteq> Not_created) \<and>
     (\<forall>j < consumers s. \<not> creating p \<or> p = M_create_c \<and> j < i \<longrightarrow> pcs s (Consumer j) \<noteq> Not_created) \<and>
     (\<forall>k < producers s. \<not> before_eos p \<or> p = M_join_p \<and> k < i \<longrightarrow> pcs s (Producer k) = Done) \<and>
     (\<forall>j < consumers s. p = Done \<or> p = M_join_c \<and> j < i \<longrightarrow> pcs s (Consumer j) = Done) \<and>
     (\<not> before_eos p \<and> \<not> after_eos p \<longrightarrow> i \<le> consumers s \<and> (p \<noteq> M_eos \<longrightarrow> i < consumers s)))"

definition eos_made :: "pcsys \<Rightarrow> nat" where
  "eos_made s = (if before_eos (pcs s Main) then 0 else if after_eos (pcs s Main) then consumers s
     else made s Main)"

definition eos_ok :: "pcsys \<Rightarrow> bool" where
  "eos_ok s \<longleftrightarrow> (\<exists>xs. produced s = xs @ replicate (eos_made s) END_OF_STREAM \<and> (\<forall>v \<in> set xs. 0 \<le> v))"

lemma phase_simps [simp]:
  "creating M_create_p" "creating M_create_c" "\<not> creating M_join_p" "\<not> creating M_eos"
  "before_eos M_create_p" "before_eos M_create_c" "before_eos M_join_p" "\<not> before_eos M_eos"
  "after_eos M_join_c" "after_eos Done" "\<not> after_eos M_eos" "\<not> before_eos Done" "\<not> before_eos M_join_c"
  "\<not> creating P_wake" "\<not> before_eos P_wake" "\<not> after_eos P_wake"
  "\<not> creating C_wake" "\<not> before_eos C_wake" "\<not> after_eos C_wake"
  "\<not> creating (P_sleep cv)" "\<not> before_eos (P_sleep cv)" "\<not> after_eos (P_sleep cv)"
  "\<not> creating (C_sleep cv)" "\<not> before_eos (C_sleep cv)" "\<not> after_eos (C_sleep cv)"
  by (simp_all add: creating_def before_eos_def after_eos_def)

text \<open>Once created, a thread stays created, and once it has returned, it has.\<close>

lemma frame_done:
  assumes "frame m s s'" "roles_ok s" "m \<noteq> Some u"
  shows "pcs s u \<noteq> Not_created \<Longrightarrow> pcs s' u \<noteq> Not_created" "pcs s u = Done \<Longrightarrow> pcs s' u = Done"
  using frame_keep [OF assms, of "\<lambda>p. p \<noteq> Not_created"] frame_keep [OF assms, of "\<lambda>p. p = Done"] by auto

lemma thread_done:
  "(p, q) \<in> producer_edges \<Longrightarrow> p \<noteq> Done \<and> p \<noteq> Not_created \<and> q \<noteq> Not_created"
  "(p, q) \<in> consumer_edges \<Longrightarrow> p \<noteq> Done \<and> p \<noteq> Not_created \<and> q \<noteq> Not_created"
  by (auto simp: producer_edges_def consumer_edges_def)

lemma frame_main:
  assumes "frame m s s'" "m \<noteq> Some Main"
  obtains "pcs s' Main = pcs s Main" "idx s' Main = idx s Main"
    | cv where "pcs s Main = P_sleep cv" "pcs s' Main = P_wake" "idx s' Main = idx s Main"
    | cv where "pcs s Main = C_sleep cv" "pcs s' Main = C_wake" "idx s' Main = idx s Main"
proof -
  have "pcs s' Main = pcs s Main \<or> pcs s' Main = wake_point (pcs s Main)" "idx s' Main = idx s Main"
    using assms by (auto simp: frame_def created_def)
  then show ?thesis using that by (cases rule: wake_point_cases [of "pcs s Main"]) auto
qed

lemma main_same:
  assumes "main_ok s" "roles_ok s" "frame m s s'" "m \<noteq> Some Main"
    "\<And>u. m = Some u \<Longrightarrow> pcs s u \<noteq> Done \<and> pcs s u \<noteq> Not_created \<and> pcs s' u \<noteq> Not_created"
  shows "main_ok s'"
proof -
  have same: "producers s' = producers s" "consumers s' = consumers s"
    using frame_vars [OF assms(3)] by auto
  have c: "pcs s u \<noteq> Not_created \<Longrightarrow> pcs s' u \<noteq> Not_created" "pcs s u = Done \<Longrightarrow> pcs s' u = Done" for u
    using frame_done [OF assms(3,2), of u] assms(5) [of u] by auto
  show ?thesis
    using assms(3,4)
  proof (cases rule: frame_main)
    case 1
    then show ?thesis using assms(1) c unfolding main_ok_def Let_def same by auto
  next
    case (2 cv)
    then show ?thesis using assms(1) c unfolding main_ok_def Let_def same by auto
  next
    case (3 cv)
    then show ?thesis using assms(1) c unfolding main_ok_def Let_def same by auto
  qed
qed

lemma main_step_ok:
  assumes "main_ok s" "roles_ok s" "frame (Some Main) s s'" "main_next s (pcs s' Main) (idx s' Main)"
    "\<forall>u. created s u \<longrightarrow> pcs s' u = first_point u"
  shows "main_ok s'"
proof -
  have same: "producers s' = producers s" "consumers s' = consumers s"
    using frame_vars [OF assms(3)] by auto
  have c: "pcs s u \<noteq> Not_created \<Longrightarrow> pcs s' u \<noteq> Not_created" "pcs s u = Done \<Longrightarrow> pcs s' u = Done" if "u \<noteq> Main" for u
    using frame_done [OF assms(3,2), of u] that by auto
  note defs = main_ok_def Let_def creating_def before_eos_def after_eos_def main_next_def same
  have cr: "pcs s Main = M_create_p \<Longrightarrow> idx s Main < producers s \<Longrightarrow> pcs s' (Producer (idx s Main)) = P_for"
    "pcs s Main = M_create_c \<Longrightarrow> idx s Main < consumers s \<Longrightarrow> pcs s' (Consumer (idx s Main)) = C_while"
    using assms(5) by (simp_all add: created_def)
  have M: "pcs s Main \<in> main_pcs" using assms(2) by (simp add: roles_ok_def)
  consider "pcs s Main = M_create_p" | "pcs s Main = M_create_c" | "pcs s Main = M_join_p" | "pcs s Main = M_join_c"
    | "pcs s Main = M_eos" | "pcs s Main = P_unlock"
    | "pcs s Main \<in> {Done, P_lock, P_test, P_wait, P_sleep Empty_cv, P_wake, F_check, F_store, F_advance,
        F_count, P_signal}"
    using M unfolding main_pcs_def by blast
  then show ?thesis
  proof cases
    case 1
    then show ?thesis using assms(1,4) c cr(1) unfolding defs
      by (auto simp: less_Suc_eq split: if_splits)
  next
    case 2
    then show ?thesis using assms(1,4) c cr(2) unfolding defs
      by (auto simp: less_Suc_eq split: if_splits)
  next
    case 3
    then show ?thesis using assms(1,4) c unfolding defs
      by (auto simp: less_Suc_eq split: if_splits)
  next
    case 4
    then show ?thesis using assms(1,4) c unfolding defs
      by (auto simp: less_Suc_eq split: if_splits)
  next
    case 5
    then show ?thesis using assms(1,4) c unfolding defs
      by (auto split: if_splits)
  next
    case 6
    then show ?thesis using assms(1,4) c unfolding defs
      by (auto split: if_splits)
  next
    case 7
    then have "idx s' Main = idx s Main \<and> (\<not> before_eos (pcs s Main) \<and> \<not> after_eos (pcs s Main) \<and>
       pcs s Main \<noteq> M_eos \<and> \<not> before_eos (pcs s' Main) \<and> \<not> after_eos (pcs s' Main) \<and> pcs s' Main \<noteq> M_eos)"
      using assms(4)
      by (elim insertE emptyE) (auto simp: main_next_def main_edges_def before_eos_def after_eos_def)
    then show ?thesis using assms(1) c 
      unfolding main_ok_def Let_def same by (auto simp: before_eos_def after_eos_def creating_def)
  qed
qed

lemma stored_simps [simp]:
  "\<not> stored P_lock" "\<not> stored P_test" "\<not> stored P_wait" "\<not> stored (P_sleep cv)" "\<not> stored P_wake"
  "\<not> stored F_check" "\<not> stored F_store" "stored F_advance" "stored F_count" "stored P_signal" "stored P_unlock"
  "\<not> stored M_eos" "\<not> stored C_wake" "\<not> stored (C_sleep cv)"
  by (simp_all add: stored_def)

lemma eos_made_same:
  assumes "frame m s s'" "m \<noteq> Some Main"
  shows "eos_made s' = eos_made s"
  using assms frame_vars(1) [OF assms(1)]
  by (cases rule: frame_main) (auto simp: eos_made_def made_def)

lemma eos_made_main:
  assumes "main_ok s" "roles_ok s" "main_next s (pcs s' Main) (idx s' Main)" "consumers s' = consumers s"
  shows "eos_made s' = eos_made s + of_bool (pcs s Main = F_store)"
proof -
  have M: "pcs s Main \<in> main_pcs" using assms(2) by (simp add: roles_ok_def)
  have i: "pcs s Main = M_eos \<Longrightarrow> idx s Main \<le> consumers s" using assms(1) by (simp add: main_ok_def Let_def)
  from M show ?thesis
    unfolding main_pcs_def using assms(3,4) i
    by (elim insertE emptyE)
      (auto simp: main_next_def main_edges_def eos_made_def made_def before_eos_def after_eos_def split: if_splits)
qed

lemma eos_step:
  assumes "pc_invar s" "main_ok s" "eos_ok s" "step_two_cvs_while a s = Some s'"
  shows "eos_ok s'"
proof -
  have R: "roles_ok s" using assms(1) by (simp add: pc_invar_def)
  obtain xs where xs: "produced s = xs @ replicate (eos_made s) END_OF_STREAM" "\<forall>v \<in> set xs. 0 \<le> v"
    using assms(3) by (auto simp: eos_ok_def)
  show ?thesis
    using assms(1,4)
  proof (cases rule: step_cases)
    case spurious
    then show ?thesis using assms(3) eos_made_same [OF spurious(1)] by (simp add: eos_ok_def)
  next
    case (consumer k)
    then show ?thesis using assms(3) eos_made_same [OF consumer(1)] by (simp add: eos_ok_def)
  next
    case main
    then have "eos_made s' = eos_made s + of_bool (pcs s Main = F_store)"
      using eos_made_main [OF assms(2) R main(2)] frame_vars(1) [OF main(1)] by simp
    then have "produced s' = xs @ replicate (eos_made s') END_OF_STREAM"
      using main(6) xs(1) by (simp add: replicate_append_same)
    then show ?thesis using xs(2) by (auto simp: eos_ok_def)
  next
    case (producer k)
    have "eos_made s = 0"
    proof -
      have "pcs s (Producer k) \<noteq> Done" "pcs s (Producer k) \<noteq> Not_created"
        using thread_done(1) [OF producer(2)] by auto
      then have "k < producers s" using R by (metis roles_ok_def linorder_not_less)
      then have "before_eos (pcs s Main)"
        using assms(2) \<open>pcs s (Producer k) \<noteq> Done\<close> by (auto simp: main_ok_def Let_def)
      then show ?thesis by (simp add: eos_made_def)
    qed
    then show ?thesis
      using producer(6) xs eos_made_same [OF producer(1)] by (auto simp: eos_ok_def)
  qed
qed

section \<open>The consumers\<close>

text \<open>\<open>hungry\<close>: the last value was not the end; \<open>pending\<close>: the value in \<open>tmp\<close> is still in the buffer.\<close>

definition hungry :: "pc \<Rightarrow> bool" where
  "hungry p \<longleftrightarrow> p \<in> {C_lock, C_test, C_wait, C_wake, G_load} \<union> range C_sleep"

definition pending :: "pc \<Rightarrow> bool" where
  "pending p \<longleftrightarrow> p \<in> {G_check, G_clear}"

definition sated :: "pcsys \<Rightarrow> nat \<Rightarrow> bool" where
  "sated s j \<longleftrightarrow> tmp s (Consumer j) = END_OF_STREAM \<and> \<not> pending (pcs s (Consumer j))"

definition tmp_ok :: "pc \<Rightarrow> int \<Rightarrow> bool" where
  "tmp_ok p x \<longleftrightarrow> (hungry p \<longrightarrow> x \<noteq> END_OF_STREAM) \<and> (p = Done \<longrightarrow> x = END_OF_STREAM) \<and>
     (p = Not_created \<longrightarrow> x = 0)"

definition consumers_ok :: "pcsys \<Rightarrow> bool" where
  "consumers_ok s \<longleftrightarrow> (\<forall>j. tmp_ok (pcs s (Consumer j)) (tmp s (Consumer j))) \<and>
     count_list (consumed s) END_OF_STREAM = count_at {..<consumers s} (\<lambda>b. b) (sated s)"

lemma hungry_simps [simp]:
  "hungry C_lock" "hungry C_test" "hungry C_wait" "hungry C_wake" "hungry G_load" "hungry (C_sleep cv)"
  "\<not> hungry C_while" "\<not> hungry Done" "\<not> hungry Not_created" "\<not> hungry G_check" "\<not> hungry G_clear"
  "\<not> hungry G_advance" "\<not> hungry G_count" "\<not> hungry C_signal" "\<not> hungry C_unlock" "\<not> hungry P_wake"
  "\<not> hungry (P_sleep cv)"
  by (auto simp: hungry_def)

lemma frame_consumer:
  assumes "frame m s s'" "roles_ok s" "m \<noteq> Some (Consumer j)"
  shows "sated s' j = sated s j"
    "tmp_ok (pcs s (Consumer j)) (tmp s (Consumer j)) \<Longrightarrow> tmp_ok (pcs s' (Consumer j)) (tmp s' (Consumer j))"
proof -
  have t: "tmp s' (Consumer j) = tmp s (Consumer j)" using frame_vars(3) [OF assms(1,3)] .
  have "pending (pcs s' (Consumer j)) = pending (pcs s (Consumer j))"
    using frame_keep [OF assms, of "\<lambda>p. pending p = pending (pcs s (Consumer j))"]
    by (simp add: pending_def)
  then show "sated s' j = sated s j" using t by (simp add: sated_def)
  show "tmp_ok (pcs s (Consumer j)) (tmp s (Consumer j)) \<Longrightarrow>
      tmp_ok (pcs s' (Consumer j)) (tmp s' (Consumer j))"
    unfolding t using frame_keep [OF assms, of "\<lambda>p. tmp_ok p (tmp s (Consumer j))"]
    by (auto simp: tmp_ok_def)
qed

lemma consumers_step:
  assumes "pc_invar s" "consumers_ok s" "step_two_cvs_while a s = Some s'"
  shows "consumers_ok s'"
proof -
  have R: "roles_ok s" using assms(1) by (simp add: pc_invar_def)
  have inv: "tmp_ok (pcs s (Consumer j)) (tmp s (Consumer j))"
    "count_list (consumed s) END_OF_STREAM = count_at {..<consumers s} (\<lambda>b. b) (sated s)" for j
    using assms(2) by (simp_all add: consumers_ok_def)
  have keep: "consumers_ok s'" if "frame m s s'" "\<And>k. m \<noteq> Some (Consumer k)" "consumed s' = consumed s" for m
  proof -
    have "sated s' = sated s" using frame_consumer(1) [OF that(1) R that(2)] by blast
    then show ?thesis
      using inv that(3) frame_consumer(2) [OF that(1) R that(2)] frame_vars(1) [OF that(1)]
      by (simp add: consumers_ok_def)
  qed
  show ?thesis
    using assms(1,3)
  proof (cases rule: step_cases)
    case spurious
    then show ?thesis by (intro keep) auto
  next
    case (producer k)
    then show ?thesis by (intro keep) auto
  next
    case main
    then show ?thesis by (intro keep) auto
  next
    case (consumer k)
    let ?p = "pcs s (Consumer k)" and ?q = "pcs s' (Consumer k)"
    have "k < consumers s"
      using thread_done(2) [OF consumer(2)] R by (metis roles_ok_def linorder_not_less)
    have upd: "sated s' = (sated s)(k := sated s' k)"
      using frame_consumer(1) [OF consumer(1) R] by (intro ext) auto
    have *: "tmp_ok ?q (tmp s' (Consumer k)) \<and>
        (sated s' k \<longleftrightarrow> sated s k \<or> ?p = G_clear \<and> tmp s (Consumer k) = END_OF_STREAM) \<and>
        (?p = G_clear \<longrightarrow> \<not> sated s k)"
      using consumer(2,6,7) inv(1) [of k]
      unfolding consumer_edges_def
      by (elim insertE emptyE) (auto simp: tmp_ok_def pending_def sated_def split: if_splits)
    have "int (count_at {..<consumers s} (\<lambda>b. b) (sated s')) = int (count_at {..<consumers s} (\<lambda>b. b) (sated s))
        + of_bool (sated s' k) - of_bool (sated s k)"
      by (subst upd, rule count_at_upd) (use \<open>k < consumers s\<close> in auto)
    then have "count_list (consumed s') END_OF_STREAM = count_at {..<consumers s} (\<lambda>b. b) (sated s')"
      using * inv(2) consumer(5) by (auto split: if_splits)
    moreover have "tmp_ok (pcs s' (Consumer j)) (tmp s' (Consumer j))" for j
      using * frame_consumer(2) [OF consumer(1) R, of j] inv(1) [of j] by (cases "j = k") auto
    ultimately show ?thesis using frame_vars(1) [OF consumer(1)] by (simp add: consumers_ok_def)
  qed
qed

section \<open>The invariant of the whole program\<close>

definition pc_progress :: "pcsys \<Rightarrow> bool" where
  "pc_progress s \<longleftrightarrow> pc_invar s \<and> 0 < consumers s \<and> producers_ok s \<and> main_ok s \<and> eos_ok s \<and> consumers_ok s"

lemma step_consumers:
  assumes "pc_invar s" "step_two_cvs_while a s = Some s'"
  shows "consumers s' = consumers s"
  using assms by (cases rule: step_cases) (auto dest: frame_vars(1))

lemma main_step_all:
  assumes "pc_invar s" "main_ok s" "step_two_cvs_while a s = Some s'"
  shows "main_ok s'"
proof -
  have R: "roles_ok s" using assms(1) by (simp add: pc_invar_def)
  show ?thesis
    using assms(1,3)
  proof (cases rule: step_cases)
    case spurious
    then show ?thesis by (intro main_same [OF assms(2) R spurious(1)]) auto
  next
    case (producer k)
    then show ?thesis using thread_done(1) [OF producer(2)] by (intro main_same [OF assms(2) R producer(1)]) auto
  next
    case (consumer k)
    then show ?thesis using thread_done(2) [OF consumer(2)] by (intro main_same [OF assms(2) R consumer(1)]) auto
  next
    case main
    then show ?thesis by (intro main_step_ok [OF assms(2) R main(1)]) auto
  qed
qed

lemma pc_progress_start: "pc_start s \<Longrightarrow> pc_progress s"
proof -
  assume st: "pc_start s"
  then obtain l m p c where s: "s = pc_init l m p c" "0 < l" "0 < c"
    by (metis pc_start_def pc_init_def pcsys.select_convs(1,3))
  have "made s (Producer k) = 0" "sated s j \<longleftrightarrow> False" "eos_made s = 0" for k j
    using s(1) by (simp_all add: made_def pc_init_def stored_def sated_def END_OF_STREAM_def eos_made_def)
  then have "producers_ok s" "main_ok s" "eos_ok s" "consumers_ok s"
    using s
    by (auto simp: producers_ok_def main_ok_def eos_ok_def consumers_ok_def pc_init_def turn_ok_def
      own_items_def tmp_ok_def hungry_def count_at_zero Let_def)
  then show ?thesis using pc_invar_start [OF st] s by (simp add: pc_progress_def pc_init_def)
qed

lemma pc_progress_step:
  "pc_progress s \<Longrightarrow> step_two_cvs_while a s = Some s' \<Longrightarrow> pc_progress s'"
  unfolding pc_progress_def
  using pc_invar_step producers_step main_step_all eos_step consumers_step step_consumers by metis

section \<open>Deadlock freedom\<close>

definition enabled :: "tid \<Rightarrow> pcsys \<Rightarrow> bool" where
  "enabled t s \<longleftrightarrow> (\<exists>who s'. step_two_cvs_while (Step t who) s = Some s')"

lemma signal_total: "\<exists>who s'. cond_signal cv t q who s = Some s'"
proof (cases "sleepers cv s")
  case Nil
  then have "cond_signal cv t q None s = Some (goto t q s)" by (simp add: cond_signal_def)
  then show ?thesis by blast
next
  case (Cons w ws)
  then have "cond_signal cv t q (Some w) s = Some (goto t q (wake w s))" by (simp add: cond_signal_def)
  then show ?thesis by blast
qed

lemma access_total:
  "pcs s t \<in> {F_check, F_store, F_advance, F_count} \<Longrightarrow> \<exists>s'. fill_step t v q s = Some s'"
  "pcs s t \<in> {G_load, G_check, G_clear, G_advance, G_count} \<Longrightarrow> \<exists>s'. get_step t q s = Some s'"
  by (elim insertE emptyE; simp add: fill_step_def get_step_def exec_def split: sum.split)+

lemma enabled_thread:
  assumes "stopped s = None"
  shows "(\<exists>who s'. producer_while k who s = Some s') \<Longrightarrow> enabled (Producer k) s"
    "(\<exists>who s'. consumer_while k who s = Some s') \<Longrightarrow> enabled (Consumer k) s"
    "(\<exists>who s'. main_step Fill_cv Empty_cv who s = Some s') \<Longrightarrow> enabled Main s"
  using assms by (auto simp: enabled_def step_two_cvs_while_def system_step_def)

text \<open>A producer, a consumer and \<open>main\<close> that cannot take a step.\<close>

lemma producer_blocked:
  assumes "stopped s = None" "pcs s (Producer k) \<in> producer_pcs" "\<not> enabled (Producer k) s"
  shows "pcs s (Producer k) \<in> {Not_created, Done, P_sleep Empty_cv} \<or>
    mutex s \<noteq> None \<and> \<not> crit (pcs s (Producer k))"
proof (rule ccontr)
  assume n: "\<not> ?thesis"
  have "\<exists>who s'. producer_while k who s = Some s'"
  proof (cases "pcs s (Producer k) = P_signal")
    case True
    then show ?thesis using signal_total by (simp add: producer_while_def Let_def)
  next
    case False
    with n assms(2) show ?thesis
      using access_total(1) [of s "Producer k" "value_of k s" P_signal]
      unfolding producer_pcs_def
      by (elim insertE emptyE) (auto simp: producer_while_def Let_def lock_defs)
  qed
  then show False using enabled_thread(1) [OF assms(1)] assms(3) by blast
qed

lemma consumer_blocked:
  assumes "stopped s = None" "pcs s (Consumer k) \<in> consumer_pcs" "\<not> enabled (Consumer k) s"
  shows "pcs s (Consumer k) \<in> {Not_created, Done, C_sleep Fill_cv} \<or>
    mutex s \<noteq> None \<and> \<not> crit (pcs s (Consumer k))"
proof (rule ccontr)
  assume n: "\<not> ?thesis"
  have "\<exists>who s'. consumer_while k who s = Some s'"
  proof (cases "pcs s (Consumer k) = C_signal")
    case True
    then show ?thesis using signal_total by (simp add: consumer_while_def Let_def)
  next
    case False
    with n assms(2) show ?thesis
      using access_total(2) [of s "Consumer k" C_signal]
      unfolding consumer_pcs_def
      by (elim insertE emptyE) (auto simp: consumer_while_def Let_def lock_defs)
  qed
  then show False using enabled_thread(2) [OF assms(1)] assms(3) by blast
qed

lemma main_blocked:
  assumes "stopped s = None" "pcs s Main \<in> main_pcs" "\<not> enabled Main s"
  shows "pcs s Main \<in> {Done, P_sleep Empty_cv} \<or>
    pcs s Main = M_join_p \<and> idx s Main < producers s \<and> pcs s (Producer (idx s Main)) \<noteq> Done \<or>
    pcs s Main = M_join_c \<and> idx s Main < consumers s \<and> pcs s (Consumer (idx s Main)) \<noteq> Done \<or>
    mutex s \<noteq> None \<and> \<not> crit (pcs s Main)"
proof (rule ccontr)
  assume n: "\<not> ?thesis"
  have "\<exists>who s'. main_step Fill_cv Empty_cv who s = Some s'"
  proof (cases "pcs s Main = P_signal")
    case True
    then show ?thesis using signal_total by (simp add: main_step_def Let_def)
  next
    case False
    with n assms(2) show ?thesis
      using access_total(1) [of s Main END_OF_STREAM P_signal]
      unfolding main_pcs_def
      by (elim insertE emptyE) (auto simp: main_step_def Let_def lock_defs split: if_splits)
  qed
  then show False using enabled_thread(3) [OF assms(1)] assms(3) by blast
qed

text \<open>The holder of the mutex can always move, so nobody holds it when nobody can move.\<close>

lemma all_blocked:
  assumes "pc_progress s" "pcs s Main \<noteq> Done" "\<And>t. \<not> enabled t s"
  shows "mutex s = None"
    "pcs s (Producer k) \<in> {Not_created, Done, P_sleep Empty_cv}"
    "pcs s (Consumer k) \<in> {Not_created, Done, C_sleep Fill_cv}"
    "pcs s Main = P_sleep Empty_cv \<or>
     pcs s Main = M_join_p \<and> idx s Main < producers s \<and> pcs s (Producer (idx s Main)) \<noteq> Done \<or>
     pcs s Main = M_join_c \<and> idx s Main < consumers s \<and> pcs s (Consumer (idx s Main)) \<noteq> Done"
proof -
  have I: "roles_ok s" "mutex_ok s" "stopped s = None"
    using assms(1) by (simp_all add: pc_progress_def pc_invar_def buffer_ok_def)
  have R: "pcs s Main \<in> main_pcs" "pcs s (Producer i) \<in> producer_pcs" "pcs s (Consumer i) \<in> consumer_pcs" for i
    using I(1) by (simp_all add: roles_ok_def)
  note blocked = main_blocked [OF I(3) R(1) assms(3)] producer_blocked [OF I(3) R(2) assms(3)]
    consumer_blocked [OF I(3) R(3) assms(3)]
  show m: "mutex s = None"
  proof (rule ccontr)
    assume "mutex s \<noteq> None"
    then obtain t where "crit (pcs s t)" using I(2) by (auto simp: mutex_ok_def)
    then have "case t of Main \<Rightarrow> crit (pcs s Main) | Producer k \<Rightarrow> crit (pcs s (Producer k))
        | Consumer k \<Rightarrow> crit (pcs s (Consumer k))" by (cases t) simp_all
    then show False
      using blocked(1) blocked(2) [of "case t of Producer k \<Rightarrow> k | _ \<Rightarrow> 0"]
        blocked(3) [of "case t of Consumer k \<Rightarrow> k | _ \<Rightarrow> 0"] assms(2)
      by (cases t) auto
  qed
  show "pcs s (Producer k) \<in> {Not_created, Done, P_sleep Empty_cv}"
    "pcs s (Consumer k) \<in> {Not_created, Done, C_sleep Fill_cv}"
    "pcs s Main = P_sleep Empty_cv \<or>
     pcs s Main = M_join_p \<and> idx s Main < producers s \<and> pcs s (Producer (idx s Main)) \<noteq> Done \<or>
     pcs s Main = M_join_c \<and> idx s Main < consumers s \<and> pcs s (Consumer (idx s Main)) \<noteq> Done"
    using blocked(2,3) [of k] blocked(1) m assms(2) by auto
qed

lemma count_list_replicate [simp]: "count_list (replicate n x) y = (if x = y then n else 0)"
  by (induction n) auto

lemma eos_count:
  assumes "eos_ok s"
  shows "count_list (produced s) END_OF_STREAM = eos_made s"
proof -
  obtain xs where "produced s = xs @ replicate (eos_made s) END_OF_STREAM" "\<forall>v \<in> set xs. 0 \<le> v"
    using assms by (auto simp: eos_ok_def)
  moreover then have "END_OF_STREAM \<notin> set xs" by (auto simp: END_OF_STREAM_def)
  ultimately show ?thesis by (simp add: count_list_0_iff)
qed

lemma sated_count:
  "consumers_ok s \<Longrightarrow> (\<And>j. j < consumers s \<Longrightarrow> pcs s (Consumer j) = Done) \<Longrightarrow>
    count_list (consumed s) END_OF_STREAM = consumers s"
proof -
  assume c: "consumers_ok s" and d: "\<And>j. j < consumers s \<Longrightarrow> pcs s (Consumer j) = Done"
  have "{j \<in> {..<consumers s}. sated s j} = {..<consumers s}"
    using c d by (auto simp: sated_def pending_def consumers_ok_def tmp_ok_def)
  then show ?thesis using c by (simp add: consumers_ok_def count_at_def)
qed

lemma no_deadlock:
  assumes "pc_progress s" "pcs s Main \<noteq> Done"
  shows "\<exists>t. enabled t s"
proof (rule ccontr)
  assume "\<not> ?thesis"
  then have ne: "\<And>t. \<not> enabled t s" by blast
  note b = all_blocked [OF assms ne]
  have I: "mutex_ok s" "buffer_ok s" "wakeups_ok s" "main_ok s" "eos_ok s" "consumers_ok s" "roles_ok s"
    "0 < consumers s"
    using assms(1) by (simp_all add: pc_progress_def pc_invar_def)
  have a: "ring_ok s" "consumed s @ ring_items s = produced s"
    using I(2) b(1) by (simp_all add: buffer_ok_def agrees_def)
  then have sl: "0 < slots s" "0 \<le> num_full s" by (simp_all add: ring_ok_def)
  have "\<not> takers (pcs s t) \<and> \<not> putters (pcs s t)" for t
  proof (cases t)
    case Main
    then show ?thesis using b(4) by (auto simp: takers_def putters_def)
  next
    case (Producer k)
    then show ?thesis using b(2) [of k] by (auto simp: takers_def putters_def)
  next
    case (Consumer k)
    then show ?thesis using b(3) [of k] by (auto simp: takers_def putters_def)
  qed
  then have z: "count_at (set (threads s)) takers (pcs s) = 0" "count_at (set (threads s)) putters (pcs s) = 0"
    by (auto intro: count_at_zero)
  have T: "Main \<in> set (threads s)" "k < producers s \<Longrightarrow> Producer k \<in> set (threads s)"
    "k < consumers s \<Longrightarrow> Consumer k \<in> set (threads s)" for k
    by (auto simp: threads_def)
  have full: "slots s \<le> num_full s" if "u \<in> set (threads s)" "pcs s u = P_sleep Empty_cv" for u
  proof -
    have "slots s - num_full s \<le> int 0" using I(3) that z(2) unfolding wakeups_ok_def by metis
    then show ?thesis by simp
  qed
  have none: "num_full s = 0" if "u \<in> set (threads s)" "pcs s u = C_sleep Fill_cv" for u
  proof -
    have "num_full s \<le> int 0" using I(3) that z(1) unfolding wakeups_ok_def by metis
    then show ?thesis using sl(2) by simp
  qed
  have made: "\<not> creating (pcs s Main)" using b(4) by (auto simp: creating_def)
  have c1: "\<not> (slots s \<le> num_full s \<and> eos_made s < consumers s)"
  proof
    assume f: "slots s \<le> num_full s \<and> eos_made s < consumers s"
    have "pcs s (Consumer j) = Done" if "j < consumers s" for j
    proof -
      have "pcs s (Consumer j) \<noteq> Not_created" using I(4) made that by (auto simp: main_ok_def Let_def)
      moreover have "pcs s (Consumer j) \<noteq> C_sleep Fill_cv" using none [OF T(3) [OF that]] f sl by auto
      ultimately show ?thesis using b(3) [of j] by auto
    qed
    then have "count_list (consumed s) END_OF_STREAM = consumers s" by (rule sated_count [OF I(6)])
    moreover have "count_list (consumed s) END_OF_STREAM \<le> count_list (produced s) END_OF_STREAM"
      unfolding a(2) [symmetric] by simp
    ultimately show False using f eos_count [OF I(5)] by simp
  qed
  consider "pcs s Main = P_sleep Empty_cv"
    | "pcs s Main = M_join_p" "idx s Main < producers s" "pcs s (Producer (idx s Main)) \<noteq> Done"
    | "pcs s Main = M_join_c" "idx s Main < consumers s" "pcs s (Consumer (idx s Main)) \<noteq> Done"
    using b(4) by blast
  then show False
  proof cases
    case 1
    then have "eos_made s < consumers s" using I(4) by (simp add: main_ok_def Let_def eos_made_def made_def)
    then show False using c1 full [OF T(1)] 1 by simp
  next
    case 2
    then have "eos_made s < consumers s" using I(8) by (simp add: eos_made_def)
    moreover have "pcs s (Producer (idx s Main)) \<noteq> Not_created"
      using I(4) 2 by (simp add: main_ok_def Let_def)
    then have "pcs s (Producer (idx s Main)) = P_sleep Empty_cv" using b(2) [of "idx s Main"] 2(3) by auto
    ultimately show False using c1 full [OF T(2) [OF 2(2)]] by simp
  next
    case 3
    let ?i = "idx s Main"
    have "pcs s (Consumer ?i) \<noteq> Not_created" using I(4) made 3 by (simp add: main_ok_def Let_def)
    then have sleep: "pcs s (Consumer ?i) = C_sleep Fill_cv" using b(3) [of ?i] 3(3) by auto
    then have "num_full s = 0" using none [OF T(3) [OF 3(2)]] by simp
    then have "consumed s = produced s" using a(2) by (simp add: ring_items_def)
    then have "count_list (consumed s) END_OF_STREAM = consumers s"
      using eos_count [OF I(5)] 3(1) by (simp add: eos_made_def)
    moreover have "\<not> sated s ?i"
      using I(6) sleep by (auto simp: consumers_ok_def tmp_ok_def sated_def)
    then have "count_at {..<consumers s} (\<lambda>b. b) (sated s) < card {..<consumers s}"
      using 3(2) by (intro count_at_less) auto
    ultimately show False using I(6) by (simp add: consumers_ok_def)
  qed
qed

interpretation pc_live: live_program step_two_cvs_while pc_start pc_progress own_step pc_finished
proof unfold_locales
  fix s assume "pc_progress s" "\<not> pc_finished s"
  then obtain t where "enabled t s" using no_deadlock [of s] by (auto simp: pc_finished_def)
  then obtain who s' where "step_two_cvs_while (Step t who) s = Some s'" by (auto simp: enabled_def)
  then have "own_step (Step t who) \<and> step_two_cvs_while (Step t who) s = Some s'"
    by (simp add: own_step_def)
  then show "\<exists>a s'. own_step a \<and> step_two_cvs_while a s = Some s'" by blast
qed (auto intro: pc_progress_start pc_progress_step)

section \<open>The result\<close>

lemma count_list_filter: "P v \<Longrightarrow> count_list (filter P xs) v = count_list xs v"
  by (induction xs) auto

lemma count_list_distinct: "distinct xs \<Longrightarrow> count_list xs x = of_bool (x \<in> set xs)"
  by (induction xs) auto

lemma count_own:
  assumes "0 < l" "0 \<le> v"
  shows "count_list (map (\<lambda>i. int k * int l + int i) [0..<l]) v = of_bool (v div int l = int k)"
proof -
  have "v \<in> (\<lambda>i. int k * int l + int i) ` {0..<l} \<longleftrightarrow> v div int l = int k"
  proof
    assume "v div int l = int k"
    then have "v = int k * int l + int (nat (v mod int l))" "nat (v mod int l) < l"
      using assms by (auto simp: nat_less_iff) (metis div_mult_mod_eq)
    then show "v \<in> (\<lambda>i. int k * int l + int i) ` {0..<l}"
      by (intro image_eqI [of _ _ "nat (v mod int l)"]) (simp_all only: atLeastLessThan_iff le0)
  qed auto
  moreover have "distinct (map (\<lambda>i. int k * int l + int i) [0..<l])"
    by (simp add: distinct_map inj_on_def)
  ultimately show ?thesis by (simp add: count_list_distinct)
qed

lemma finished_state:
  assumes "pc_progress s" "pc_finished s"
  shows "mutex s = None" "ring_items s = []" "consumed s = produced s"
    "k < producers s \<Longrightarrow> idx s (Producer k) = loops s \<and> pcs s (Producer k) = Done"
    "count_list (produced s) END_OF_STREAM = consumers s"
proof -
  have I: "mutex_ok s" "buffer_ok s" "main_ok s" "eos_ok s" "consumers_ok s" "roles_ok s" "producers_ok s"
    "0 < consumers s" "pcs s Main = Done"
    using assms by (simp_all add: pc_progress_def pc_invar_def pc_finished_def)
  have d: "k < producers s \<Longrightarrow> pcs s (Producer k) = Done" "k < consumers s \<Longrightarrow> pcs s (Consumer k) = Done" for k
    using I(3,9) by (simp_all add: main_ok_def Let_def)
  have n: "pcs s (Producer k) = Done \<or> pcs s (Producer k) = Not_created"
    "pcs s (Consumer k) = Done \<or> pcs s (Consumer k) = Not_created" for k
    using d [of k] I(6) by (metis roles_ok_def linorder_not_less)+
  have "\<not> crit (pcs s t)" for t
    using n [of "case t of Producer k \<Rightarrow> k | Consumer k \<Rightarrow> k | _ \<Rightarrow> 0"] I(9) by (cases t) auto
  then show m: "mutex s = None" using I(1) unfolding mutex_ok_def by (metis not_None_eq)
  have a: "consumed s @ ring_items s = produced s" using I(2) m by (simp add: buffer_ok_def agrees_def)
  have e: "eos_made s = consumers s" using I(9) by (simp add: eos_made_def)
  then show c: "count_list (produced s) END_OF_STREAM = consumers s" using eos_count [OF I(4)] by simp
  show "ring_items s = []"
  proof (rule ccontr)
    assume ne: "ring_items s \<noteq> []"
    obtain xs where "produced s = xs @ replicate (consumers s) END_OF_STREAM" using I(4) e by (auto simp: eos_ok_def)
    then have "last (ring_items s) = END_OF_STREAM"
      using a ne I(8) by (metis last_appendR last_replicate less_not_refl replicate_empty)
    then have "END_OF_STREAM \<in> set (ring_items s)" using ne last_in_set by metis
    then have "0 < count_list (ring_items s) END_OF_STREAM" by (metis count_list_0_iff gr0I)
    moreover have "count_list (consumed s) END_OF_STREAM = consumers s" using sated_count [OF I(5) d(2)] by simp
    ultimately show False using c unfolding a [symmetric] by simp
  qed
  then show "consumed s = produced s" using a by simp
  show "k < producers s \<Longrightarrow> idx s (Producer k) = loops s \<and> pcs s (Producer k) = Done"
    using I(7) d(1) [of k] unfolding producers_ok_def turn_ok_def by metis
qed


lemma div_less_iff:
  fixes l :: int
  assumes "0 < l"
  shows "v div l < p \<longleftrightarrow> v < p * l"
proof -
  have e: "v div l * l \<le> v" "v < (v div l + 1) * l"
    using assms pos_mod_bound [OF assms, of v] by (simp_all add: algebra_simps minus_mod_eq_mult_div [symmetric])
  show ?thesis
  proof
    assume "v div l < p"
    then have "(v div l + 1) * l \<le> p * l" using assms by (intro mult_right_mono) auto
    then show "v < p * l" using e(2) by linarith
  next
    assume "v < p * l"
    then have "\<not> p * l \<le> v div l * l" using e(1) by linarith
    then show "v div l < p" using assms by simp
  qed
qed

lemma finished_count:
  assumes "pc_progress s" "pc_finished s"
  shows "count_list (consumed s) v =
    (if v = END_OF_STREAM then consumers s
     else of_bool (0 \<le> v \<and> v < int (producers s) * int (loops s)))"
proof -
  note f = finished_state [OF assms]
  have I: "producers_ok s" "eos_ok s" "roles_ok s"
    using assms(1) by (simp_all add: pc_progress_def pc_invar_def)
  then have l: "0 < loops s" by (simp add: producers_ok_def)
  show ?thesis
  proof (cases "0 \<le> v")
    case False
    obtain xs n where "produced s = xs @ replicate n END_OF_STREAM" "\<forall>v \<in> set xs. 0 \<le> v"
      using I(2) by (auto simp: eos_ok_def)
    then have "v \<noteq> END_OF_STREAM \<Longrightarrow> v \<notin> set (produced s)" using False by auto
    then show ?thesis using f(3,5) False by (auto simp: count_list_0_iff)
  next
    case True
    define k where "k = nat (v div int (loops s))"
    have k: "v div int (loops s) = int k" using True l by (simp add: k_def div_int_pos_iff)
    have m: "made s (Producer k) = (if k < producers s then loops s else 0)"
    proof (cases "k < producers s")
      case True
      then show ?thesis using f(4) [OF True] by (simp add: made_def stored_def)
    next
      case False
      then have nc: "pcs s (Producer k) = Not_created" using I(3) by (simp add: roles_ok_def)
      then have "idx s (Producer k) = 0" using I(1) unfolding producers_ok_def turn_ok_def by metis
      then show ?thesis using False nc by (simp add: made_def stored_def)
    qed
    have "count_list (produced s) v = count_list (own_items (loops s) k (produced s)) v"
      unfolding own_items_def by (rule count_list_filter [symmetric]) (use True k in simp)
    also have "\<dots> = count_list (map (\<lambda>i. int k * int (loops s) + int i) [0..<made s (Producer k)]) v"
      using I(1) by (simp add: producers_ok_def)
    also have "\<dots> = of_bool (k < producers s)"
      using count_own [OF l True, of k] m k by simp
    also have "k < producers s \<longleftrightarrow> v < int (producers s) * int (loops s)"
    proof -
      have "v < int (producers s) * int (loops s) \<longleftrightarrow> v div int (loops s) < int (producers s)"
        using div_less_iff [of "int (loops s)" v "int (producers s)"] l by simp
      then show ?thesis using k by simp
    qed
    finally show ?thesis using f(3) True not_special(2) [OF True] by simp
  qed
qed


section \<open>Properties\<close>

text \<open>
  Property C2. main-two-cvs-while.c cannot deadlock: in every state it can reach, with any number of producers and
  consumers, any size of the buffer and any schedule, some thread can take a step by itself (without a spurious
  wake-up) until \<open>main\<close> returns.
\<close>

theorem two_cvs_deadlock_free:
  assumes "pc_start s" "run step_two_cvs_while as s = Some s'" "pcs s' Main \<noteq> Done"
  shows "\<exists>t who s''. step_two_cvs_while (Step t who) s' = Some s''"
proof -
  have "pc_progress s'" using pc_live.invar_run [OF pc_progress_start [OF assms(1)] assms(2)] .
  then show ?thesis using no_deadlock assms(3) unfolding enabled_def by blast
qed

theorem two_cvs_deadlock_free_witness:
  "\<exists>s' t who s''. run step_two_cvs_while (take 7 two_cvs_schedule) (pc_init 1 1 1 1) = Some s' \<and>
     step_two_cvs_while (Step t who) s' = Some s''"
proof -
  have "\<exists>s'. run step_two_cvs_while (take 7 two_cvs_schedule) (pc_init 1 1 1 1) = Some s' \<and> pcs s' Main \<noteq> Done"
    by (simp add: eval_defs two_cvs_schedule_def)
  then show ?thesis using two_cvs_deadlock_free [OF start_1111] by blast
qed

text \<open>
  Property C13. When \<open>main\<close> of main-two-cvs-while.c returns, every value that the producers were to make has been consumed
  exactly once, every consumer has had its \<open>END_OF_STREAM\<close>, nothing else has been consumed, the buffer is empty, and
  the values were consumed in the order in which they were produced.
\<close>

theorem two_cvs_exactly_once:
  assumes "pc_start s" "run step_two_cvs_while as s = Some s'" "pcs s' Main = Done"
  shows "count_list (consumed s') v = (if v = END_OF_STREAM then consumers s'
       else if 0 \<le> v \<and> v < int (producers s') * int (loops s') then 1 else 0) \<and>
     consumed s' = produced s' \<and> ring_items s' = []"
proof -
  have p: "pc_progress s'" using pc_live.invar_run [OF pc_progress_start [OF assms(1)] assms(2)] .
  have f: "pc_finished s'" using assms(3) by (simp add: pc_finished_def)
  show ?thesis using finished_count [OF p f, of v] finished_state [OF p f] by auto
qed

theorem two_cvs_exactly_once_witness:
  "\<exists>s'. run step_two_cvs_while two_cvs_schedule (pc_init 1 1 1 1) = Some s' \<and> consumed s' = produced s' \<and>
     ring_items s' = []"
  using run_complete two_cvs_exactly_once [OF start_1111] by metis

end
