(* ===== verification/ProdCons_Bugs.thy ===== *)
theory ProdCons_Bugs
  imports ProdCons
begin

text \<open>
  The three other programs of \<open>src/concurrency/threads-cv\<close>, each with the schedule that breaks it: one
  condition variable for producers and consumers (\<open>main-one-cv-while.c\<close>), a wait that is not
  repeated (\<open>main-two-cvs-if.c\<close>), and an access outside of the mutex
  (\<open>main-two-cvs-while-extra-unlock.c\<close>). The schedules are lists of actions without spurious wake-ups, and
  the programs are evaluated on them.
\<close>

lemmas start_defs = pc_start_def ring_init_def pc_init_def MAX_THREADS_def

section \<open>One condition variable\<close>

text \<open>
  The producer fills the single slot and wakes the first consumer, fills again and goes to sleep; the
  consumer empties the slot, but its signal wakes the second consumer instead of the producer.
\<close>

definition one_cv_schedule :: "action list" where
  "one_cv_schedule = [
     Step Main None, Step Main None, Step Main None, Step Main None, Step Main None,
     Step (Producer 0) None, Step (Consumer 0) None, Step (Consumer 0) None,
     Step (Consumer 0) None, Step (Consumer 0) None, Step (Consumer 1) None,
     Step (Consumer 1) None, Step (Consumer 1) None, Step (Consumer 1) None,
     Step (Producer 0) None, Step (Producer 0) None, Step (Producer 0) None,
     Step (Producer 0) None, Step (Producer 0) None, Step (Producer 0) None,
     Step (Producer 0) (Some (Consumer 0)), Step (Producer 0) None, Step (Producer 0) None,
     Step (Producer 0) None, Step (Producer 0) None, Step (Producer 0) None,
     Step (Consumer 0) None, Step (Consumer 0) None, Step (Consumer 0) None,
     Step (Consumer 0) None, Step (Consumer 0) None, Step (Consumer 0) None,
     Step (Consumer 0) None, Step (Consumer 0) (Some (Consumer 1)), Step (Consumer 0) None,
     Step (Consumer 0) None, Step (Consumer 0) None, Step (Consumer 0) None,
     Step (Consumer 0) None, Step (Consumer 1) None, Step (Consumer 1) None,
     Step (Consumer 1) None]"

text \<open>
  Property C33. main-one-cv-while.c can deadlock, with one producer, two consumers and one slot, without any
  spurious wake-up: a reachable state in which \<open>main\<close> has not returned, nobody holds the mutex, the process has not
  exited, and no thread can take a step.
\<close>

theorem one_cv_deadlocks:
  "\<exists>s'. pc_start (pc_init 2 1 1 2) \<and> list_all own_step one_cv_schedule \<and>
     run step_one_cv_while one_cv_schedule (pc_init 2 1 1 2) = Some s' \<and>
     stopped s' = None \<and> mutex s' = None \<and> pcs s' Main \<noteq> Done \<and>
     (\<forall>t who. step_one_cv_while (Step t who) s' = None)"
proof -
  have run: "\<exists>s'. run step_one_cv_while one_cv_schedule (pc_init 2 1 1 2) = Some s' \<and>
      stopped s' = None \<and> mutex s' = None \<and> producers s' = 1 \<and> idx s' Main = 0 \<and>
      pcs s' = (\<lambda>_. Not_created)(Main := M_join_p, Producer 0 := P_sleep CV,
        Consumer 0 := C_sleep CV, Consumer 1 := C_sleep CV)"
    by (simp add: one_cv_schedule_def step_one_cv_while_def producer_one_cv_def consumer_one_cv_def
      eval_defs fun_upd_twist)
  have "step_one_cv_while (Step t who) s' = None"
    if "stopped s' = None" "mutex s' = None" "producers s' = 1" "idx s' Main = 0"
      "pcs s' = (\<lambda>_. Not_created)(Main := M_join_p, Producer 0 := P_sleep CV,
        Consumer 0 := C_sleep CV, Consumer 1 := C_sleep CV)" for s' t who
    using that
    by (cases t) (auto simp: step_one_cv_while_def system_step_def main_step_def producer_one_cv_def
      consumer_one_cv_def fill_step_def get_step_def Let_def)
  moreover have "pc_start (pc_init 2 1 1 2)" by (simp add: start_defs)
  moreover have "list_all own_step one_cv_schedule" by (simp add: one_cv_schedule_def own_step_def)
  moreover obtain s' where s': "run step_one_cv_while one_cv_schedule (pc_init 2 1 1 2) = Some s'"
      "stopped s' = None" "mutex s' = None" "producers s' = 1" "idx s' Main = 0"
      "pcs s' = (\<lambda>_. Not_created)(Main := M_join_p, Producer 0 := P_sleep CV,
        Consumer 0 := C_sleep CV, Consumer 1 := C_sleep CV)"
    using run by blast
  moreover have "pcs s' Main \<noteq> Done" by (simp add: s'(6))
  ultimately show ?thesis by blast
qed

section \<open>A wait that is not repeated\<close>

text \<open>
  After \<open>main\<close> has created all threads, the first consumer sleeps, the first producer fills a slot and wakes it, but the
  second consumer takes the value before the first gets the mutex again. The other threads have not moved.
\<close>

definition creation_schedule :: "nat \<Rightarrow> nat \<Rightarrow> action list" where
  "creation_schedule p c = replicate (p + 1) (Step Main None) @ replicate (c + 1) (Step Main None)"

definition if_schedule :: "action list" where
  "if_schedule = [
     Step (Producer 0) None, Step (Consumer 0) None, Step (Consumer 0) None, Step (Consumer 0) None,
     Step (Consumer 0) None, Step (Producer 0) None, Step (Producer 0) None,
     Step (Producer 0) None, Step (Producer 0) None, Step (Producer 0) None,
     Step (Producer 0) None, Step (Producer 0) (Some (Consumer 0)), Step (Producer 0) None,
     Step (Consumer 1) None, Step (Consumer 1) None, Step (Consumer 1) None,
     Step (Consumer 1) None, Step (Consumer 1) None, Step (Consumer 1) None,
     Step (Consumer 1) None, Step (Consumer 1) None, Step (Consumer 1) None,
     Step (Consumer 1) None, Step (Consumer 0) None, Step (Consumer 0) None,
     Step (Consumer 0) None]"

text \<open>The program points when the first \<open>p\<close> producers and \<open>c\<close> consumers have been created.\<close>

definition created :: "pc \<Rightarrow> nat \<Rightarrow> nat \<Rightarrow> tid \<Rightarrow> pc" where
  "created m p c t = (case t of
     Main \<Rightarrow> m
   | Producer i \<Rightarrow> if i < p then P_for else Not_created
   | Consumer j \<Rightarrow> if j < c then C_while else Not_created)"

lemma created_upd:
  "(created m p c)(Main := m') = created m' p c"
  "(created m p c)(Producer p := P_for) = created m (Suc p) c"
  "(created m p c)(Consumer c := C_while) = created m p (Suc c)"
  by (auto simp: created_def fun_eq_iff less_Suc_eq split: tid.splits)

lemma created_point:
  "created m p c Main = m" "created m p c (Producer i) = (if i < p then P_for else Not_created)"
  "created m p c (Consumer j) = (if j < c then C_while else Not_created)"
  by (simp_all add: created_def)

lemma idx_zero: "(\<lambda>a. if a = t then i else (0 :: nat))(t := k) = (\<lambda>_. 0)(t := k)" "(\<lambda>_. 0 :: nat)(t := 0) = (\<lambda>_. 0)"
  by auto

lemma create_producers:
  assumes "\<And>who u. stopped u = None \<Longrightarrow> step_fn (Step Main who) u = main_step Fill_cv Empty_cv who u"
    and "stopped s = None" "pcs s = created M_create_p i 0" "idx s = (\<lambda>_. 0)(Main := i)" "i + d = producers s"
  shows "run step_fn (replicate (d + 1) (Step Main None)) s =
    Some (s\<lparr>pcs := created M_create_c (producers s) 0, idx := \<lambda>_. 0\<rparr>)"
  using assms(2-)
proof (induction d arbitrary: i s)
  case 0
  then show ?case
    by (simp add: assms(1) main_step_def Let_def goto_def created_upd created_point idx_zero)
next
  case (Suc d)
  let ?u = "s\<lparr>pcs := created M_create_p (Suc i) 0, idx := (\<lambda>_. 0)(Main := Suc i)\<rparr>"
  have "step_fn (Step Main None) s = Some ?u"
    using Suc.prems by (simp add: assms(1) main_step_def Let_def goto_def incr_def created_upd created_point idx_zero)
  moreover have "run step_fn (replicate (d + 1) (Step Main None)) ?u =
      Some (?u\<lparr>pcs := created M_create_c (producers ?u) 0, idx := \<lambda>_. 0\<rparr>)"
    using Suc.prems by (intro Suc.IH [of _ "Suc i"]) simp_all
  ultimately show ?case by simp
qed

lemma create_consumers:
  assumes "\<And>who u. stopped u = None \<Longrightarrow> step_fn (Step Main who) u = main_step Fill_cv Empty_cv who u"
    and "stopped s = None" "pcs s = created M_create_c (producers s) i" "idx s = (\<lambda>_. 0)(Main := i)" "i + d = consumers s"
  shows "run step_fn (replicate (d + 1) (Step Main None)) s =
    Some (s\<lparr>pcs := created M_join_p (producers s) (consumers s), idx := \<lambda>_. 0\<rparr>)"
  using assms(2-)
proof (induction d arbitrary: i s)
  case 0
  then show ?case
    by (simp add: assms(1) main_step_def Let_def goto_def created_upd created_point idx_zero)
next
  case (Suc d)
  let ?u = "s\<lparr>pcs := created M_create_c (producers s) (Suc i), idx := (\<lambda>_. 0)(Main := Suc i)\<rparr>"
  have "step_fn (Step Main None) s = Some ?u"
    using Suc.prems by (simp add: assms(1) main_step_def Let_def goto_def incr_def created_upd created_point idx_zero)
  moreover have "run step_fn (replicate (d + 1) (Step Main None)) ?u =
      Some (?u\<lparr>pcs := created M_join_p (producers ?u) (consumers ?u), idx := \<lambda>_. 0\<rparr>)"
    using Suc.prems by (intro Suc.IH [of _ "Suc i"]) simp_all
  ultimately show ?case by simp
qed

lemma creation:
  assumes "\<And>who u. stopped u = None \<Longrightarrow> step_fn (Step Main who) u = main_step Fill_cv Empty_cv who u"
  shows "run step_fn (creation_schedule p c) (pc_init l m p c) =
    Some ((pc_init l m p c)\<lparr>pcs := created M_join_p p c\<rparr>)"
proof -
  let ?s = "pc_init l m p c"
  have i: "stopped ?s = None" "pcs ?s = created M_create_p 0 0" "idx ?s = (\<lambda>_. 0)" "producers ?s = p" "consumers ?s = c"
    by (auto simp: pc_init_def created_def fun_eq_iff split: tid.splits)
  have "run step_fn (replicate (p + 1) (Step Main None)) ?s = Some (?s\<lparr>pcs := created M_create_c p 0, idx := \<lambda>_. 0\<rparr>)"
    using create_producers [of step_fn ?s 0 p] assms i by (simp add: idx_zero)
  moreover have "run step_fn (replicate (c + 1) (Step Main None)) (?s\<lparr>pcs := created M_create_c p 0, idx := \<lambda>_. 0\<rparr>) =
      Some (?s\<lparr>pcs := created M_join_p p c, idx := \<lambda>_. 0\<rparr>)"
    using create_consumers [of step_fn "?s\<lparr>pcs := created M_create_c p 0, idx := \<lambda>_. 0\<rparr>" 0 c] assms i by (simp add: idx_zero)
  ultimately show ?thesis
    using i(3) by (simp add: creation_schedule_def run_append pc_init_def del: replicate_Suc)
qed

lemma sleepers_mem: "w \<in> set (sleepers cv s) \<longleftrightarrow> w \<in> set (threads s) \<and> sleeping_on cv (pcs s w)"
  by (auto simp: sleepers_def)

lemma sleepers_none: "sleepers cv s = [] \<longleftrightarrow> (\<forall>t\<in>set (threads s). \<not> sleeping_on cv (pcs s t))"
  by (simp add: sleepers_def filter_empty_conv)

lemma created_awake: "\<not> sleeping_on cv (created M_join_p p c t)"
  by (simp add: created_def sleeping_on_def split: tid.splits)

lemma sleeping_points:
  "\<not> sleeping_on cv P_for" "\<not> sleeping_on cv C_wake" "\<not> sleeping_on cv C_signal" "sleeping_on cv (C_sleep cv)"
  by (simp_all add: sleeping_on_def)

lemma if_schedule_fails:
  assumes "0 < l" "0 < m" "0 < p" "1 < c"
  shows "\<exists>s'. run step_two_cvs_if if_schedule ((pc_init l m p c)\<lparr>pcs := created M_join_p p c\<rparr>) = Some s' \<and>
    stopped s' = Some (Exit_1 ''error: tried to get an empty buffer'')"
proof -
  have b: "created M_join_p p c (Producer 0) = P_for" "created M_join_p p c (Consumer 0) = C_while"
    "created M_join_p p c (Consumer (Suc 0)) = C_while"
    using assms by (simp_all add: created_point)
  have e: "(replicate m x)[0 := x] = replicate m x" for x :: int by (cases m) simp_all
  have n: "nat (1 mod int m) < m" using assms(2) by (simp add: nat_less_iff)
  show ?thesis
    using assms b n
    by (simp add: if_schedule_def step_two_cvs_if_def producer_if_def consumer_if_def step_defs access_defs system_step_def
      Let_def value_of_def wake_point_def EMPTY_def END_OF_STREAM_def pc_init_def sleepers_mem sleepers_none created_awake
      threads_def sleeping_points e)
qed

text \<open>
  Property C34. main-two-cvs-if.c can end with the message of \<open>do_get\<close> for an empty buffer, without any spurious wake-up, from every
  start with a producer and at least two consumers, whatever the number of items and the size of the buffer.
\<close>

theorem two_cvs_if_fails:
  assumes "pc_start s" "0 < producers s" "2 \<le> consumers s"
  shows "\<exists>acts s'. list_all own_step acts \<and> run step_two_cvs_if acts s = Some s' \<and>
    stopped s' = Some (Exit_1 ''error: tried to get an empty buffer'')"
proof -
  define l m p c where lmpc: "l = loops s" "m = nat (slots s)" "p = producers s" "c = consumers s"
  have s: "s = pc_init l m p c" "0 < l" "0 < m" "0 < p" "1 < c"
    using assms by (simp_all add: pc_start_def lmpc)
  have "run step_two_cvs_if (creation_schedule p c) s = Some ((pc_init l m p c)\<lparr>pcs := created M_join_p p c\<rparr>)"
    unfolding s(1) by (rule creation) (simp add: step_two_cvs_if_def system_step_def)
  moreover obtain s' where "run step_two_cvs_if if_schedule ((pc_init l m p c)\<lparr>pcs := created M_join_p p c\<rparr>) = Some s'"
      "stopped s' = Some (Exit_1 ''error: tried to get an empty buffer'')"
    using if_schedule_fails [OF s(2-5)] by blast
  moreover have "list_all own_step (creation_schedule p c @ if_schedule)"
    by (simp add: creation_schedule_def if_schedule_def own_step_def list_all_iff del: replicate_Suc)
  ultimately show ?thesis by (intro exI [of _ "creation_schedule p c @ if_schedule"] exI [of _ s']) (simp add: run_append)
qed

theorem two_cvs_if_fails_witness:
  "\<exists>acts s'. list_all own_step acts \<and> run step_two_cvs_if acts (pc_init 5 3 1 2) = Some s' \<and>
    stopped s' = Some (Exit_1 ''error: tried to get an empty buffer'')"
  by (rule two_cvs_if_fails) (simp_all add: start_defs)

section \<open>An access outside of the mutex\<close>

text \<open>Two producers have both seen the slot empty before one of them fills it.\<close>

definition extra_unlock_schedule :: "action list" where
  "extra_unlock_schedule = [
     Step Main None, Step Main None, Step (Producer 0) None, Step (Producer 0) None,
     Step (Producer 0) None, Step (Producer 0) None, Step (Producer 0) None,
     Step (Producer 0) None, Step (Producer 1) None, Step (Producer 1) None,
     Step (Producer 1) None, Step (Producer 1) None, Step (Producer 1) None]"

text \<open>
  main-two-cvs-while-extra-unlock.c can end with the message of \<open>do_fill\<close> for a full buffer, with two
  producers and without any spurious wake-up.
\<close>

theorem extra_unlock_fails:
  "pc_start (pc_init 1 1 2 1) \<and> list_all own_step extra_unlock_schedule \<and>
     map_option stopped (run step_extra_unlock extra_unlock_schedule (pc_init 1 1 2 1)) =
       Some (Some (Exit_1 ''error: tried to fill a non-empty buffer''))"
proof (intro conjI)
  show "pc_start (pc_init 1 1 2 1)" by (simp add: start_defs)
  show "list_all own_step extra_unlock_schedule" by (simp add: extra_unlock_schedule_def own_step_def)
qed (simp add: extra_unlock_schedule_def step_extra_unlock_def producer_extra_def consumer_extra_def eval_defs)

end
