(* ===== verification/Sysutil.thy ===== *)
theory Sysutil
  imports Prelude
begin

text \<open>
  The functions of \<open>src/persistence/utils/stat/system.h\<close> that compute: arithmetic on \<open>size_t\<close>, scans of memory and
  strings, device numbers, digit accumulation, directory listings and the help footer. A string is
  the list of its characters before the terminating NUL; a directory stream is the list of the names it
  will return and whether it ends with an error. \<open>gettext\<close>, the locale and the file system are parameters.
\<close>

unbundle bit_operations_syntax

section \<open>Arithmetic on size_t\<close>

text \<open>The loop of \<open>gcd\<close>: its body runs at least once and divides by \<open>v\<close>.\<close>

function gcd_loop :: "size_t \<Rightarrow> size_t \<Rightarrow> size_t res" where
  "gcd_loop u v = (if v = 0 then Inl Div_by_zero
     else (let t = u mod v in if t = 0 then Inr v else gcd_loop v t))"
  by pat_completeness auto
termination
proof (relation "measure (\<lambda>(u, v). unat v)")
  fix u v t :: size_t
  assume "v \<noteq> 0" "t = u mod v" "t \<noteq> 0"
  then have "u mod v < v" by (simp add: word_mod_less_divisor word_neq_0_conv)
  then show "((v, t), (u, v)) \<in> measure (\<lambda>(u, v). unat v)"
    using \<open>t = u mod v\<close> by (simp add: word_less_nat_alt)
qed simp

declare gcd_loop.simps [simp del]

definition lcm_size :: "size_t \<Rightarrow> size_t \<Rightarrow> size_t res" where
  "lcm_size u v = and_then (gcd_loop u v) (\<lambda>g. Inr (u * (v div g)))"

text \<open>\<open>ptr_align\<close>, on the address.\<close>

definition ptr_align :: "size_t \<Rightarrow> size_t \<Rightarrow> size_t res" where
  "ptr_align p alignment =
     (let p1 = p + alignment - 1 in
      if alignment = 0 then Inl Div_by_zero else Inr (p1 - p1 mod alignment))"

definition select_plural :: "size_t \<Rightarrow> size_t" where
  "select_plural n = (if n \<le> - 1 then n else n mod 1000000 + 1000000)"

definition major :: "u32 \<Rightarrow> u32" where
  "major dev = drop_bit 8 dev AND 0xff"

definition minor :: "u32 \<Rightarrow> u32" where
  "minor dev = dev AND 0xff"

definition makedev :: "u32 \<Rightarrow> u32 \<Rightarrow> u32" where
  "makedev maj mnr = push_bit 8 maj OR mnr"

text \<open>\<open>DECIMAL_DIGIT_ACCUMULATE\<close>: the new accumulator, or its old value and failure.\<close>

definition decimal_digit_accumulate :: "'w::len word \<Rightarrow> 'w word \<Rightarrow> bool \<times> 'w word" where
  "decimal_digit_accumulate accum digit_val =
     (if - 1 div 10 < accum \<or> accum * 10 + digit_val < accum then (False, accum)
      else (True, accum * 10 + digit_val))"

definition ISDIGIT :: "u32 \<Rightarrow> bool" where
  "ISDIGIT c \<longleftrightarrow> c - 48 \<le> 9"

section \<open>Memory and strings\<close>

text \<open>
  \<open>is_nul\<close>: \<open>byte_loop\<close> is the loop with the one-byte \<open>word\<close>, which returns \<open>None\<close> at the \<open>break\<close> with the position and the
  remaining length; \<open>memcmp\<close> then compares the buffer with itself.
\<close>

function byte_loop :: "u8 list \<Rightarrow> nat \<Rightarrow> nat \<Rightarrow> (bool + nat \<times> nat) res" where
  "byte_loop buf p len =
     (if p < length buf then
        (if buf ! p \<noteq> 0 then Inr (Inl False)
         else if len - 1 = 0 then Inr (Inl True)
         else if (len - 1) mod 16 = 0 then Inr (Inr (p + 1, len - 1))
         else byte_loop buf (p + 1) (len - 1))
      else Inl Out_of_bounds)"
  by pat_completeness auto
termination by (relation "measure (\<lambda>(buf, p, len). length buf - p)") auto

declare byte_loop.simps [simp del]

definition memcmp_eq :: "u8 list \<Rightarrow> nat \<Rightarrow> nat \<Rightarrow> nat \<Rightarrow> bool res" where
  "memcmp_eq buf a b n =
     (if a + n \<le> length buf \<and> b + n \<le> length buf then Inr (take n (drop a buf) = take n (drop b buf))
      else Inl Out_of_bounds)"

definition is_nul :: "u8 list \<Rightarrow> nat \<Rightarrow> bool res" where
  "is_nul buf len =
     (if len = 0 then Inr True
      else and_then (byte_loop buf 0 len) (\<lambda>r. case r of
        Inl b \<Rightarrow> Inr b | Inr (p, n) \<Rightarrow> memcmp_eq buf 0 p n))"

text \<open>A read of the terminated string \<open>s\<close> at an index.\<close>

definition char_at :: "string \<Rightarrow> nat \<Rightarrow> char res" where
  "char_at s i = (if i < length s then Inr (s ! i) else if i = length s then Inr (CHR 0x00) else Inl Out_of_bounds)"

definition ISSLASH :: "char \<Rightarrow> bool" where
  "ISSLASH c \<longleftrightarrow> c = CHR ''/''"

definition dot_or_dotdot :: "string \<Rightarrow> bool res" where
  "dot_or_dotdot file_name = and_then (char_at file_name 0) (\<lambda>c0.
     if c0 = CHR ''.'' then
       and_then (char_at file_name 1) (\<lambda>c1.
       and_then (char_at file_name (of_bool (c1 = CHR ''.'') + 1)) (\<lambda>sep.
         Inr (sep = CHR 0x00 \<or> ISSLASH sep)))
     else Inr False)"

definition isblank :: "char \<Rightarrow> bool" where
  "isblank c \<longleftrightarrow> c = CHR '' '' \<or> c = CHR 0x09"

definition field_sep :: "char \<Rightarrow> bool" where
  "field_sep ch \<longleftrightarrow> isblank ch \<or> ch = CHR 0x0A"

text \<open>
  \<open>stzncpy\<close>: \<open>dest\<close> is the destination block from the pointer \<open>d\<close> on; the result is the block and the returned
  pointer.
\<close>

function stzncpy_loop :: "char list \<Rightarrow> nat \<Rightarrow> string \<Rightarrow> nat \<Rightarrow> nat \<Rightarrow> (char list \<times> nat) res" where
  "stzncpy_loop dest d src i len =
     (if i < len then
        and_then (char_at src i) (\<lambda>c.
          if c \<noteq> CHR 0x00 then
            (if d < length dest then stzncpy_loop (dest[d := c]) (d + 1) src (i + 1) len else Inl Out_of_bounds)
          else (if d < length dest then Inr (dest[d := CHR 0x00], d) else Inl Out_of_bounds))
      else (if d < length dest then Inr (dest[d := CHR 0x00], d) else Inl Out_of_bounds))"
  by pat_completeness auto
termination by (relation "measure (\<lambda>(dest, d, src, i, len). len - i)") auto

declare stzncpy_loop.simps [simp del]

definition stzncpy :: "char list \<Rightarrow> string \<Rightarrow> nat \<Rightarrow> (char list \<times> nat) res" where
  "stzncpy dest src len = stzncpy_loop dest 0 src 0 len"

definition is_ENOTSUP :: "int \<Rightarrow> int \<Rightarrow> int \<Rightarrow> bool" where
  "is_ENOTSUP EOPNOTSUPP ENOTSUP err \<longleftrightarrow> err = EOPNOTSUPP \<or> ENOTSUP \<noteq> EOPNOTSUPP \<and> err = ENOTSUP"

section \<open>Directories\<close>

record dirstream =
  entries :: "string list"
  end_errno :: int        \<comment> \<open>what \<open>errno\<close> becomes at the end; 0 leaves it unchanged\<close>

text \<open>\<open>readdir\<close> of POSIX on a stream: the next name, or \<open>NULL\<close> with the error in \<open>errno\<close>.\<close>

definition readdir :: "dirstream \<Rightarrow> int \<Rightarrow> string option \<times> dirstream \<times> int" where
  "readdir d errno = (case entries d of
       [] \<Rightarrow> (None, d, if end_errno d = 0 then errno else end_errno d)
     | e # es \<Rightarrow> (Some e, d\<lparr>entries := es\<rparr>, errno))"

function readdir_ignoring_dot_and_dotdot ::
    "dirstream \<Rightarrow> int \<Rightarrow> (string option \<times> dirstream \<times> int) res" where
  "readdir_ignoring_dot_and_dotdot d errno =
     (case readdir d errno of
        (None, d', e') \<Rightarrow> Inr (None, d', e')
      | (Some name, d', e') \<Rightarrow> and_then (dot_or_dotdot name) (\<lambda>b.
          if b then readdir_ignoring_dot_and_dotdot d' e' else Inr (Some name, d', e')))"
  by pat_completeness auto
termination
  by (relation "measure (\<lambda>(d, e). length (entries d))") (auto simp: readdir_def split: list.splits)

declare readdir_ignoring_dot_and_dotdot.simps [simp del]

text \<open>
  \<open>is_empty_dir\<close>: \<open>open_dir\<close> is \<open>openat\<close> with \<open>fdopendir\<close>, of which either may fail. The result is the answer with
  whether the descriptor was closed again.
\<close>

datatype open_result = Open_failed | Fdopendir_failed | Opened dirstream

definition is_empty_dir :: "(string \<Rightarrow> open_result) \<Rightarrow> string \<Rightarrow> bool res" where
  "is_empty_dir open_dir dir = (case open_dir dir of
       Open_failed \<Rightarrow> Inr False
     | Fdopendir_failed \<Rightarrow> Inr False
     | Opened d \<Rightarrow> and_then (readdir_ignoring_dot_and_dotdot d 0) (\<lambda>(dp, d', saved_errno).
         if dp \<noteq> None then Inr False else Inr (saved_errno = 0)))"

section \<open>The help footer\<close>

definition infomap :: "(string \<times> string) list" where
  "infomap = [(''['', ''test invocation''), (''coreutils'', ''Multi-call invocation''),
     (''sha224sum'', ''sha2 utilities''), (''sha256sum'', ''sha2 utilities''),
     (''sha384sum'', ''sha2 utilities''), (''sha512sum'', ''sha2 utilities'')]"

text \<open>The search through the table, which ends at its \<open>NULL\<close> entry.\<close>

fun find_node :: "string \<Rightarrow> (string \<times> string) list \<Rightarrow> string option" where
  "find_node program [] = None"
| "find_node program ((p, node) # rest) = (if program = p then Some node else find_node program rest)"

text \<open>What is printed, without native language support, when \<open>gettext\<close> is the identity.\<close>

definition emit_ancillary_info :: "string \<Rightarrow> string \<Rightarrow> string option \<Rightarrow> string \<Rightarrow> string list" where
  "emit_ancillary_info PACKAGE_NAME PACKAGE_URL lc_messages program =
     (let found = find_node program infomap;
          node = (case found of None \<Rightarrow> program | Some n \<Rightarrow> n)
      in [[CHR 0x0A] @ PACKAGE_NAME @ '' online help: <'' @ PACKAGE_URL @ ''>'' @ [CHR 0x0A]] @
         (case lc_messages of
            Some lc \<Rightarrow> if take 3 lc \<noteq> ''en_''
              then [''Report '' @ program @ '' translation bugs to <https://translationproject.org/team/>'' @ [CHR 0x0A]]
              else []
          | None \<Rightarrow> []) @
         [''Full documentation at: <'' @ PACKAGE_URL @ program @ ''>'' @ [CHR 0x0A]] @
         [''or available locally via: info '' @ [CHR 0x27] @ ''(coreutils) '' @ node @
           (if found = None then '' invocation'' else []) @ [CHR 0x27, CHR 0x0A]])"

section \<open>Correctness\<close>

lemma unat_size_t: "unat (word_of_nat n :: size_t) = n mod 2 ^ 64"
  by (simp add: unsigned_of_nat take_bit_eq_mod)

lemma unat_size_max: "unat (- 1 :: size_t) = 2 ^ 64 - 1"
  by (simp add: unsigned_minus_1_eq_mask mask_eq_exp_minus_1)

lemma gcd_loop_ok:
  "v \<noteq> 0 \<Longrightarrow> \<exists>g. gcd_loop u v = Inr g \<and> unat g = gcd (unat u) (unat v)"
proof (induction u v rule: gcd_loop.induct)
  case (1 u v)
  show ?case
  proof (cases "u mod v = 0")
    case True
    then have "unat u mod unat v = 0" by (metis unat_0 unat_mod_distrib)
    then have "gcd (unat u) (unat v) = unat v" by (simp add: mod_eq_0_iff_dvd gcd_proj2_if_dvd_nat)
    then show ?thesis using 1(2) True by (simp add: gcd_loop.simps [of u v])
  next
    case False
    then obtain g where "gcd_loop v (u mod v) = Inr g" "unat g = gcd (unat v) (unat (u mod v))"
      using 1 by auto
    then show ?thesis using 1(2) False
      by (simp add: gcd_loop.simps [of u v] unat_mod_distrib gcd_red_nat [of "unat u" "unat v", symmetric])
  qed
qed

text \<open>
  Property C37. For every nonzero \<open>v\<close> and every \<open>u\<close> the loop of \<open>gcd\<close> ends and returns their greatest common divisor, and \<open>lcm\<close>
  returns their least common multiple modulo \<open>2 ^ 64\<close>, the wrap-around of \<open>size_t\<close>: the least common multiple itself exactly when
  that fits. For \<open>v = 0\<close> both divide by zero.
\<close>

theorem gcd_lcm_correct:
  "if v = 0 then gcd_loop u v = Inl Div_by_zero \<and> lcm_size u v = Inl Div_by_zero
   else \<exists>g m. gcd_loop u v = Inr g \<and> unat g = gcd (unat u) (unat v) \<and>
     lcm_size u v = Inr m \<and> unat m = lcm (unat u) (unat v) mod 2 ^ 64 \<and>
     (unat m = lcm (unat u) (unat v)) = (lcm (unat u) (unat v) < 2 ^ 64)"
proof (cases "v = 0")
  case True
  then show ?thesis by (simp add: lcm_size_def gcd_loop.simps [of u])
next
  case False
  then obtain g where g: "gcd_loop u v = Inr g" "unat g = gcd (unat u) (unat v)"
    using gcd_loop_ok by blast
  have l: "unat u * (unat v div unat g) = lcm (unat u) (unat v)"
    by (simp add: g(2) lcm_nat_def div_mult_swap)
  have m: "unat (u * (v div g)) = lcm (unat u) (unat v) mod 2 ^ 64"
    by (simp add: unat_word_ariths(2) unat_div_distrib l)
  have fits: "(lcm (unat u) (unat v) mod 2 ^ 64 = lcm (unat u) (unat v)) = (lcm (unat u) (unat v) < 2 ^ 64)"
    by (metis mod_less mod_less_divisor zero_less_numeral zero_less_power)
  have "lcm_size u v = Inr (u * (v div g))" using g(1) by (simp add: lcm_size_def)
  then show ?thesis using False g m fits by auto
qed

text \<open>
  \<open>ptr_align\<close> returns the least multiple of a nonzero \<open>alignment\<close> at or above the pointer, when the
  block it is to lie in does not wrap around the address space.
\<close>

theorem ptr_align_least:
  assumes "alignment \<noteq> 0" "unat p + unat alignment \<le> 2 ^ 64"
  shows "\<exists>q. ptr_align p alignment = Inr q \<and> unat alignment dvd unat q \<and> unat p \<le> unat q \<and>
    (\<forall>m. unat alignment dvd m \<longrightarrow> unat p \<le> m \<longrightarrow> unat q \<le> m)"
proof -
  let ?a = "unat alignment"
  have a: "0 < ?a" using assms(1) by (simp add: unat_gt_0)
  define p1 where "p1 = p + alignment - 1"
  have p1: "unat p1 = unat p + ?a - 1"
  proof -
    have "p1 = word_of_nat (unat p + (?a - 1))"
      using a by (simp add: p1_def of_nat_diff)
    moreover have "unat p + (?a - 1) < 2 ^ 64" using assms(2) a by linarith
    ultimately show ?thesis using a by (simp only: unat_size_t) simp
  qed
  define q where "q = p1 - p1 mod alignment"
  have q: "unat q = ?a * (unat p1 div ?a)"
  proof -
    have "unat (p1 mod alignment) \<le> unat p1" by (simp add: unat_mod_distrib)
    then have "unat q = unat p1 - unat p1 mod ?a"
      unfolding q_def by (simp add: unat_sub word_le_nat_alt unat_mod_distrib)
    then show ?thesis by (simp add: minus_mod_eq_mult_div)
  qed
  have "unat p \<le> unat q"
  proof -
    have "unat p1 mod ?a < ?a" using a by simp
    moreover have "unat p1 = ?a * (unat p1 div ?a) + unat p1 mod ?a" by simp
    ultimately show ?thesis using q p1 a by linarith
  qed
  moreover have "unat q \<le> m" if "?a dvd m" "unat p \<le> m" for m
  proof -
    obtain k where k: "m = ?a * k" using \<open>?a dvd m\<close> by blast
    have "unat p1 < ?a * k + ?a" using p1 that(2) k a by linarith
    then have "unat p1 div ?a < k + 1" using a by (simp add: less_mult_imp_div_less mult.commute)
    then have "unat p1 div ?a \<le> k" by simp
    then show ?thesis using q k by simp
  qed
  ultimately show ?thesis
    using q assms(1) by (auto simp: ptr_align_def Let_def q_def p1_def)
qed

theorem ptr_align_least_witness: "\<exists>q. ptr_align 13 8 = Inr q \<and> 8 dvd unat q \<and> 13 \<le> unat q"
  using ptr_align_least [of 8 13] by auto

text \<open>
  Property C35. The digit accumulation is exact on a \<open>uintmax_t\<close>: it fails precisely when ten times the accumulator plus
  the digit exceeds the largest value, and then leaves the accumulator unchanged; otherwise it holds the new value.
\<close>

theorem decimal_digit_exact:
  fixes accum digit :: size_t
  assumes "digit \<le> 9"
  shows "decimal_digit_accumulate accum digit =
    (if 10 * unat accum + unat digit \<le> unat (- 1 :: size_t)
     then (True, word_of_nat (10 * unat accum + unat digit)) else (False, accum))"
proof -
  have d: "unat digit \<le> 9" using assms by (simp add: word_le_nat_alt)
  have max: "unat (- 1 :: size_t) = 2 ^ 64 - 1" by (rule unat_size_max)
  have lim: "- 1 div 10 < accum \<longleftrightarrow> (2 ^ 64 - 1) div 10 < unat accum"
    by (simp add: word_less_nat_alt unat_div_distrib max)
  let ?n = "10 * unat accum + unat digit"
  have eq: "accum * 10 + digit = word_of_nat ?n" by simp
  show ?thesis
  proof (cases "(2 ^ 64 - 1) div 10 < unat accum")
    case True
    then show ?thesis using lim max by (simp add: decimal_digit_accumulate_def)
  next
    case False
    show ?thesis
    proof (cases "?n < 2 ^ 64")
      case True
      then have "unat (accum * 10 + digit) = ?n" unfolding eq by (simp only: unat_size_t) simp
      then have "\<not> accum * 10 + digit < accum" by (simp add: word_less_nat_alt)
      then have c: "\<not> (- 1 div 10 < accum \<or> accum * 10 + digit < accum)" using False lim by blast
      have m: "?n \<le> unat (- 1 :: size_t)" using True max by simp
      have "decimal_digit_accumulate accum digit = (True, accum * 10 + digit)"
        unfolding decimal_digit_accumulate_def by (rule if_not_P [OF c])
      then show ?thesis unfolding eq by (simp only: if_P [OF m])
    next
      case wrap: False
      have "?n < 2 ^ 64 + 10" using False d by simp
      then have "unat (accum * 10 + digit) = ?n - 2 ^ 64" "?n - 2 ^ 64 < 10"
        unfolding eq unat_size_t using wrap by (simp_all add: mod_if)
      moreover have "10 \<le> unat accum" using wrap d by simp
      ultimately have "accum * 10 + digit < accum" by (simp add: word_less_nat_alt)
      then show ?thesis using wrap max by (simp add: decimal_digit_accumulate_def)
    qed
  qed
qed

theorem decimal_digit_exact_witness:
  "decimal_digit_accumulate (1844674407370955161 :: size_t) 6 = (False, 1844674407370955161) \<and>
   decimal_digit_accumulate (1844674407370955161 :: size_t) 5 = (True, - 1)"
  using decimal_digit_exact [of 6 1844674407370955161] decimal_digit_exact [of 5 1844674407370955161]
  by (simp add: unat_size_max)

text \<open>The loop stops at a nonzero byte, at the end, or after a zero prefix.\<close>

lemma byte_loop_cases:
  "p + len \<le> length buf \<Longrightarrow> 0 < len \<Longrightarrow>
   byte_loop buf p len = Inr (Inl False) \<and> (\<exists>i < len. buf ! (p + i) \<noteq> 0) \<or>
   byte_loop buf p len = Inr (Inl True) \<and> (\<forall>i < len. buf ! (p + i) = 0) \<or>
   (\<exists>k. 0 < k \<and> k < len \<and> byte_loop buf p len = Inr (Inr (p + k, len - k)) \<and> (\<forall>i < k. buf ! (p + i) = 0))"
proof (induction buf p len rule: byte_loop.induct)
  case (1 buf p len)
  have p: "p < length buf" using 1(2,3) by simp
  consider "buf ! p \<noteq> 0" | "buf ! p = 0" "len - 1 = 0" | "buf ! p = 0" "len - 1 \<noteq> 0" "(len - 1) mod 16 = 0"
    | "buf ! p = 0" "len - 1 \<noteq> 0" "(len - 1) mod 16 \<noteq> 0" by blast
  then show ?case
  proof cases
    case 1
    then have "byte_loop buf p len = Inr (Inl False)" using p by (simp add: byte_loop.simps [of buf p len])
    moreover have "0 < len \<and> buf ! (p + 0) \<noteq> 0" using 1 "1.prems" by simp
    ultimately show ?thesis by blast
  next
    case 2
    then have "len = 1" using "1.prems" by simp
    then show ?thesis using 2 p by (simp add: byte_loop.simps [of buf p "Suc 0"])
  next
    case 3
    then have "byte_loop buf p len = Inr (Inr (p + 1, len - 1))" using p by (simp add: byte_loop.simps [of buf p len])
    then show ?thesis using 3 by (intro disjI2 exI [of _ 1]) auto
  next
    case 4
    have step: "byte_loop buf p len = byte_loop buf (p + 1) (len - 1)"
      using 4 p by (simp add: byte_loop.simps [of buf p len])
    have ex: "(\<exists>i < len. buf ! (p + i) \<noteq> 0)" if "i < len - 1" "buf ! (p + 1 + i) \<noteq> 0" for i
      using that by (intro exI [of _ "Suc i"]) auto
    have all: "buf ! (p + i) = 0" if "\<forall>j < k. buf ! (p + 1 + j) = 0" "i < Suc k" for i k
      using that 4(1) by (cases i) auto
    have "byte_loop buf (p + 1) (len - 1) = Inr (Inl False) \<and> (\<exists>i < len - 1. buf ! (p + 1 + i) \<noteq> 0) \<or>
      byte_loop buf (p + 1) (len - 1) = Inr (Inl True) \<and> (\<forall>i < len - 1. buf ! (p + 1 + i) = 0) \<or>
      (\<exists>k. 0 < k \<and> k < len - 1 \<and> byte_loop buf (p + 1) (len - 1) = Inr (Inr (p + 1 + k, len - 1 - k)) \<and>
        (\<forall>i < k. buf ! (p + 1 + i) = 0))"
      using "1.IH" p 4 "1.prems" by simp
    then consider "byte_loop buf p len = Inr (Inl False)" "\<exists>i < len. buf ! (p + i) \<noteq> 0"
      | "byte_loop buf p len = Inr (Inl True)" "\<forall>i < Suc (len - 1). buf ! (p + i) = 0"
      | k where "0 < k" "k < len - 1" "byte_loop buf p len = Inr (Inr (p + 1 + k, len - 1 - k))"
         "\<forall>i < Suc k. buf ! (p + i) = 0"
      unfolding step using ex all by blast
    then show ?thesis
    proof cases
      case 3
      then show ?thesis by (intro disjI2 exI [of _ "Suc k"]) auto
    qed (use "1.prems" in auto)
  qed
qed

text \<open>A buffer whose first \<open>k\<close> bytes are zero and which agrees with itself shifted by \<open>k\<close> is zero throughout.\<close>

lemma shifted_zero:
  assumes "0 < k" "\<forall>i < k. buf ! i = (0 :: u8)" "\<forall>i < n - k. buf ! i = buf ! (k + i)"
  shows "\<forall>i < n. buf ! i = 0"
proof (intro allI impI)
  fix i assume "i < n"
  then show "buf ! i = 0"
  proof (induction i rule: less_induct)
    case (less i)
    show ?case
    proof (cases "i < k")
      case False
      then have "buf ! (i - k) = buf ! i" using assms(3) less.prems by (metis diff_less_mono le_add_diff_inverse linorder_not_less)
      then show ?thesis using less.IH [of "i - k"] less.prems assms(1) False by simp
    qed (use assms(2) in simp)
  qed
qed

text \<open>
  Property C36. \<open>is_nul\<close> never reads outside of the buffer, and its byte loop followed by the comparison of the
  buffer with itself decides whether all its bytes are zero.
\<close>

theorem is_nul_decides: "is_nul buf (length buf) = Inr (\<forall>b \<in> set buf. b = 0)"
proof (cases "length buf = 0")
  case True
  then show ?thesis by (simp add: is_nul_def)
next
  case False
  let ?n = "length buf"
  have all: "(\<forall>b \<in> set buf. b = 0) \<longleftrightarrow> (\<forall>i < ?n. buf ! i = 0)" by (simp add: all_set_conv_all_nth)
  consider "byte_loop buf 0 ?n = Inr (Inl False)" "\<exists>i < ?n. buf ! i \<noteq> 0"
    | "byte_loop buf 0 ?n = Inr (Inl True)" "\<forall>i < ?n. buf ! i = 0"
    | k where "0 < k" "k < ?n" "byte_loop buf 0 ?n = Inr (Inr (k, ?n - k))" "\<forall>i < k. buf ! i = 0"
    using byte_loop_cases [of 0 ?n buf] False by auto
  then show ?thesis
  proof cases
    case (3 k)
    have "take (?n - k) buf = drop k buf \<longleftrightarrow> (\<forall>i < ?n - k. buf ! i = buf ! (k + i))"
      using 3(2) by (simp add: list_eq_iff_nth_eq)
    also have "\<dots> \<longleftrightarrow> (\<forall>i < ?n. buf ! i = 0)"
    proof
      assume "\<forall>i < ?n - k. buf ! i = buf ! (k + i)"
      then show "\<forall>i < ?n. buf ! i = 0" by (rule shifted_zero [OF 3(1,4)])
    next
      assume z: "\<forall>i < ?n. buf ! i = 0"
      show "\<forall>i < ?n - k. buf ! i = buf ! (k + i)"
      proof (intro allI impI)
        fix i assume "i < ?n - k"
        then have "i < ?n" "k + i < ?n" by linarith+
        then show "buf ! i = buf ! (k + i)" using z by metis
      qed
    qed
    finally have eq: "(take (?n - k) buf = drop k buf) = (\<forall>i < ?n. buf ! i = 0)" .
    have "memcmp_eq buf 0 k (?n - k) = Inr (take (?n - k) buf = drop k buf)"
      using 3(2) by (simp add: memcmp_eq_def)
    moreover have "is_nul buf ?n = memcmp_eq buf 0 k (?n - k)"
      using 3(3) False by (simp add: is_nul_def)
    ultimately show ?thesis by (simp only: eq all)
  next
    case 1
    then have "\<not> (\<forall>i < ?n. buf ! i = 0)" by blast
    then show ?thesis unfolding all using 1(1) False by (simp add: is_nul_def)
  next
    case 2
    then show ?thesis unfolding all using False by (simp add: is_nul_def)
  qed
qed

theorem is_nul_decides_witness: "is_nul [0, 0, 7] 3 = Inr False"
  using is_nul_decides [of "[0, 0, 7]"] by (simp add: numeral_3_eq_3)

text \<open>Reading a terminated string up to its end is always within it.\<close>

lemma char_at_simps [simp]:
  "char_at (c # s) 0 = Inr c" "char_at [] 0 = Inr (CHR 0x00)" "char_at (c # s) (Suc i) = char_at s i"
  by (simp_all add: char_at_def)

lemma dot_or_dotdot_decides:
  assumes "CHR 0x00 \<notin> set s"
  shows "dot_or_dotdot s = Inr (s \<in> {''.'', ''..''} \<or> take 2 s = ''./'' \<or> take 3 s = ''../'')"
proof (cases s)
  case Nil
  then show ?thesis by (simp add: dot_or_dotdot_def)
next
  case (Cons a t)
  show ?thesis
  proof (cases "a = CHR ''.''")
    case False
    then show ?thesis using Cons by (simp add: dot_or_dotdot_def)
  next
    case True
    show ?thesis
    proof (cases t)
      case Nil
      then show ?thesis using Cons True by (simp add: dot_or_dotdot_def)
    next
      case t: (Cons b u)
      then show ?thesis
        using Cons True assms
        by (cases u) (auto simp: dot_or_dotdot_def ISSLASH_def numeral_2_eq_2 numeral_3_eq_3)
    qed
  qed
qed

definition file_name_ok :: "string \<Rightarrow> bool" where
  "file_name_ok name \<longleftrightarrow> CHR 0x00 \<notin> set name \<and> CHR ''/'' \<notin> set name"

lemma file_name_dots:
  "file_name_ok name \<Longrightarrow> dot_or_dotdot name = Inr (name \<in> {''.'', ''..''})"
proof -
  assume n: "file_name_ok name"
  then have "take 2 name \<noteq> ''./'' \<and> take 3 name \<noteq> ''../''"
    by (metis file_name_ok_def in_set_takeD list.set_intros(1,2))
  then show ?thesis using n dot_or_dotdot_decides [of name] by (simp add: file_name_ok_def)
qed

lemma readdir_skips:
  "\<forall>name \<in> set (entries d). file_name_ok name \<Longrightarrow>
   \<exists>d'. readdir_ignoring_dot_and_dotdot d e =
     Inr (case filter (\<lambda>n. n \<notin> {''.'', ''..''}) (entries d) of
       [] \<Rightarrow> (None, d', if end_errno d = 0 then e else end_errno d) | n # ns \<Rightarrow> (Some n, d', e))"
proof (induction "entries d" arbitrary: d)
  case Nil
  then have "entries d = []" by simp
  then show ?case
    by (auto simp: readdir_ignoring_dot_and_dotdot.simps [of d e] readdir_def)
next
  case (Cons n ns)
  let ?d = "d\<lparr>entries := ns\<rparr>"
  have n: "entries d = n # ns" "file_name_ok n" using Cons(2,3) by (metis list.set_intros(1))+
  have r: "readdir d e = (Some n, ?d, e)" by (simp add: readdir_def n(1))
  show ?case
  proof (cases "n \<in> {''.'', ''..''}")
    case True
    then have "readdir_ignoring_dot_and_dotdot d e = readdir_ignoring_dot_and_dotdot ?d e"
      using r file_name_dots [OF n(2)] by (simp add: readdir_ignoring_dot_and_dotdot.simps [of d e])
    moreover have sel: "entries ?d = ns" "end_errno ?d = end_errno d" by simp_all
    moreover have "filter (\<lambda>n. n \<notin> {''.'', ''..''}) (entries d) = filter (\<lambda>n. n \<notin> {''.'', ''..''}) ns"
      using n(1) True by auto
    moreover have "\<forall>name \<in> set ns. file_name_ok name" using Cons.prems n(1) by simp
    ultimately show ?thesis using Cons.hyps(1) [of ?d, unfolded sel] by (simp only: refl)
  next
    case False
    then have "readdir_ignoring_dot_and_dotdot d e = Inr (Some n, ?d, e)"
      using r file_name_dots [OF n(2)] by (simp add: readdir_ignoring_dot_and_dotdot.simps [of d e])
    then show ?thesis using n(1) False by auto
  qed
qed

text \<open>
  \<open>is_empty_dir\<close> on a directory that can be opened returns whether it has no entries but \<open>.\<close> and \<open>..\<close> and
  was read to its end without an error; its scan ends on every directory.
\<close>

theorem is_empty_dir_decides:
  assumes "open_dir dir = Opened d" "\<forall>name \<in> set (entries d). file_name_ok name"
  shows "is_empty_dir open_dir dir = Inr (set (entries d) \<subseteq> {''.'', ''..''} \<and> end_errno d = 0)"
proof -
  let ?f = "filter (\<lambda>n. n \<notin> {''.'', ''..''}) (entries d)"
  obtain d' where r: "readdir_ignoring_dot_and_dotdot d 0 =
     Inr (case ?f of [] \<Rightarrow> (None, d', if end_errno d = 0 then 0 else end_errno d) | n # ns \<Rightarrow> (Some n, d', 0))"
    using readdir_skips [OF assms(2), of 0] by blast
  have "?f = [] \<longleftrightarrow> set (entries d) \<subseteq> {''.'', ''..''}" by (auto simp: filter_empty_conv)
  then show ?thesis using assms(1) r by (cases ?f) (auto simp: is_empty_dir_def)
qed

theorem is_empty_dir_decides_witness:
  "is_empty_dir (\<lambda>_. Opened \<lparr>entries = [''..'', ''a'', ''.''], end_errno = 0\<rparr>) ''d'' = Inr False"
  using is_empty_dir_decides [of "\<lambda>_. Opened \<lparr>entries = [''..'', ''a'', ''.''], end_errno = 0\<rparr>" "''d''"]
  by (simp add: file_name_ok_def)

lemma char_at_nth: "i < length s \<Longrightarrow> char_at s i = Inr (s ! i)"
  by (simp add: char_at_def)

lemma stzncpy_loop_ok:
  assumes "CHR 0x00 \<notin> set src" "n = min len (length src)" "i \<le> n" "d + (n - i) < length dest"
  shows "stzncpy_loop dest d src i len =
    Inr (take d dest @ drop i (take n src) @ CHR 0x00 # drop (d + (n - i) + 1) dest, d + (n - i))"
  using assms
proof (induction dest d src i len rule: stzncpy_loop.induct)
  case (1 dest d src i len)
  have last: "Inr (dest[d := CHR 0x00], d) =
      Inr (take d dest @ drop i (take n src) @ CHR 0x00 # drop (d + (n - i) + 1) dest, d + (n - i))"
    if "i = n"
    using that "1.prems"(4) by (simp add: upd_conv_take_nth_drop)
  show ?case
  proof (cases "i < n")
    case True
    then have i: "i < len" "i < length src" "src ! i \<noteq> CHR 0x00" "d < length dest"
      using "1.prems" by auto (metis nth_mem)
    then have step: "stzncpy_loop dest d src i len = stzncpy_loop (dest[d := src ! i]) (d + 1) src (i + 1) len"
      by (simp add: stzncpy_loop.simps [of dest d src i len] char_at_nth)
    have "\<dots> = Inr (take (d + 1) (dest[d := src ! i]) @ drop (i + 1) (take n src) @
        CHR 0x00 # drop (d + 1 + (n - (i + 1)) + 1) (dest[d := src ! i]), d + 1 + (n - (i + 1)))"
      using "1.IH" [OF i(1) i(3,4)] i "1.prems" True by (simp add: char_at_nth)
    moreover have "take (d + 1) (dest[d := src ! i]) = take d dest @ [src ! i]"
      using i(4) by (simp add: take_Suc_conv_app_nth)
    moreover have "drop i (take n src) = src ! i # drop (i + 1) (take n src)"
      using True i(2) by (simp add: Cons_nth_drop_Suc [symmetric])
    moreover have "d + 1 + (n - (i + 1)) = d + (n - i)" using True by simp
    ultimately show ?thesis unfolding step using i(4) True by simp
  next
    case False
    then have "i = n" using "1.prems"(3) by linarith
    then consider "\<not> i < len" | "i < len" "char_at src i = Inr (CHR 0x00)"
      using "1.prems" by (auto simp: char_at_def)
    then have "stzncpy_loop dest d src i len = Inr (dest[d := CHR 0x00], d)"
      using "1.prems"(4) \<open>i = n\<close>
      by cases (simp_all add: stzncpy_loop.simps [of dest d src n len])
    then show ?thesis using last \<open>i = n\<close> by simp
  qed
qed

text \<open>
  \<open>stzncpy\<close> into a block with room for them copies at most \<open>len\<close> characters of the string and a NUL, leaves the
  rest of the block as it was, and returns the position of the NUL.
\<close>

theorem stzncpy_copies:
  assumes "CHR 0x00 \<notin> set src" "min len (length src) < length dest"
  shows "stzncpy dest src len = Inr (take len src @ CHR 0x00 # drop (min len (length src) + 1) dest,
    min len (length src))"
  using stzncpy_loop_ok [OF assms(1) refl, of 0 len 0 dest] assms(2)
  by (simp add: stzncpy_def min_def split: if_splits)

theorem stzncpy_copies_witness: "stzncpy ''zzzzz'' ''abcdef'' 3 = Inr (''abc'' @ [CHR 0x00] @ ''z'', 3)"
  using stzncpy_copies [of "''abcdef''" 3 "''zzzzz''"] by (simp add: numeral_3_eq_3)

text \<open>
  Device numbers round-trip: \<open>major\<close> and \<open>minor\<close> take apart what \<open>makedev\<close> put together from two bytes,
  and \<open>makedev\<close> rebuilds every device number of two bytes.
\<close>

theorem device_numbers_roundtrip:
  assumes "maj \<le> 0xff" "mnr \<le> 0xff"
  shows "major (makedev maj mnr) = maj \<and> minor (makedev maj mnr) = mnr"
proof -
  have small: "\<not> bit x n" if "x \<le> 0xff" "8 \<le> n" for x :: u32 and n
  proof -
    have "x AND mask 8 = x"
    proof (rule iffD2 [OF word_unat_eq_iff])
      have "unat x < 256" using that(1) by (simp add: word_le_nat_alt)
      then show "unat (x AND mask 8) = unat x"
        by (simp add: take_bit_eq_mask [symmetric] unsigned_take_bit_eq take_bit_eq_mod unat_mod_distrib)
    qed
    then have "bit x n = bit (x AND mask 8) n" by simp
    then show ?thesis using that(2) by (simp add: bit_simps)
  qed
  then have big: "bit maj n \<Longrightarrow> n < 8" "bit mnr n \<Longrightarrow> n < 8" for n
    using assms by (metis linorder_not_le)+
  have ff: "(0xff :: u32) = mask 8" by (simp add: mask_eq_exp_minus_1)
  have "major (makedev maj mnr) = maj"
    unfolding major_def makedev_def ff
    by (intro bit_word_eqI) (auto simp: bit_simps not_le dest: big)
  moreover have "minor (makedev maj mnr) = mnr"
    unfolding minor_def makedev_def ff
    by (intro bit_word_eqI) (auto simp: bit_simps not_le dest: big)
  ultimately show ?thesis ..
qed

theorem device_numbers_roundtrip_witness: "major (makedev 8 1) = 8 \<and> minor (makedev 8 1) = 1"
  using device_numbers_roundtrip [of 8 1] by simp

end
