(* ===== verification/Callexec.thy ===== *)
theory Callexec
  imports Ctext "HOL-Library.Multiset"
begin

text \<open>
  \<open>src/process_api/callexec2/callexec2.c\<close>: a child process is to write numbers into a file, the parent reads them,
  sorts them and searches for 47. The text of the file is a string and \<open>fscanf\<close> with \<open>%d\<close> is written out; \<open>fork\<close>, \<open>execvp\<close>
  and \<open>qsort\<close> are parameters. The C standard defines a call of \<open>qsort\<close> only when the results of the comparison function
  define an order on the array; on any other function the call is a fault.
\<close>

section \<open>fscanf\<close>

text \<open>
  \<open>fscanf (fp, "%d", &num)\<close>: its value (1 for a conversion, 0 for a matching failure, \<open>EOF\<close> for the end of the input), the
  rest of the input, and \<open>num\<close> afterwards. A number that is no \<open>int\<close> is undefined behaviour.
\<close>

definition fscanf_d :: "string \<Rightarrow> int \<Rightarrow> (int \<times> string \<times> int) res" where
  "fscanf_d inp num =
     (let s = dropWhile isspace inp in
      if s = [] then Inr (-1, [], num)
      else let neg = (hd s = CHR ''-'');
               t = (if hd s = CHR ''-'' \<or> hd s = CHR ''+'' then tl s else s);
               ds = takeWhile isdigit t
           in if ds = [] then Inr (0, t, num)
              else let v = (if neg then - int (digits_val 0 ds) else int (digits_val 0 ds))
                   in if int_ok v then Inr (1, dropWhile isdigit t, v) else Inl Int_overflow)"

section \<open>The functions of the program\<close>

definition MAXLINES :: int where "MAXLINES = 64"

text \<open>\<open>readints\<close>: the messages printed, the value returned and the numbers stored, from index 0 on.\<close>

function readints_loop :: "string \<Rightarrow> int \<Rightarrow> int list \<Rightarrow> (string list \<times> int \<times> int list) res" where
  "readints_loop inp num stored =
     (if int (length stored) \<le> MAXLINES - 1 then
        and_then (fscanf_d inp num) (\<lambda>(r, rest, num').
          if r \<noteq> 0 then readints_loop rest num' (stored @ [num'])
          else Inr ([''Error parsing line''], -1, stored))
      else Inr ([], int (length stored), stored))"
  by pat_completeness auto
termination
  by (relation "measure (\<lambda>(inp, num, stored). nat (MAXLINES - int (length stored)))") auto

declare readints_loop.simps [simp del]

definition readints :: "string option \<Rightarrow> (string list \<times> int \<times> int list) res" where
  "readints file = (case file of
       Some text \<Rightarrow> readints_loop text 0 []
     | None \<Rightarrow> Inr ([''Error reading file.''], -1, []))"

definition cmpfunc :: "int \<Rightarrow> int \<Rightarrow> int" where
  "cmpfunc c1 c2 = (if c1 < c2 then 0 else 1)"

text \<open>\<open>binsearch\<close>, with the reads of \<open>v\<close> and the \<open>int\<close> arithmetic that can leave its range.\<close>

definition read_int :: "int list \<Rightarrow> int \<Rightarrow> int res" where
  "read_int v i = (if 0 \<le> i \<and> i < int (length v) then Inr (v ! nat i) else Inl Out_of_bounds)"

lemma read_int_Inr: "read_int v i = Inr y \<longleftrightarrow> 0 \<le> i \<and> i < int (length v) \<and> y = v ! nat i"
  by (auto simp: read_int_def)

text \<open>The middle of a range, when it is an index, lies in the range.\<close>

lemma middle_in_range:
  assumes "low \<le> high" "0 \<le> c_div (low + high) 2"
  shows "low \<le> c_div (low + high) 2" "c_div (low + high) 2 \<le> high"
proof -
  have "low \<le> c_div (low + high) 2 \<and> c_div (low + high) 2 \<le> high"
  proof (cases "0 \<le> low + high")
    case True
    then show ?thesis using assms(1) by (simp, presburger)
  next
    case False
    then have d: "c_div (low + high) 2 = - ((- (low + high)) div 2)" by (simp add: c_div_def)
    then have "(- (low + high)) div 2 = 0" using False assms(2) by simp
    then show ?thesis using False assms(1) d by simp
  qed
  then show "low \<le> c_div (low + high) 2" "c_div (low + high) 2 \<le> high" by auto
qed

function binsearch_loop :: "int \<Rightarrow> int list \<Rightarrow> int \<Rightarrow> int \<Rightarrow> int res" where
  "binsearch_loop x v low high =
     (if low \<le> high then
        (if \<not> int_ok (low + high) then Inl Int_overflow
         else let mid = c_div (low + high) 2 in
           case read_int v mid of
             Inl e \<Rightarrow> Inl e
           | Inr y \<Rightarrow>
             (if x < y then binsearch_loop x v low (mid - 1)
              else if x > y then binsearch_loop x v (mid + 1) high
              else Inr mid))
      else Inr (-1))"
  by pat_completeness auto
termination
proof (relation "measure (\<lambda>(x, v, low, high). nat (high - low + 1))", goal_cases)
  case 1
  then show ?case by simp
next
  case (2 x v low high mid y)
  then show ?case using middle_in_range [of low high] by (simp add: read_int_Inr)
next
  case (3 x v low high mid y)
  then show ?case using middle_in_range [of low high] by (simp add: read_int_Inr)
qed

declare binsearch_loop.simps [simp del]

lemma binsearch_loop_unfold:
  assumes "low \<le> high" "int_ok (low + high)" "mid = c_div (low + high) 2" "read_int v mid = Inr y"
  shows "binsearch_loop x v low high =
    (if x < y then binsearch_loop x v low (mid - 1)
     else if y < x then binsearch_loop x v (mid + 1) high else Inr mid)"
  using assms(1,2,4)
  by (subst binsearch_loop.simps)
    (simp only: Let_def assms(3) [symmetric] sum.case not_True_eq_False if_True if_False)

definition binsearch :: "int \<Rightarrow> int list \<Rightarrow> int \<Rightarrow> int res" where
  "binsearch x v n = binsearch_loop x v 0 (n - 1)"

text \<open>
  \<open>main\<close>. A call of \<open>printf\<close> is its format and its arguments (the line ends are left out). The child becomes another
  program when \<open>execvp\<close> succeeds; the parent finds in \<open>file\<close> what the child left in \<open>num.out\<close>.
\<close>

type_synonym printed = "string \<times> int list"

datatype main_end =
    Exited int
  | Became "string list"

type_synonym qsort_fun = "(int \<Rightarrow> int \<Rightarrow> int) \<Rightarrow> int list \<Rightarrow> int list"

definition child_args :: "string list" where
  "child_args = [''python3'', ''numgen.py'', ''--ulimit=64'', ''--numvals=100'', ''--ofile=num.out'']"

definition luckynum :: int where "luckynum = 47"

definition search_lucky :: "int list \<Rightarrow> int \<Rightarrow> printed list res" where
  "search_lucky v n =
     and_then (binsearch luckynum v n) (\<lambda>found.
       if found \<noteq> -1
       then and_then (read_int v found) (\<lambda>x. Inr [(''found %d, at index: %d'', [x, found])])
       else Inr [(''number not found'', [])])"

text \<open>
  What \<open>qsort\<close> requires of the comparison function on the elements of the array: of two elements it says the same in
  either order, and its answers are transitive.
\<close>

definition comparator :: "(int \<Rightarrow> int \<Rightarrow> int) \<Rightarrow> int list \<Rightarrow> bool" where
  "comparator cmp v \<longleftrightarrow>
     (\<forall>i<length v. \<forall>j<length v. i \<noteq> j \<longrightarrow> sgn (cmp (v ! i) (v ! j)) = - sgn (cmp (v ! j) (v ! i))) \<and>
     (\<forall>i<length v. \<forall>j<length v. \<forall>k<length v. i \<noteq> j \<and> j \<noteq> k \<and> i \<noteq> k \<longrightarrow>
        cmp (v ! i) (v ! j) \<le> 0 \<longrightarrow> cmp (v ! j) (v ! k) \<le> 0 \<longrightarrow> cmp (v ! i) (v ! k) \<le> 0)"

definition call_qsort :: "qsort_fun \<Rightarrow> (int \<Rightarrow> int \<Rightarrow> int) \<Rightarrow> int list \<Rightarrow> int list res" where
  "call_qsort qsort cmp v = (if comparator cmp v then Inr (qsort cmp v) else Inl Bad_comparator)"

definition parent :: "qsort_fun \<Rightarrow> int \<Rightarrow> int \<Rightarrow> string option \<Rightarrow> (printed list \<times> main_end) res" where
  "parent qsort rc pid file =
     and_then (readints file) (\<lambda>(msgs, nints, stored).
       let out = (''hello, I am parent of %d (pid:%d)'', [rc, pid]) # map (\<lambda>m. (m, [])) msgs;
           intptr = stored @ replicate (nat MAXLINES - length stored) 0
       in if nints \<le> MAXLINES \<and> 0 \<le> nints
          then and_then (call_qsort qsort cmpfunc (take (nat nints) intptr)) (\<lambda>ordered.
                 and_then (search_lucky (ordered @ drop (nat nints) intptr) nints) (\<lambda>found.
                   Inr (out @ found, Exited 0)))
          else Inr (out @ [(''Error with counting number of ints in file'', [])], Exited (-1)))"

definition callexec_main ::
    "qsort_fun \<Rightarrow> int \<Rightarrow> int \<Rightarrow> bool \<Rightarrow> string option \<Rightarrow> (printed list \<times> main_end) res" where
  "callexec_main qsort rc pid exec_ok file =
     (if rc < 0 then Inr ([(''fork failed'', [])], Exited 1)
      else if rc = 0 then
        (if exec_ok then Inr ([(''hello, I am child (pid:%d)'', [pid])], Became child_args)
         else Inr ([(''hello, I am child (pid:%d)'', [pid]), (''this shouldn'' @ CHR 0x27 # ''t print out'', [])], Exited 0))
      else parent qsort rc pid file)"

section \<open>Reading\<close>

text \<open>What \<open>numgen.py\<close> writes: each number in decimal on a line of its own.\<close>

definition number_line :: "nat \<Rightarrow> string" where
  "number_line n = decimal n @ [CHR 0x0A]"

text \<open>Reading a number, after the end of the line before it.\<close>

lemma fscanf_number:
  assumes "n < 2 ^ 31" "list_all isspace ws"
  shows "fscanf_d (ws @ number_line n @ rest) num = Inr (1, CHR 0x0A # rest, int n)"
proof -
  define t where "t = decimal n @ CHR 0x0A # rest"
  have dw: "dropWhile isspace (ws @ t) = t"
    using assms(2) decimal_ok [of n]
    by (induction ws) (auto simp: t_def dropWhile_eq_self_iff)
  have h: "t \<noteq> []" "hd t = hd (decimal n)" using decimal_ok [of n] by (auto simp: t_def)
  have "takeWhile isdigit t = decimal n" "dropWhile isdigit t = CHR 0x0A # rest"
    using decimal_ok [of n] by (simp_all add: t_def takeWhile_all dropWhile_all)
  moreover have "int_ok (int n)" using assms(1) by (simp add: int_ok_def)
  ultimately have "fscanf_d (ws @ t) num = Inr (1, CHR 0x0A # rest, int n)"
    using dw h decimal_ok [of n] by (simp add: fscanf_d_def Let_def)
  then show ?thesis by (simp add: t_def number_line_def)
qed

definition number_lines :: "nat list \<Rightarrow> string" where
  "number_lines ns = concat (map number_line ns)"

lemma number_lines_simps [simp]:
  "number_lines [] = []" "number_lines (n # ns) = number_line n @ number_lines ns"
  by (simp_all add: number_lines_def)

lemma fscanf_eof: "list_all isspace ws \<Longrightarrow> fscanf_d ws num = Inr (-1, [], num)"
  by (simp add: fscanf_d_def list_all_iff)

lemma readints_eof:
  "list_all isspace ws \<Longrightarrow> length stored \<le> 64 \<Longrightarrow>
    readints_loop ws num stored = Inr ([], 64, stored @ replicate (64 - length stored) num)"
proof (induction "64 - length stored" arbitrary: stored ws)
  case 0
  then show ?case by (simp add: readints_loop.simps [of _ _ stored] MAXLINES_def)
next
  case (Suc k)
  then have "readints_loop [] num (stored @ [num]) =
      Inr ([], 64, (stored @ [num]) @ replicate (64 - length (stored @ [num])) num)" by simp
  moreover have "replicate (64 - length stored) num = num # replicate (64 - Suc (length stored)) num"
    using Suc.hyps(2) by (metis Suc_diff_Suc length_0_conv list.size(3) replicate_Suc zero_less_Suc zero_less_diff)
  ultimately show ?case
    using Suc.hyps(2) fscanf_eof [OF Suc.prems(1)]
    by (simp add: readints_loop.simps [of ws _ stored] MAXLINES_def)
qed

lemma readints_number:
  assumes "n < 2 ^ 31" "list_all isspace ws" "length stored < 64"
  shows "readints_loop (ws @ number_line n @ rest) num stored =
    readints_loop (CHR 0x0A # rest) (int n) (stored @ [int n])"
  using assms fscanf_number [OF assms(1,2)]
  by (simp add: readints_loop.simps [of _ _ stored] MAXLINES_def)

lemma readints_lines:
  "\<forall>n\<in>set ns. n < 2 ^ 31 \<Longrightarrow> list_all isspace ws \<Longrightarrow> length stored \<le> 64 \<Longrightarrow>
    readints_loop (ws @ number_lines ns) num stored =
      Inr ([], 64, take 64 (stored @ map int ns @ replicate 64 (last (num # map int ns))))"
proof (induction ns arbitrary: ws num stored)
  case Nil
  then show ?case by (simp add: readints_eof)
next
  case (Cons n ns)
  show ?case
  proof (cases "length stored = 64")
    case True
    then show ?thesis by (simp add: readints_loop.simps [of _ _ stored] MAXLINES_def)
  next
    case False
    then have "length stored < 64" using Cons.prems by simp
    then show ?thesis
      using Cons.prems Cons.IH [of "[CHR 0x0A]" "stored @ [int n]" "int n"]
      by (simp add: readints_number)
  qed
qed

lemma readints_bad_token:
  "\<forall>n\<in>set ns. n < 2 ^ 31 \<Longrightarrow> list_all isspace ws \<Longrightarrow> length stored + length ns < 64 \<Longrightarrow>
    \<not> isspace c \<Longrightarrow> \<not> isdigit c \<Longrightarrow> c \<noteq> CHR ''-'' \<Longrightarrow> c \<noteq> CHR ''+'' \<Longrightarrow>
    readints_loop (ws @ number_lines ns @ c # rest) num stored =
      Inr ([''Error parsing line''], -1, stored @ map int ns)"
proof (induction ns arbitrary: ws num stored)
  case Nil
  have "dropWhile isspace (ws @ c # rest) = c # rest"
    using Nil.prems by (simp add: dropWhile_all)
  then have "fscanf_d (ws @ c # rest) num = Inr (0, c # rest, num)"
    using Nil.prems by (simp add: fscanf_d_def Let_def)
  then show ?case
    using Nil.prems by (simp add: readints_loop.simps [of _ _ stored] MAXLINES_def)
next
  case (Cons n ns)
  then show ?case
    using Cons.IH [of "[CHR 0x0A]" "stored @ [int n]" "int n"] by (simp add: readints_number)
qed

text \<open>\<open>readints\<close> on the file that \<open>numgen.py\<close> writes: it always returns 64, and the array holds the first 64 numbers; for a
  shorter file the last number is repeated, as the end of the file counts as a conversion (an empty file gives 64 zeros). A
  file with something else than a number among the first 64 entries gives -1 and the message.
\<close>

theorem readints_reads_lines:
  assumes "\<forall>n\<in>set ns. n < 2 ^ 31"
  shows "readints (Some (number_lines ns)) =
      Inr ([], 64, take 64 (map int ns @ replicate 64 (last (0 # map int ns)))) \<and>
    (length ns < 64 \<and> \<not> isspace c \<and> \<not> isdigit c \<and> c \<noteq> CHR ''-'' \<and> c \<noteq> CHR ''+'' \<longrightarrow>
      readints (Some (number_lines ns @ c # rest)) = Inr ([''Error parsing line''], -1, map int ns))"
  using assms readints_lines [of ns "[]" "[]" 0] readints_bad_token [of ns "[]" "[]" c rest 0]
  by (simp add: readints_def)

theorem readints_reads_lines_witness:
  "readints (Some (number_lines [7, 47])) = Inr ([], 64, 7 # 47 # replicate 62 47) \<and>
   readints (Some (number_lines [7] @ ''x'')) = Inr ([''Error parsing line''], -1, [7])"
  using readints_reads_lines [of "[7, 47]" "CHR ''x''" "[]"] readints_reads_lines [of "[7]" "CHR ''x''" "[]"]
  by (simp add: isspace_def isdigit_def)

section \<open>Searching\<close>

text \<open>The state of the search: an occurrence of \<open>x\<close> lies between \<open>low\<close> and \<open>high\<close>.\<close>

definition narrowed :: "int \<Rightarrow> int list \<Rightarrow> int \<Rightarrow> int \<Rightarrow> bool" where
  "narrowed x v low high \<longleftrightarrow> 0 \<le> low \<and> high < int (length v) \<and>
     (\<forall>i < length v. v ! i = x \<longrightarrow> low \<le> int i \<and> int i \<le> high)"

lemma narrowed_step:
  assumes "sorted v" "narrowed x v low high" "low \<le> mid" "mid \<le> high"
  shows "x < v ! nat mid \<Longrightarrow> narrowed x v low (mid - 1)"
    and "v ! nat mid < x \<Longrightarrow> narrowed x v (mid + 1) high"
proof -
  have mono: "v ! i \<le> v ! j" if "i \<le> j" "j < length v" for i j
    using assms(1) that by (rule sorted_nth_mono)
  have r: "0 \<le> mid" "mid < int (length v)" using assms by (auto simp: narrowed_def)
  then have r': "nat mid < length v" by simp
  have "int i \<le> mid - 1" if "i < length v" "v ! i = x" "x < v ! nat mid" for i
    using mono [of "nat mid" i] that by (cases "nat mid \<le> i") auto
  then show "x < v ! nat mid \<Longrightarrow> narrowed x v low (mid - 1)"
    using assms r by (auto simp: narrowed_def)
  have "mid + 1 \<le> int i" if "i < length v" "v ! i = x" "v ! nat mid < x" for i
    using mono [of i "nat mid"] that r r' by (cases "i \<le> nat mid") auto
  then show "v ! nat mid < x \<Longrightarrow> narrowed x v (mid + 1) high"
    using assms r by (auto simp: narrowed_def)
qed

lemma binsearch_loop_correct:
  "sorted v \<Longrightarrow> length v \<le> 2 ^ 30 \<Longrightarrow> narrowed x v low high \<Longrightarrow>
    \<exists>r. binsearch_loop x v low high = Inr r \<and>
      (r = -1 \<and> x \<notin> set v \<or> 0 \<le> r \<and> r < int (length v) \<and> v ! nat r = x)"
proof (induction x v low high rule: binsearch_loop.induct)
  case (1 x v low high)
  note prems = "1.prems"
  show ?case
  proof (cases "low \<le> high")
    case False
    then have "x \<notin> set v" using prems by (fastforce simp: in_set_conv_nth narrowed_def)
    then show ?thesis using False by (simp add: binsearch_loop.simps [of x v low])
  next
    case True
    define mid where "mid = c_div (low + high) 2"
    have r: "0 \<le> low" "high < int (length v)" using prems by (simp_all add: narrowed_def)
    have ok: "int_ok (low + high)" using True r prems(2) by (simp add: int_ok_def)
    have m: "low \<le> mid" "mid \<le> high" "0 \<le> mid"
      using True r middle_in_range [OF True] by (simp_all add: mid_def)
    have rd: "read_int v mid = Inr (v ! nat mid)" using m r by (simp add: read_int_Inr)
    note IH = "1.IH" [OF True _ mid_def rd, unfolded not_not, OF ok]
    note step = narrowed_step [OF prems(1,3) m(1,2)]
    note unf = binsearch_loop_unfold [OF True ok mid_def rd, of x]
    consider (less) "x < v ! nat mid" | (greater) "v ! nat mid < x" | (found) "x = v ! nat mid"
      by linarith
    then show ?thesis
    proof cases
      case less
      show ?thesis using IH(1) [OF less prems(1,2) step(1) [OF less]] less unf by simp
    next
      case greater
      then show ?thesis using IH(2) [OF _ greater prems(1,2) step(2) [OF greater]] unf by simp
    next
      case found
      then show ?thesis using m r unf by simp
    qed
  qed
qed

lemma binsearch_correct:
  assumes "sorted v" "length v \<le> 2 ^ 30"
  shows "\<exists>r. binsearch x v (int (length v)) = Inr r \<and>
    (r = -1 \<and> x \<notin> set v \<or> 0 \<le> r \<and> r < int (length v) \<and> v ! nat r = x)"
  unfolding binsearch_def
  by (rule binsearch_loop_correct [OF assms]) (auto simp: narrowed_def)

lemma binsearch_loop_overflow:
  "length v < 2 ^ 31 \<Longrightarrow> 2 ^ 30 < length v \<Longrightarrow> \<forall>y\<in>set v. y < x \<Longrightarrow> 0 \<le> low \<Longrightarrow> low \<le> high \<Longrightarrow>
    high = int (length v) - 1 \<Longrightarrow> binsearch_loop x v low high = Inl Int_overflow"
proof (induction x v low high rule: binsearch_loop.induct)
  case (1 x v low high)
  note prems = "1.prems"
  show ?case
  proof (cases "int_ok (low + high)")
    case False
    then show ?thesis using prems by (subst binsearch_loop.simps) simp
  next
    case True
    define mid where "mid = c_div (low + high) 2"
    have "low < high" using True prems by (simp add: int_ok_def)
    then have m: "0 \<le> mid" "mid < high" using prems by (simp_all add: mid_def)
    then have l: "nat mid < length v" using prems by linarith
    have rd: "read_int v mid = Inr (v ! nat mid)" using m prems by (simp add: read_int_Inr)
    have gt: "v ! nat mid < x" using prems(3) l by simp
    note IH = "1.IH"(2) [OF \<open>low \<le> high\<close> _ mid_def rd, unfolded not_not, OF True _ gt prems(1-3)]
    have "binsearch_loop x v low high = binsearch_loop x v (mid + 1) high"
      using binsearch_loop_unfold [OF \<open>low \<le> high\<close> True mid_def rd, of x] gt by simp
    then show ?thesis using IH gt m prems by simp
  qed
qed

text \<open>\<open>binsearch\<close> on an ordered array of at most \<open>2^30\<close> elements answers with an index of \<open>x\<close>, or -1 when there is none, reading
  the array only at its indices. Above that size the bound is exact: a search past the last element adds two indices beyond
  the range of \<open>int\<close>.
\<close>

theorem binsearch_limits:
  assumes "length v < 2 ^ 31"
  shows "(sorted v \<and> length v \<le> 2 ^ 30 \<longrightarrow>
      (\<exists>r. binsearch x v (int (length v)) = Inr r \<and>
        (r = -1 \<and> x \<notin> set v \<or> 0 \<le> r \<and> r < int (length v) \<and> v ! nat r = x))) \<and>
    (2 ^ 30 < length v \<and> (\<forall>y\<in>set v. y < x) \<longrightarrow> binsearch x v (int (length v)) = Inl Int_overflow)"
proof -
  have "binsearch x v (int (length v)) = Inl Int_overflow" if "2 ^ 30 < length v" "\<forall>y\<in>set v. y < x"
    unfolding binsearch_def
    using that(1) by (intro binsearch_loop_overflow [OF assms that]) auto
  then show ?thesis using binsearch_correct [of v x] by blast
qed

theorem binsearch_limits_witness:
  "(\<exists>r. binsearch 5 [2, 5, 9] 3 = Inr r \<and>
     (r = -1 \<and> 5 \<notin> set [2, 5, 9::int] \<or> 0 \<le> r \<and> r < 3 \<and> [2, 5, 9::int] ! nat r = 5)) \<and>
   binsearch 1 (replicate (2 ^ 31 - 1) 0) (2 ^ 31 - 1) = Inl Int_overflow"
  using binsearch_limits [of "[2, 5, 9]" 5] binsearch_limits [of "replicate (2 ^ 31 - 1) 0" 1] by simp

section \<open>The program\<close>

definition hello_parent :: "int \<Rightarrow> int \<Rightarrow> printed" where
  "hello_parent rc pid = (''hello, I am parent of %d (pid:%d)'', [rc, pid])"

text \<open>Of any two elements the function says of one order or the other that the first is greater.\<close>

lemma cmpfunc_no_comparator: "2 \<le> length v \<Longrightarrow> \<not> comparator cmpfunc v"
proof
  assume "2 \<le> length v" and c: "comparator cmpfunc v"
  then have l: "0 < length v" "1 < length v" by linarith+
  have "sgn (cmpfunc (v ! 0) (v ! 1)) = - sgn (cmpfunc (v ! 1) (v ! 0))"
    by (rule conjunct1 [OF c [unfolded comparator_def], rule_format, OF l zero_neq_one])
  then show False by (auto simp: cmpfunc_def split: if_splits)
qed

text \<open>A sorting routine that only asks whether the answer of the comparison is positive.\<close>

fun insert_by :: "(int \<Rightarrow> int \<Rightarrow> int) \<Rightarrow> int \<Rightarrow> int list \<Rightarrow> int list" where
  "insert_by cmp x [] = [x]"
| "insert_by cmp x (y # ys) = (if cmp x y > 0 then y # insert_by cmp x ys else x # y # ys)"

definition insertion_sort :: qsort_fun where
  "insertion_sort cmp v = foldr (insert_by cmp) v []"

lemma insert_by_mset: "mset (insert_by cmp x ys) = add_mset x (mset ys)"
  by (induction ys) simp_all

lemma insert_by_set: "set (insert_by cmp x ys) = insert x (set ys)"
  by (induction ys) auto

lemma insert_by_sorted: "sorted ys \<Longrightarrow> sorted (insert_by cmpfunc x ys)"
  by (induction ys) (auto simp: cmpfunc_def insert_by_set)

lemma insertion_sort_sorts:
  "sorted (insertion_sort cmpfunc v) \<and> mset (insertion_sort cmpfunc v) = mset v"
  by (induction v) (simp_all add: insertion_sort_def insert_by_sorted insert_by_mset)

lemma search_lucky_sorted:
  assumes "sorted w" "length w = 64"
  shows "\<exists>found. search_lucky w 64 = Inr [found] \<and>
    (if 47 \<in> set w then \<exists>i\<ge>0. i < 64 \<and> w ! nat i = 47 \<and> found = (''found %d, at index: %d'', [47, i])
     else found = (''number not found'', []))"
proof -
  obtain r where r: "binsearch 47 w 64 = Inr r"
      "r = -1 \<and> 47 \<notin> set w \<or> 0 \<le> r \<and> r < 64 \<and> w ! nat r = 47"
    using binsearch_correct [OF assms(1), of 47] assms(2) by auto
  show ?thesis
  proof (cases "r = -1")
    case True
    then show ?thesis using r by (simp add: search_lucky_def luckynum_def)
  next
    case False
    moreover have "47 \<in> set w" using False r assms(2) nth_mem [of "nat r" w] by auto
    ultimately show ?thesis
      using r assms(2) by (auto simp: search_lucky_def luckynum_def read_int_def)
  qed
qed

text \<open>Property C20.
  The parent reads 64 numbers from any file of numbers and calls \<open>qsort\<close> with a function that calls the first of two
  elements the greater one in one order or the other, whatever \<open>qsort\<close> is: the call is not defined. A file
  with something else than a number among the first 64 entries, and a missing file, end with the messages and -1 before the
  call. What the code rests on instead: a routine that asks only whether the answer is positive does sort with
  this function, and the search through the sorted 64 numbers then says that 47 was found, at an index where it is, exactly
  when it is among them.
\<close>

theorem callexec_undefined_sort:
  assumes "0 < rc" "\<forall>n\<in>set ns. n < 2 ^ 31"
  shows "callexec_main qsort rc pid ok (Some (number_lines ns)) = Inl Bad_comparator \<and>
    (length ns < 64 \<and> \<not> isspace c \<and> \<not> isdigit c \<and> c \<noteq> CHR ''-'' \<and> c \<noteq> CHR ''+'' \<longrightarrow>
      callexec_main qsort rc pid ok (Some (number_lines ns @ c # rest)) =
        Inr ([hello_parent rc pid, (''Error parsing line'', []),
              (''Error with counting number of ints in file'', [])], Exited (-1))) \<and>
    callexec_main qsort rc pid ok None =
      Inr ([hello_parent rc pid, (''Error reading file.'', []),
            (''Error with counting number of ints in file'', [])], Exited (-1)) \<and>
    (\<forall>v. mset (insertion_sort cmpfunc v) = mset v \<and> (length v = 64 \<longrightarrow>
      (\<exists>found. search_lucky (insertion_sort cmpfunc v) 64 = Inr [found] \<and>
        (if 47 \<in> set v
         then \<exists>i\<ge>0. i < 64 \<and> insertion_sort cmpfunc v ! nat i = 47 \<and> found = (''found %d, at index: %d'', [47, i])
         else found = (''number not found'', [])))))"
proof (intro conjI impI allI)
  show "callexec_main qsort rc pid ok (Some (number_lines ns)) = Inl Bad_comparator"
    using assms readints_lines [of ns "[]" "[]" 0]
    by (simp add: callexec_main_def parent_def readints_def MAXLINES_def call_qsort_def cmpfunc_no_comparator Let_def)
next
  assume "length ns < 64 \<and> \<not> isspace c \<and> \<not> isdigit c \<and> c \<noteq> CHR ''-'' \<and> c \<noteq> CHR ''+''"
  then have "readints (Some (number_lines ns @ c # rest)) = Inr ([''Error parsing line''], -1, map int ns)"
    using assms(2) readints_bad_token [of ns "[]" "[]" c rest 0] by (simp add: readints_def)
  then show "callexec_main qsort rc pid ok (Some (number_lines ns @ c # rest)) =
      Inr ([hello_parent rc pid, (''Error parsing line'', []),
            (''Error with counting number of ints in file'', [])], Exited (-1))"
    using assms(1) by (simp add: callexec_main_def parent_def hello_parent_def)
next
  show "callexec_main qsort rc pid ok None =
      Inr ([hello_parent rc pid, (''Error reading file.'', []),
            (''Error with counting number of ints in file'', [])], Exited (-1))"
    using assms(1) by (simp add: callexec_main_def parent_def readints_def hello_parent_def)
next
  fix v
  let ?w = "insertion_sort cmpfunc v"
  have w: "sorted ?w" "mset ?w = mset v" using insertion_sort_sorts by auto
  show "mset ?w = mset v" by (rule w(2))
  assume "length v = 64"
  then have "length ?w = 64" "set ?w = set v" using w(2) mset_eq_length mset_eq_setD by metis+
  then show "\<exists>found. search_lucky ?w 64 = Inr [found] \<and>
      (if 47 \<in> set v then \<exists>i\<ge>0. i < 64 \<and> ?w ! nat i = 47 \<and> found = (''found %d, at index: %d'', [47, i])
       else found = (''number not found'', []))"
    using search_lucky_sorted [OF w(1)] by simp
qed

theorem callexec_undefined_sort_witness:
  "callexec_main insertion_sort 7 8 True (Some (number_lines [50, 47])) = Inl Bad_comparator \<and>
   callexec_main insertion_sort 7 8 True (Some (number_lines [50, 47] @ ''x'')) =
     Inr ([hello_parent 7 8, (''Error parsing line'', []),
           (''Error with counting number of ints in file'', [])], Exited (-1)) \<and>
   mset (insertion_sort cmpfunc [3, 1, 2]) = {#1, 2, 3#}"
  using callexec_undefined_sort [of 7 "[50, 47]" insertion_sort 8 True "CHR ''x''" "[]"]
  by (simp add: isspace_def isdigit_def)

end
