(* ===== verification/VecAdd.thy ===== *)
theory VecAdd
  imports Prelude
begin

text \<open>
  The five programs of \<open>src/concurrency/threads-bugs\<close>, in which threads add vectors to each other: \<open>vector_add\<close> of
  \<open>vector-deadlock.c\<close>, \<open>vector-global-order.c\<close>, \<open>vector-try-wait.c\<close>, \<open>vector-avoid-hold-and-wait.c\<close> and
  \<open>vector-nolock.c\<close>, and the worker and the \<open>main\<close> they share (\<open>main-common.c\<close>). Every thread is at a program point and a step
  executes what is there: a read of an element, its addition, its write, a lock, an unlock. The addresses of the vectors
  are their indices in the array \<open>v\<close>. What is printed is left out, the lock around it is not; the measured times are left out.
\<close>

section \<open>Data\<close>

definition MAX_THREADS :: nat where "MAX_THREADS = 100"

definition VECTOR_SIZE :: nat where "VECTOR_SIZE = 100"

text \<open>The options, with the values of \<open>main-header.h\<close> when none is given.\<close>

record options =
  nloops :: int
  verbose :: bool
  num_threads :: int
  do_timing :: bool
  cause_deadlock :: bool
  enable_parallelism :: bool

definition default_options :: options where
  "default_options = \<lparr>nloops = 1, verbose = False, num_threads = 2, do_timing = False,
     cause_deadlock = False, enable_parallelism = False\<rparr>"

record thread_arg =
  arg_tid :: nat
  vector_add_order :: nat
  vector_0 :: nat
  vector_1 :: nat

datatype lock = Print_lock | Global | Vec_lock nat

datatype wpc =
    Not_created
  | W_for | W_call | W_called | W_return | W_returned | W_next | W_done
  | A_enter | A_first | A_second | A_release | A_retry
  | A_init | A_for | A_read | A_sum | A_write | A_fetch | A_xadd
  | A_unlock1 | A_unlock2

datatype mpc = M_create nat | M_join nat | M_fini | M_done

record vsys =
  wpcs :: "nat \<Rightarrow> wpc"
  mainpc :: mpc
  iter :: "nat \<Rightarrow> int"        \<comment> \<open>\<open>i\<close> of \<open>worker\<close>\<close>
  index :: "nat \<Rightarrow> nat"       \<comment> \<open>\<open>i\<close> of \<open>vector_add\<close>\<close>
  reg :: "nat \<Rightarrow> int"         \<comment> \<open>the value a thread is computing\<close>
  owner_of :: "lock \<Rightarrow> nat option"
  vals :: "nat \<Rightarrow> int list"   \<comment> \<open>\<open>v[k].values\<close>\<close>
  retry :: int
  bad :: "fault option"

datatype tact = Main | Thread nat

section \<open>Primitives\<close>

definition goto :: "nat \<Rightarrow> wpc \<Rightarrow> vsys \<Rightarrow> vsys" where
  "goto t p s = s\<lparr>wpcs := (wpcs s)(t := p)\<rparr>"

definition mutex_lock :: "nat \<Rightarrow> lock \<Rightarrow> wpc \<Rightarrow> vsys \<Rightarrow> vsys option" where
  "mutex_lock t l p s =
     (if owner_of s l = None then Some (goto t p (s\<lparr>owner_of := (owner_of s)(l := Some t)\<rparr>)) else None)"

definition mutex_unlock :: "nat \<Rightarrow> lock \<Rightarrow> wpc \<Rightarrow> vsys \<Rightarrow> vsys option" where
  "mutex_unlock t l p s =
     (if owner_of s l = Some t then Some (goto t p (s\<lparr>owner_of := (owner_of s)(l := None)\<rparr>))
      else Some (s\<lparr>bad := Some Not_owner\<rparr>))"

text \<open>\<open>pthread_mutex_trylock\<close>: the thread goes on at \<open>p\<close> with the lock, or at \<open>q\<close> without it.\<close>

definition mutex_trylock :: "nat \<Rightarrow> lock \<Rightarrow> wpc \<Rightarrow> wpc \<Rightarrow> vsys \<Rightarrow> vsys option" where
  "mutex_trylock t l p q s =
     (if owner_of s l = None then Some (goto t p (s\<lparr>owner_of := (owner_of s)(l := Some t)\<rparr>))
      else Some (goto t q s))"

definition elem :: "nat \<Rightarrow> nat \<Rightarrow> vsys \<Rightarrow> int" where
  "elem k i s = vals s k ! i"

definition set_elem :: "nat \<Rightarrow> nat \<Rightarrow> int \<Rightarrow> vsys \<Rightarrow> vsys" where
  "set_elem k i x s = s\<lparr>vals := (vals s)(k := (vals s k)[i := x])\<rparr>"

definition set_reg :: "nat \<Rightarrow> int \<Rightarrow> vsys \<Rightarrow> vsys" where
  "set_reg t x s = s\<lparr>reg := (reg s)(t := x)\<rparr>"

definition set_index :: "nat \<Rightarrow> nat \<Rightarrow> vsys \<Rightarrow> vsys" where
  "set_index t i s = s\<lparr>index := (index s)(t := i)\<rparr>"

text \<open>
  The loop \<open>for (i = 0; i < VECTOR_SIZE; i++) v_dst->values[i] = v_dst->values[i] + v_src->values[i]\<close>, which the versions with
  locks share; \<open>A_unlock1\<close> follows it.
\<close>

definition copy_loop :: "nat \<Rightarrow> nat \<Rightarrow> nat \<Rightarrow> vsys \<Rightarrow> vsys option" where
  "copy_loop t dst src s = (let i = index s t in case wpcs s t of
       A_init \<Rightarrow> Some (goto t A_for (set_index t 0 s))
     | A_for \<Rightarrow> Some (goto t (if i < VECTOR_SIZE then A_read else A_unlock1) s)
     | A_read \<Rightarrow> Some (goto t A_sum (set_reg t (elem dst i s) s))
     | A_sum \<Rightarrow>
         if int_ok (reg s t + elem src i s)
         then Some (goto t A_write (set_reg t (reg s t + elem src i s) s))
         else Some (s\<lparr>bad := Some Int_overflow\<rparr>)
     | A_write \<Rightarrow> Some (goto t A_for (set_index t (i + 1) (set_elem dst i (reg s t) s)))
     | _ \<Rightarrow> None)"

section \<open>The five versions of vector_add\<close>

text \<open>vector-deadlock.c\<close>

definition vector_add_deadlock :: "nat \<Rightarrow> nat \<Rightarrow> nat \<Rightarrow> vsys \<Rightarrow> vsys option" where
  "vector_add_deadlock t dst src s = (case wpcs s t of
       A_enter \<Rightarrow> mutex_lock t (Vec_lock dst) A_second s
     | A_second \<Rightarrow> mutex_lock t (Vec_lock src) A_init s
     | A_unlock1 \<Rightarrow> mutex_unlock t (Vec_lock dst) A_unlock2 s
     | A_unlock2 \<Rightarrow> mutex_unlock t (Vec_lock src) W_return s
     | _ \<Rightarrow> copy_loop t dst src s)"

text \<open>vector-global-order.c\<close>

definition vector_add_global_order :: "nat \<Rightarrow> nat \<Rightarrow> nat \<Rightarrow> vsys \<Rightarrow> vsys option" where
  "vector_add_global_order t dst src s = (case wpcs s t of
       A_enter \<Rightarrow>
         if dst < src then mutex_lock t (Vec_lock dst) A_second s
         else if dst > src then mutex_lock t (Vec_lock src) A_second s
         else mutex_lock t (Vec_lock src) A_init s
     | A_second \<Rightarrow>
         if dst < src then mutex_lock t (Vec_lock src) A_init s
         else mutex_lock t (Vec_lock dst) A_init s
     | A_unlock1 \<Rightarrow> mutex_unlock t (Vec_lock src) (if dst \<noteq> src then A_unlock2 else W_return) s
     | A_unlock2 \<Rightarrow> mutex_unlock t (Vec_lock dst) W_return s
     | _ \<Rightarrow> copy_loop t dst src s)"

text \<open>vector-try-wait.c\<close>

definition vector_add_try_wait :: "nat \<Rightarrow> nat \<Rightarrow> nat \<Rightarrow> vsys \<Rightarrow> vsys option" where
  "vector_add_try_wait t dst src s = (case wpcs s t of
       A_enter \<Rightarrow> mutex_trylock t (Vec_lock dst) A_second A_enter s
     | A_second \<Rightarrow> mutex_trylock t (Vec_lock src) A_init A_retry s
     | A_retry \<Rightarrow>
         if int_ok (retry s + 1) then Some (goto t A_release (s\<lparr>retry := retry s + 1\<rparr>))
         else Some (s\<lparr>bad := Some Int_overflow\<rparr>)
     | A_release \<Rightarrow> mutex_unlock t (Vec_lock dst) A_enter s
     | A_unlock1 \<Rightarrow> mutex_unlock t (Vec_lock dst) A_unlock2 s
     | A_unlock2 \<Rightarrow> mutex_unlock t (Vec_lock src) W_return s
     | _ \<Rightarrow> copy_loop t dst src s)"

text \<open>vector-avoid-hold-and-wait.c\<close>

definition vector_add_hold_and_wait :: "nat \<Rightarrow> nat \<Rightarrow> nat \<Rightarrow> vsys \<Rightarrow> vsys option" where
  "vector_add_hold_and_wait t dst src s = (case wpcs s t of
       A_enter \<Rightarrow> mutex_lock t Global A_first s
     | A_first \<Rightarrow> mutex_lock t (Vec_lock dst) A_second s
     | A_second \<Rightarrow> mutex_lock t (Vec_lock src) A_release s
     | A_release \<Rightarrow> mutex_unlock t Global A_init s
     | A_unlock1 \<Rightarrow> mutex_unlock t (Vec_lock dst) A_unlock2 s
     | A_unlock2 \<Rightarrow> mutex_unlock t (Vec_lock src) W_return s
     | _ \<Rightarrow> copy_loop t dst src s)"

text \<open>vector-nolock.c; the \<open>xaddl\<close> instruction adds modulo \<open>2^32\<close> in one atomic step.\<close>

definition wrap_int :: "int \<Rightarrow> int" where
  "wrap_int x = (x + 2 ^ 31) mod 2 ^ 32 - 2 ^ 31"

definition fetch_and_add :: "nat \<Rightarrow> nat \<Rightarrow> int \<Rightarrow> vsys \<Rightarrow> vsys" where
  "fetch_and_add k i value s = set_elem k i (wrap_int (elem k i s + value)) s"

definition vector_add_nolock :: "nat \<Rightarrow> nat \<Rightarrow> nat \<Rightarrow> vsys \<Rightarrow> vsys option" where
  "vector_add_nolock t dst src s = (let i = index s t in case wpcs s t of
       A_enter \<Rightarrow> Some (goto t A_for (set_index t 0 s))
     | A_for \<Rightarrow> Some (goto t (if i < VECTOR_SIZE then A_fetch else W_return) s)
     | A_fetch \<Rightarrow> Some (goto t A_xadd (set_reg t (elem src i s) s))
     | A_xadd \<Rightarrow> Some (goto t A_for (set_index t (i + 1) (fetch_and_add dst i (reg s t) s)))
     | _ \<Rightarrow> None)"

section \<open>The worker and main\<close>

definition thread_args :: "options \<Rightarrow> nat \<Rightarrow> thread_arg" where
  "thread_args opts i =
     \<lparr>arg_tid = i,
      vector_add_order = (if cause_deadlock opts \<and> i mod 2 = 1 then 1 else 0),
      vector_0 = (if \<not> enable_parallelism opts then 0 else i * 2),
      vector_1 = (if \<not> enable_parallelism opts then 1 else i * 2 + 1)\<rparr>"

definition dst_of :: "options \<Rightarrow> nat \<Rightarrow> nat" where
  "dst_of opts t = (let a = thread_args opts t in if vector_add_order a = 0 then vector_0 a else vector_1 a)"

definition src_of :: "options \<Rightarrow> nat \<Rightarrow> nat" where
  "src_of opts t = (let a = thread_args opts t in if vector_add_order a = 0 then vector_1 a else vector_0 a)"

text \<open>\<open>print_info\<close>, called at the program point \<open>at\<close>; it goes on at \<open>ret\<close>.\<close>

definition print_info :: "options \<Rightarrow> nat \<Rightarrow> wpc \<Rightarrow> wpc \<Rightarrow> vsys \<Rightarrow> vsys option" where
  "print_info opts t locked ret s =
     (if \<not> verbose opts then Some (goto t ret s) else mutex_lock t Print_lock locked s)"

definition worker ::
    "(nat \<Rightarrow> nat \<Rightarrow> nat \<Rightarrow> vsys \<Rightarrow> vsys option) \<Rightarrow> options \<Rightarrow> nat \<Rightarrow> vsys \<Rightarrow> vsys option" where
  "worker vector_add opts t s = (case wpcs s t of
       Not_created \<Rightarrow> None
     | W_for \<Rightarrow> Some (goto t (if iter s t < nloops opts then W_call else W_done) s)
     | W_call \<Rightarrow> print_info opts t W_called A_enter s
     | W_called \<Rightarrow> mutex_unlock t Print_lock A_enter s
     | W_return \<Rightarrow> print_info opts t W_returned W_next s
     | W_returned \<Rightarrow> mutex_unlock t Print_lock W_next s
     | W_next \<Rightarrow> Some (goto t W_for (s\<lparr>iter := (iter s)(t := iter s t + 1)\<rparr>))
     | W_done \<Rightarrow> None
     | _ \<Rightarrow> vector_add t (dst_of opts t) (src_of opts t) s)"

definition main_step :: "options \<Rightarrow> vsys \<Rightarrow> vsys option" where
  "main_step opts s = (case mainpc s of
       M_create i \<Rightarrow>
         if int i < num_threads opts then Some (goto i W_for (s\<lparr>mainpc := M_create (i + 1)\<rparr>))
         else Some (s\<lparr>mainpc := M_join 0\<rparr>)
     | M_join i \<Rightarrow>
         if int i < num_threads opts
         then (if wpcs s i = W_done then Some (s\<lparr>mainpc := M_join (i + 1)\<rparr>) else None)
         else Some (s\<lparr>mainpc := M_fini\<rparr>)
     | M_fini \<Rightarrow> Some (s\<lparr>mainpc := M_done\<rparr>)
     | M_done \<Rightarrow> None)"

definition vec_step ::
    "(nat \<Rightarrow> nat \<Rightarrow> nat \<Rightarrow> vsys \<Rightarrow> vsys option) \<Rightarrow> options \<Rightarrow> tact \<Rightarrow> vsys \<Rightarrow> vsys option" where
  "vec_step vector_add opts a s =
     (if bad s \<noteq> None then None
      else case a of Main \<Rightarrow> main_step opts s | Thread t \<Rightarrow> worker vector_add opts t s)"

definition vector_init :: "int \<Rightarrow> int list" where
  "vector_init value = replicate VECTOR_SIZE value"

definition initial :: vsys where
  "initial = \<lparr>wpcs = (\<lambda>_. Not_created), mainpc = M_create 0, iter = (\<lambda>_. 0), index = (\<lambda>_. 0), reg = (\<lambda>_. 0),
     owner_of = (\<lambda>_. None), vals = (\<lambda>k. vector_init (int k)), retry = 0, bad = None\<rparr>"

definition vec_start :: "options \<Rightarrow> vsys \<Rightarrow> bool" where
  "vec_start opts s \<longleftrightarrow> num_threads opts < int MAX_THREADS \<and> s = initial"

definition finished :: "vsys \<Rightarrow> bool" where
  "finished s \<longleftrightarrow> mainpc s = M_done"

end
