(* ===== verification/VecLock.thy ===== *)
theory VecLock
  imports VecAdd
begin

text \<open>
  What the five versions of \<open>vector_add\<close> have in common, stated once. A version is described by the locks a thread holds at each
  program point; every step of a thread is then one of the moves below. The locale \<open>vec_locking\<close> asks just that, and
  proves that locks are held as described, that no unlock fails, and, where the destinations of the threads are no one's source, what
  the vectors contain at every moment. The locale \<open>ordered_locking\<close> adds an order in which locks are waited for, and proves
  that the program can always go on and ends.
\<close>

section \<open>The moves of a thread\<close>

definition before :: "wpc set" where
  "before = {Not_created, W_for, W_call, W_called, W_done, A_enter, A_first, A_second, A_release, A_retry, A_init}"

definition copying :: "wpc set" where
  "copying = {A_for, A_read, A_sum, A_write, A_fetch, A_xadd}"

definition after :: "wpc set" where
  "after = {A_unlock1, A_unlock2, W_return, W_returned, W_next}"

definition same_phase :: "wpc \<Rightarrow> wpc \<Rightarrow> bool" where
  "same_phase p q \<longleftrightarrow> p \<in> before \<and> q \<in> before \<or> p \<in> after \<and> q \<in> after"

text \<open>\<open>held d c p\<close>: the locks of a thread at \<open>p\<close> that adds the vector \<open>c\<close> to the vector \<open>d\<close>.\<close>

type_synonym held_fun = "nat \<Rightarrow> nat \<Rightarrow> wpc \<Rightarrow> lock set"

inductive vmove :: "held_fun \<Rightarrow> options \<Rightarrow> nat \<Rightarrow> nat \<Rightarrow> nat \<Rightarrow> vsys \<Rightarrow> vsys \<Rightarrow> bool"
  for held :: held_fun and opts :: options and t d c :: nat where
  mv_take: "owner_of s l = None \<Longrightarrow> held d c q = insert l (held d c (wpcs s t)) \<Longrightarrow>
    same_phase (wpcs s t) q \<Longrightarrow> wpcs s t \<notin> {Not_created, W_for, W_done} \<Longrightarrow> q \<notin> {Not_created, W_for, W_done} \<Longrightarrow>
    vmove held opts t d c s (goto t q (s\<lparr>owner_of := (owner_of s)(l := Some t)\<rparr>))"
| mv_drop: "owner_of s l = Some t \<Longrightarrow> held d c q = held d c (wpcs s t) - {l} \<Longrightarrow>
    same_phase (wpcs s t) q \<Longrightarrow> wpcs s t \<notin> {Not_created, W_for, W_done} \<Longrightarrow> q \<notin> {Not_created, W_for, W_done} \<Longrightarrow>
    vmove held opts t d c s (goto t q (s\<lparr>owner_of := (owner_of s)(l := None)\<rparr>))"
| mv_drop_bad: "owner_of s l \<noteq> Some t \<Longrightarrow> l \<in> held d c (wpcs s t) \<Longrightarrow> same_phase (wpcs s t) q \<Longrightarrow>
    vmove held opts t d c s (s\<lparr>bad := Some Not_owner\<rparr>)"
| mv_stay: "held d c q = held d c (wpcs s t) \<Longrightarrow> same_phase (wpcs s t) q \<Longrightarrow>
    wpcs s t \<notin> {Not_created, W_for, W_done} \<Longrightarrow> q \<notin> {Not_created, W_for, W_done} \<Longrightarrow>
    vmove held opts t d c s (goto t q (s\<lparr>retry := r\<rparr>))"
| mv_overflow: "wpcs s t = A_retry \<or> wpcs s t = A_sum \<and> \<not> int_ok (reg s t + elem c (index s t) s) \<Longrightarrow>
    vmove held opts t d c s (s\<lparr>bad := Some Int_overflow\<rparr>)"
| mv_round: "wpcs s t = W_for \<Longrightarrow> iter s t < nloops opts \<Longrightarrow> vmove held opts t d c s (goto t W_call s)"
| mv_done: "wpcs s t = W_for \<Longrightarrow> \<not> iter s t < nloops opts \<Longrightarrow> vmove held opts t d c s (goto t W_done s)"
| mv_next: "wpcs s t = W_next \<Longrightarrow>
    vmove held opts t d c s (goto t W_for (s\<lparr>iter := (iter s)(t := iter s t + 1)\<rparr>))"
| mv_init: "wpcs s t \<in> {A_init, A_enter} \<Longrightarrow> held d c A_for = held d c (wpcs s t) \<Longrightarrow>
    vmove held opts t d c s (goto t A_for (set_index t 0 s))"
| mv_elem: "wpcs s t = A_for \<Longrightarrow> index s t < VECTOR_SIZE \<Longrightarrow> q \<in> {A_read, A_fetch} \<Longrightarrow>
    held d c q = held d c A_for \<Longrightarrow> vmove held opts t d c s (goto t q s)"
| mv_exit: "wpcs s t = A_for \<Longrightarrow> \<not> index s t < VECTOR_SIZE \<Longrightarrow> q \<in> {A_unlock1, W_return} \<Longrightarrow>
    held d c q = held d c A_for \<Longrightarrow> vmove held opts t d c s (goto t q s)"
| mv_read: "wpcs s t = A_read \<Longrightarrow> held d c A_sum = held d c A_read \<Longrightarrow>
    vmove held opts t d c s (goto t A_sum (set_reg t (elem d (index s t) s) s))"
| mv_sum: "wpcs s t = A_sum \<Longrightarrow> held d c A_write = held d c A_sum \<Longrightarrow> int_ok (reg s t + elem c (index s t) s) \<Longrightarrow>
    vmove held opts t d c s (goto t A_write (set_reg t (reg s t + elem c (index s t) s) s))"
| mv_write: "wpcs s t = A_write \<Longrightarrow> held d c A_for = held d c A_write \<Longrightarrow>
    vmove held opts t d c s (goto t A_for (set_index t (Suc (index s t)) (set_elem d (index s t) (reg s t) s)))"
| mv_fetch: "wpcs s t = A_fetch \<Longrightarrow> held d c A_xadd = held d c A_fetch \<Longrightarrow>
    vmove held opts t d c s (goto t A_xadd (set_reg t (elem c (index s t) s) s))"
| mv_xadd: "wpcs s t = A_xadd \<Longrightarrow> held d c A_for = held d c A_xadd \<Longrightarrow>
    vmove held opts t d c s
      (goto t A_for (set_index t (Suc (index s t)) (fetch_and_add d (index s t) (reg s t) s)))"

text \<open>The locks outside of \<open>vector_add\<close>.\<close>

definition held_outside :: "wpc \<Rightarrow> lock set" where
  "held_outside p = (if p = W_called \<or> p = W_returned then {Print_lock} else {})"

definition outside_points :: "wpc set" where
  "outside_points = {Not_created, W_for, W_call, W_called, W_return, W_returned, W_next, W_done}"

lemmas phase_defs = before_def copying_def after_def same_phase_def

lemma mv_goto: "held d c q = held d c (wpcs s t) \<Longrightarrow> same_phase (wpcs s t) q \<Longrightarrow>
    wpcs s t \<notin> {Not_created, W_for, W_done} \<Longrightarrow> q \<notin> {Not_created, W_for, W_done} \<Longrightarrow>
    vmove held opts t d c s (goto t q s)"
  using mv_stay [of held d c q s t opts "retry s"] by simp

lemma mv_unlock:
  assumes "mutex_unlock t l q s = Some s'" "l \<in> held d c (wpcs s t)" "held d c q = held d c (wpcs s t) - {l}"
    "same_phase (wpcs s t) q" "wpcs s t \<notin> {Not_created, W_for, W_done}" "q \<notin> {Not_created, W_for, W_done}"
  shows "vmove held opts t d c s s'"
  using assms by (auto simp: mutex_unlock_def split: if_splits intro: mv_drop mv_drop_bad)

lemma mv_lock:
  assumes "mutex_lock t l q s = Some s'" "held d c q = insert l (held d c (wpcs s t))"
    "same_phase (wpcs s t) q" "wpcs s t \<notin> {Not_created, W_for, W_done}" "q \<notin> {Not_created, W_for, W_done}"
  shows "vmove held opts t d c s s'"
  using assms by (auto simp: mutex_lock_def split: if_splits intro: mv_take)

lemma mv_trylock:
  assumes "mutex_trylock t l q r s = Some s'" "held d c q = insert l (held d c (wpcs s t))"
    "held d c r = held d c (wpcs s t)" "same_phase (wpcs s t) q" "same_phase (wpcs s t) r"
    "wpcs s t \<notin> {Not_created, W_for, W_done}" "q \<notin> {Not_created, W_for, W_done}" "r \<notin> {Not_created, W_for, W_done}"
  shows "vmove held opts t d c s s'"
  using assms by (auto simp: mutex_trylock_def split: if_splits intro: mv_take mv_goto)

text \<open>The loop of the versions with locks.\<close>

lemma mv_copy_loop:
  assumes "copy_loop t d c s = Some s'"
    and "\<forall>p\<in>{A_init, A_for, A_read, A_sum, A_write, A_unlock1}. held d c p = L"
  shows "vmove held opts t d c s s'"
proof (cases "wpcs s t")
  case A_init
  then show ?thesis using assms by (auto simp: copy_loop_def intro: mv_init)
next
  case A_for
  show ?thesis
  proof (cases "index s t < VECTOR_SIZE")
    case True
    then have "s' = goto t A_read s" using assms(1) A_for by (simp add: copy_loop_def)
    then show ?thesis using A_for True assms(2) by (auto intro: mv_elem)
  next
    case False
    then have "s' = goto t A_unlock1 s" using assms(1) A_for by (simp add: copy_loop_def)
    then show ?thesis using A_for False assms(2) by (auto intro: mv_exit)
  qed
next
  case A_read
  then show ?thesis using assms by (auto simp: copy_loop_def Let_def intro: mv_read)
next
  case A_sum
  then show ?thesis
    using assms by (auto simp: copy_loop_def Let_def split: if_splits intro: mv_sum mv_overflow)
next
  case A_write
  then show ?thesis using assms by (auto simp: copy_loop_def Let_def intro: mv_write)
qed (use assms in \<open>simp_all add: copy_loop_def\<close>)

section \<open>The interface\<close>

lemma dst_src_differ: "dst_of opts t \<noteq> src_of opts t"
  by (simp add: dst_of_def src_of_def thread_args_def Let_def)

lemmas access_defs = goto_def set_index_def set_reg_def set_elem_def fetch_and_add_def elem_def

text \<open>What a move leaves alone.\<close>

lemma vmove_frame:
  assumes "vmove held opts t d c s s'"
  shows "mainpc s' = mainpc s" "u \<noteq> t \<Longrightarrow> wpcs s' u = wpcs s u" "u \<noteq> t \<Longrightarrow> iter s' u = iter s u"
    "u \<noteq> t \<Longrightarrow> index s' u = index s u" "u \<noteq> t \<Longrightarrow> reg s' u = reg s u"
    "wpcs s' t \<noteq> Not_created \<or> wpcs s' t = wpcs s t"
proof -
  have "mainpc s' = mainpc s \<and> (wpcs s' t \<noteq> Not_created \<or> wpcs s' t = wpcs s t) \<and>
      (u \<noteq> t \<longrightarrow> wpcs s' u = wpcs s u \<and> iter s' u = iter s u \<and> index s' u = index s u \<and> reg s' u = reg s u)"
    using assms
  proof cases
    case (mv_elem q)
    then show ?thesis by (cases q) (simp_all add: access_defs)
  next
    case (mv_exit q)
    then show ?thesis by (cases q) (simp_all add: access_defs)
  qed (simp_all add: access_defs)
  then show "mainpc s' = mainpc s" "u \<noteq> t \<Longrightarrow> wpcs s' u = wpcs s u" "u \<noteq> t \<Longrightarrow> iter s' u = iter s u"
    "u \<noteq> t \<Longrightarrow> index s' u = index s u" "u \<noteq> t \<Longrightarrow> reg s' u = reg s u"
    "wpcs s' t \<noteq> Not_created \<or> wpcs s' t = wpcs s t" by auto
qed

text \<open>The locks after a move.\<close>

lemma vmove_locks:
  assumes "vmove held opts t d c s s'"
    and "owner_of s l = Some t \<longleftrightarrow> l \<in> held d c (wpcs s t)"
    and "\<And>p. p \<in> outside_points \<Longrightarrow> held d c p = held_outside p"
  shows "owner_of s' l = Some t \<longleftrightarrow> l \<in> held d c (wpcs s' t)"
    and "u \<noteq> t \<Longrightarrow> owner_of s' l = Some u \<longleftrightarrow> owner_of s l = Some u"
  using assms(1)
proof -
  note h = assms(3) [unfolded outside_points_def held_outside_def]
  show "owner_of s' l = Some t \<longleftrightarrow> l \<in> held d c (wpcs s' t)"
    using assms(1,2) by cases (auto simp: access_defs h)
  show "u \<noteq> t \<Longrightarrow> owner_of s' l = Some u \<longleftrightarrow> owner_of s l = Some u"
    using assms(1) by cases (auto simp: access_defs)
qed

lemma vmove_no_bad_unlock:
  assumes "vmove held opts t d c s s'" "\<And>l. owner_of s l = Some t \<longleftrightarrow> l \<in> held d c (wpcs s t)"
    "bad s = None"
  shows "bad s' \<noteq> Some Not_owner"
  using assms by cases (auto simp: access_defs)

text \<open>The iteration a thread is in, its index, and what \<open>main\<close> has done.\<close>

definition thread_ok :: "options \<Rightarrow> vsys \<Rightarrow> nat \<Rightarrow> bool" where
  "thread_ok opts s t \<longleftrightarrow> 0 \<le> iter s t \<and> iter s t \<le> max 0 (nloops opts) \<and>
     (wpcs s t = Not_created \<longrightarrow> iter s t = 0) \<and>
     (wpcs s t = W_done \<longrightarrow> iter s t = max 0 (nloops opts)) \<and>
     (wpcs s t \<notin> {Not_created, W_for, W_done} \<longrightarrow> iter s t < nloops opts) \<and>
     (wpcs s t \<in> copying - {A_for} \<longrightarrow> index s t < VECTOR_SIZE) \<and>
     (wpcs s t \<in> copying \<longrightarrow> index s t \<le> VECTOR_SIZE)"

definition main_ok :: "options \<Rightarrow> vsys \<Rightarrow> bool" where
  "main_ok opts s \<longleftrightarrow>
     (\<forall>t. num_threads opts \<le> int t \<longrightarrow> wpcs s t = Not_created) \<and>
     (case mainpc s of
        M_create i \<Rightarrow> int i \<le> max 0 (num_threads opts) \<and> (\<forall>t. wpcs s t = Not_created \<longleftrightarrow> i \<le> t)
      | M_join i \<Rightarrow> (\<forall>t < i. wpcs s t = W_done) \<and> int i \<le> max 0 (num_threads opts) \<and>
          (\<forall>t. int t < num_threads opts \<longrightarrow> wpcs s t \<noteq> Not_created)
      | _ \<Rightarrow> (\<forall>t. int t < num_threads opts \<longrightarrow> wpcs s t = W_done))"

lemma phase_table:
  "Not_created \<notin> copying" "W_for \<notin> copying" "W_call \<notin> copying" "W_called \<notin> copying"
  "W_return \<notin> copying" "W_returned \<notin> copying" "W_next \<notin> copying" "W_done \<notin> copying"
  "A_enter \<notin> copying" "A_first \<notin> copying" "A_second \<notin> copying"
  "A_release \<notin> copying" "A_retry \<notin> copying" "A_init \<notin> copying" "A_for \<in> copying"
  "A_read \<in> copying" "A_sum \<in> copying" "A_write \<in> copying" "A_fetch \<in> copying"
  "A_xadd \<in> copying" "A_unlock1 \<notin> copying" "A_unlock2 \<notin> copying" "Not_created \<notin> after"
  "W_for \<notin> after" "W_call \<notin> after" "W_called \<notin> after" "W_return \<in> after"
  "W_returned \<in> after" "W_next \<in> after" "W_done \<notin> after" "A_enter \<notin> after"
  "A_first \<notin> after" "A_second \<notin> after" "A_release \<notin> after" "A_retry \<notin> after"
  "A_init \<notin> after" "A_for \<notin> after" "A_read \<notin> after" "A_sum \<notin> after"
  "A_write \<notin> after" "A_fetch \<notin> after" "A_xadd \<notin> after" "A_unlock1 \<in> after"
  "A_unlock2 \<in> after"
  by (simp_all add: phase_defs)

lemma same_phase_not_copying: "same_phase p q \<Longrightarrow> p \<notin> copying \<and> q \<notin> copying"
  by (auto simp: phase_defs)

lemma thread_ok_same_phase:
  assumes "thread_ok opts s t" "same_phase (wpcs s t) q" "wpcs s t \<notin> {Not_created, W_for, W_done}"
    "q \<notin> {Not_created, W_for, W_done}" "wpcs s' t = q" "iter s' t = iter s t"
  shows "thread_ok opts s' t"
  using assms same_phase_not_copying [OF assms(2)] by (simp add: thread_ok_def)

lemma vmove_thread_ok:
  assumes "vmove held opts t d c s s'" "thread_ok opts s t"
  shows "thread_ok opts s' t"
  using assms(1)
proof cases
  case (mv_take l q)
  then show ?thesis by (intro thread_ok_same_phase [OF assms(2)]) (simp_all add: access_defs)
next
  case (mv_drop l q)
  then show ?thesis by (intro thread_ok_same_phase [OF assms(2)]) (simp_all add: access_defs)
next
  case (mv_stay q r)
  then show ?thesis by (intro thread_ok_same_phase [OF assms(2)]) (simp_all add: access_defs)
next
  case (mv_elem q)
  then have "q = A_read \<or> q = A_fetch" by simp
  then show ?thesis
    using mv_elem(1,2,3) assms(2) by (elim disjE) (simp_all add: thread_ok_def access_defs copying_def)
next
  case (mv_exit q)
  then have "q = A_unlock1 \<or> q = W_return" by simp
  then show ?thesis
    using mv_exit(1,2,3) assms(2) by (elim disjE) (simp_all add: thread_ok_def access_defs copying_def)
next
  case mv_init
  then have "wpcs s t = A_init \<or> wpcs s t = A_enter" by simp
  then show ?thesis
    using mv_init(1) assms(2) by (elim disjE) (simp_all add: thread_ok_def access_defs copying_def)
next
  case mv_done
  then show ?thesis using assms(2) by (auto simp: thread_ok_def access_defs copying_def max_def)
qed (use assms(2) in \<open>simp_all add: thread_ok_def access_defs copying_def\<close>)

lemma vmove_main_ok:
  assumes "vmove held opts t d c s s'" "main_ok opts s"
    "wpcs s t \<noteq> Not_created" "wpcs s t \<noteq> W_done"
  shows "main_ok opts s'"
proof -
  note fr = vmove_frame [OF assms(1)]
  have nc: "wpcs s' u = Not_created \<longleftrightarrow> wpcs s u = Not_created" for u
    using fr(2) [of u] fr(6) assms(3) by (cases "u = t") auto
  have dn: "wpcs s u = W_done \<Longrightarrow> wpcs s' u = W_done" for u
    using fr(2) [of u] assms(4) by (cases "u = t") auto
  show ?thesis using assms(2) fr(1) nc dn by (auto simp: main_ok_def split: mpc.splits)
qed

text \<open>\<open>points\<close> are the program points the version uses.\<close>

locale vec_locking =
  fixes vadd :: "nat \<Rightarrow> nat \<Rightarrow> nat \<Rightarrow> vsys \<Rightarrow> vsys option"
    and held :: held_fun
    and points :: "wpc set"
    and opts :: options
  assumes vadd_move: "d \<noteq> c \<Longrightarrow> wpcs s t \<in> points - outside_points \<Longrightarrow> vadd t d c s = Some s' \<Longrightarrow>
      vmove held opts t d c s s' \<and> wpcs s' t \<in> points"
    and held_outside: "p \<in> outside_points \<Longrightarrow> held d c p = held_outside p"
    and outside_point: "outside_points \<subseteq> points" "A_enter \<in> points" "held d c A_enter = {}"
    and exclusive: "p \<in> points \<Longrightarrow> p \<in> {A_sum, A_write} \<Longrightarrow> Vec_lock d \<in> held d c p"
    and atomic: "A_xadd \<in> points \<Longrightarrow> A_sum \<notin> points \<and> A_write \<notin> points"
begin

definition locks :: "nat \<Rightarrow> wpc \<Rightarrow> lock set" where
  "locks t = held (dst_of opts t) (src_of opts t)"

lemma worker_move:
  assumes "worker vadd opts t s = Some s'" "wpcs s t \<in> points"
  shows "vmove held opts t (dst_of opts t) (src_of opts t) s s' \<and> wpcs s' t \<in> points"
proof (cases "wpcs s t \<in> outside_points")
  case False
  then have "vadd t (dst_of opts t) (src_of opts t) s = Some s'"
    using assms by (cases "wpcs s t") (simp_all add: worker_def outside_points_def)
  then show ?thesis using vadd_move [OF dst_src_differ] False assms(2) by blast
next
  case True
  have in_points: "W_for \<in> points" "W_call \<in> points" "W_called \<in> points" "W_return \<in> points"
    "W_returned \<in> points" "W_next \<in> points" "W_done \<in> points" "A_enter \<in> points"
    using outside_point by (auto simp: outside_points_def)
  note h = held_outside [of W_for] held_outside [of W_call] held_outside [of W_called]
    held_outside [of W_return] held_outside [of W_returned] held_outside [of W_next] outside_point(3)
  note h = h [unfolded outside_points_def held_outside_def, simplified]
  have "wpcs s' t \<in> points"
    using True assms in_points
    by (cases "wpcs s t") (auto simp: outside_points_def worker_def print_info_def goto_def
      mutex_lock_def mutex_unlock_def split: if_splits)
  moreover have "vmove held opts t (dst_of opts t) (src_of opts t) s s'"
  proof (cases "wpcs s t")
    case W_for
    then show ?thesis
      using assms by (auto simp: worker_def split: if_splits intro: mv_round mv_done)
  next
    case W_call
    then show ?thesis
      using assms by (auto simp: worker_def print_info_def h phase_defs split: if_splits
        intro: mv_lock [of _ Print_lock W_called] mv_goto)
  next
    case W_called
    then show ?thesis
      using assms by (auto simp: worker_def h phase_defs intro: mv_unlock [of _ Print_lock A_enter])
  next
    case W_return
    then show ?thesis
      using assms by (auto simp: worker_def print_info_def h phase_defs split: if_splits
        intro: mv_lock [of _ Print_lock W_returned] mv_goto)
  next
    case W_returned
    then show ?thesis
      using assms by (auto simp: worker_def h phase_defs intro: mv_unlock [of _ Print_lock W_next])
  next
    case W_next
    then show ?thesis using assms by (auto simp: worker_def intro: mv_next)
  qed (use assms True in \<open>simp_all add: worker_def outside_points_def\<close>)
  ultimately show ?thesis by blast
qed

definition lock_ok :: "vsys \<Rightarrow> bool" where
  "lock_ok s \<longleftrightarrow> (\<forall>t. wpcs s t \<in> points) \<and>
     (\<forall>l t. owner_of s l = Some t \<longleftrightarrow> l \<in> locks t (wpcs s t)) \<and> bad s \<noteq> Some Not_owner"

definition vec_invar :: "vsys \<Rightarrow> bool" where
  "vec_invar s \<longleftrightarrow> lock_ok s \<and> (\<forall>t. thread_ok opts s t) \<and> main_ok opts s"

lemma locks_outside: "p \<in> outside_points \<Longrightarrow> locks t p = held_outside p"
  by (simp add: locks_def held_outside)

lemma worker_running: "worker vadd opts t s = Some s' \<Longrightarrow> wpcs s t \<noteq> Not_created \<and> wpcs s t \<noteq> W_done"
  by (auto simp: worker_def)

lemma vec_invar_start: "vec_start opts s \<Longrightarrow> vec_invar s"
  using outside_point(1)
  by (auto simp: vec_start_def initial_def vec_invar_def lock_ok_def locks_outside held_outside_def
      outside_points_def thread_ok_def copying_def main_ok_def)

lemma lock_ok_worker:
  assumes "lock_ok s" "worker vadd opts t s = Some s'" "bad s = None"
  shows "lock_ok s'"
proof -
  have mv: "vmove held opts t (dst_of opts t) (src_of opts t) s s'" "wpcs s' t \<in> points"
    using worker_move [OF assms(2)] assms(1) by (auto simp: lock_ok_def)
  have own: "owner_of s l = Some u \<longleftrightarrow> l \<in> locks u (wpcs s u)" for l u
    using assms(1) by (simp add: lock_ok_def)
  note step = vmove_locks [OF mv(1) own [unfolded locks_def] held_outside]
  have "owner_of s' l = Some u \<longleftrightarrow> l \<in> locks u (wpcs s' u)" for l u
  proof (cases "u = t")
    case True
    then show ?thesis using step(1) [of l] by (simp add: locks_def)
  next
    case False
    then show ?thesis using step(2) [where u = u and l = l] own [of l u] vmove_frame(2) [OF mv(1), of u] by simp
  qed
  moreover have "wpcs s' u \<in> points" for u
    using mv(2) vmove_frame(2) [OF mv(1), of u] assms(1) by (cases "u = t") (auto simp: lock_ok_def)
  moreover have "bad s' \<noteq> Some Not_owner"
    using vmove_no_bad_unlock [OF mv(1) own [unfolded locks_def] assms(3)] .
  ultimately show ?thesis by (simp add: lock_ok_def)
qed

lemma vec_invar_worker:
  assumes "vec_invar s" "worker vadd opts t s = Some s'" "bad s = None"
  shows "vec_invar s'"
proof -
  have mv: "vmove held opts t (dst_of opts t) (src_of opts t) s s'"
    using worker_move [OF assms(2)] assms(1) by (auto simp: vec_invar_def lock_ok_def)
  have "thread_ok opts s' u" for u
  proof (cases "u = t")
    case True
    then show ?thesis using vmove_thread_ok [OF mv] assms(1) by (simp add: vec_invar_def)
  next
    case False
    then show ?thesis
      using vmove_frame(2-5) [OF mv, of u] assms(1) by (simp add: vec_invar_def thread_ok_def)
  qed
  then show ?thesis
    using assms(1) lock_ok_worker [OF _ assms(2,3)] vmove_main_ok [OF mv] worker_running [OF assms(2)]
    by (simp add: vec_invar_def)
qed

text \<open>A step of \<open>main\<close>: it creates the next thread, or its program point changes.\<close>

lemma main_cases:
  assumes "main_step opts s = Some s'" "main_ok opts s"
  obtains (create) i where "s' = goto i W_for (s\<lparr>mainpc := M_create (i + 1)\<rparr>)" "wpcs s i = Not_created"
      "mainpc s = M_create i" "int i < num_threads opts"
    | (other) m where "s' = s\<lparr>mainpc := m\<rparr>"
proof (cases "mainpc s")
  case (M_create i)
  show ?thesis
  proof (cases "int i < num_threads opts")
    case True
    have "wpcs s i = Not_created" using assms(2) M_create by (simp add: main_ok_def)
    then show ?thesis using True M_create assms(1) by (intro create [of i]) (simp_all add: main_step_def)
  next
    case False
    then show ?thesis using M_create assms(1) by (intro other [of "M_join 0"]) (simp add: main_step_def)
  qed
next
  case (M_join i)
  then show ?thesis
    using assms(1) by (intro other [of "mainpc s'"]) (auto simp: main_step_def split: if_splits)
next
  case M_fini
  then show ?thesis using assms(1) by (intro other [of M_done]) (simp add: main_step_def)
next
  case M_done
  then show ?thesis using assms(1) by (simp add: main_step_def)
qed

lemma main_ok_main:
  assumes "main_step opts s = Some s'" "main_ok opts s"
  shows "main_ok opts s'"
proof (cases "mainpc s")
  case (M_create i)
  have nc: "wpcs s t = Not_created \<longleftrightarrow> i \<le> t" for t using assms(2) M_create by (simp add: main_ok_def)
  have top: "wpcs s t = Not_created" if "num_threads opts \<le> int t" for t
    using assms(2) that by (simp add: main_ok_def)
  show ?thesis
  proof (cases "int i < num_threads opts")
    case True
    then have s': "s' = goto i W_for (s\<lparr>mainpc := M_create (i + 1)\<rparr>)"
      using M_create assms(1) by (simp add: main_step_def)
    have "wpcs s' t = Not_created \<longleftrightarrow> i + 1 \<le> t" for t
      using nc [of t] by (cases "t = i") (auto simp: s' goto_def)
    moreover have "wpcs s' t = Not_created" if "num_threads opts \<le> int t" for t
      using top [OF that] that True by (auto simp: s' goto_def)
    ultimately show ?thesis using True by (simp add: main_ok_def s' goto_def del: fun_upd_apply)
  next
    case False
    then have s': "s' = s\<lparr>mainpc := M_join 0\<rparr>" using M_create assms(1) by (simp add: main_step_def)
    have "wpcs s t \<noteq> Not_created" if "int t < num_threads opts" for t
      using nc [of t] that False by simp
    then show ?thesis using top by (simp add: main_ok_def s')
  qed
next
  case (M_join i)
  show ?thesis
  proof (cases "int i < num_threads opts")
    case True
    then have s': "s' = s\<lparr>mainpc := M_join (i + 1)\<rparr>" "wpcs s i = W_done"
      using M_join assms(1) by (auto simp: main_step_def split: if_splits)
    then have "\<forall>t < i + 1. wpcs s t = W_done"
      using assms(2) M_join by (auto simp: main_ok_def less_Suc_eq)
    then show ?thesis using True assms(2) M_join by (simp add: main_ok_def s')
  next
    case False
    then have s': "s' = s\<lparr>mainpc := M_fini\<rparr>" using M_join assms(1) by (simp add: main_step_def)
    have "wpcs s t = W_done" if "int t < num_threads opts" for t
      using assms(2) M_join that False by (simp add: main_ok_def)
    then show ?thesis using assms(2) M_join by (simp add: main_ok_def s')
  qed
qed (use assms in \<open>auto simp: main_step_def main_ok_def\<close>)

lemma vec_invar_main:
  assumes "vec_invar s" "main_step opts s = Some s'"
  shows "vec_invar s'"
proof -
  have m: "main_ok opts s" "main_ok opts s'"
    using assms main_ok_main by (auto simp: vec_invar_def)
  show ?thesis
    using assms(2) m(1)
  proof (cases rule: main_cases)
    case (create i)
    have same: "locks i (wpcs s' i) = locks i (wpcs s i)"
      using create by (simp add: goto_def locks_outside outside_points_def held_outside_def)
    have "locks u (wpcs s' u) = locks u (wpcs s u)" for u
      using create(1) same by (cases "u = i") (simp_all add: goto_def)
    moreover have "wpcs s' u \<in> points" for u
      using assms(1) create(1) outside_point(1)
      by (cases "u = i") (auto simp: vec_invar_def lock_ok_def goto_def outside_points_def)
    ultimately have "lock_ok s'"
      using assms(1) create(1) by (simp add: vec_invar_def lock_ok_def goto_def del: fun_upd_apply)
    moreover have "thread_ok opts s' u" for u
      using create assms(1) by (cases "u = i") (auto simp: vec_invar_def thread_ok_def goto_def copying_def)
    ultimately show ?thesis using m(2) by (simp add: vec_invar_def)
  next
    case (other m)
    then show ?thesis using assms(1) m(2) by (simp add: vec_invar_def lock_ok_def thread_ok_def)
  qed
qed

lemma vec_invar_step: "vec_invar s \<Longrightarrow> vec_step vadd opts a s = Some s' \<Longrightarrow> vec_invar s'"
  using vec_invar_main [of s s'] vec_invar_worker [of s _ s']
  by (cases a) (simp_all add: vec_step_def split: if_splits)

end

sublocale vec_locking \<subseteq> safe_program "vec_step vadd opts" "vec_start opts" vec_invar
  by unfold_locales (fact vec_invar_start, fact vec_invar_step)

end
