(* ===== verification/VecSums.thy ===== *)
theory VecSums
  imports VecLock
begin

text \<open>
  What the vectors contain at every moment, for threads that never write what another one reads (no option \<open>-d\<close>): the element \<open>j\<close>
  of the vector \<open>k\<close> is its initial value \<open>k\<close> and as often \<open>k + 1\<close>, the value of its neighbour, as threads have added at \<open>j\<close>. No
  addition is lost, whichever version of \<open>vector_add\<close> is used.
\<close>

section \<open>Counting additions\<close>

text \<open>How often the thread \<open>t\<close> has added at the index \<open>j\<close>.\<close>

definition adds :: "nat \<Rightarrow> nat \<Rightarrow> vsys \<Rightarrow> int" where
  "adds t j s = iter s t + of_bool (wpcs s t \<in> after \<or> wpcs s t \<in> copying \<and> j < index s t)"

definition writing :: "wpc \<Rightarrow> bool" where
  "writing p \<longleftrightarrow> p = A_write \<or> p = A_xadd"

lemma same_phase_after: "same_phase p q \<Longrightarrow> p \<in> after \<longleftrightarrow> q \<in> after"
  by (auto simp: phase_defs)

lemma not_after_copying [simp]: "p \<in> copying \<Longrightarrow> p \<notin> after"
  by (auto simp: phase_defs)

lemma adds_same_phase:
  assumes "same_phase (wpcs s t) q" "wpcs s' t = q" "iter s' t = iter s t"
  shows "adds t j s' = adds t j s"
  using assms same_phase_after [OF assms(1)] same_phase_not_copying [OF assms(1)] by (simp add: adds_def)

lemma writing_copying: "writing p \<Longrightarrow> p \<in> copying"
  by (auto simp: writing_def phase_table)

lemma vmove_adds:
  assumes "vmove held opts t d c s s'" "thread_ok opts s t" "j < VECTOR_SIZE"
  shows "\<not> writing (wpcs s t) \<Longrightarrow> adds t j s' = adds t j s \<and> vals s' = vals s"
    and "writing (wpcs s t) \<Longrightarrow> adds t j s' = adds t j s + of_bool (j = index s t)"
proof -
  assume nw: "\<not> writing (wpcs s t)"
  show "adds t j s' = adds t j s \<and> vals s' = vals s"
    using assms(1)
  proof cases
    case (mv_take l q)
    then have "adds t j s' = adds t j s" by (intro adds_same_phase [of s t q]) (simp_all add: access_defs)
    then show ?thesis using mv_take(1) by (simp add: access_defs)
  next
    case (mv_drop l q)
    then have "adds t j s' = adds t j s" by (intro adds_same_phase [of s t q]) (simp_all add: access_defs)
    then show ?thesis using mv_drop(1) by (simp add: access_defs)
  next
    case (mv_stay q r)
    then have "adds t j s' = adds t j s" by (intro adds_same_phase [of s t q]) (simp_all add: access_defs)
    then show ?thesis using mv_stay(1) by (simp add: access_defs)
  next
    case mv_init
    then have "wpcs s t = A_init \<or> wpcs s t = A_enter" by simp
    then show ?thesis using mv_init(1) by (elim disjE) (simp_all add: adds_def access_defs phase_table)
  next
    case (mv_elem q)
    then have "q = A_read \<or> q = A_fetch" by simp
    then show ?thesis using mv_elem(1,2) by (elim disjE) (simp_all add: adds_def access_defs phase_table)
  next
    case (mv_exit q)
    then have "q = A_unlock1 \<or> q = W_return" "j < index s t" using assms(3) by auto
    then show ?thesis using mv_exit(1,2) by (elim disjE) (simp_all add: adds_def access_defs phase_table)
  next
    case mv_write
    then show ?thesis using nw by (simp add: writing_def)
  next
    case mv_xadd
    then show ?thesis using nw by (simp add: writing_def)
  qed (simp_all add: adds_def access_defs phase_table)
next
  assume w: "writing (wpcs s t)"
  show "adds t j s' = adds t j s + of_bool (j = index s t)"
    using assms(1)
  proof cases
    case mv_write
    then show ?thesis by (auto simp: adds_def access_defs phase_table)
  next
    case mv_xadd
    then show ?thesis by (auto simp: adds_def access_defs phase_table)
  next
    case (mv_take l q)
    then show ?thesis using w same_phase_not_copying [OF mv_take(4)] writing_copying by blast
  next
    case (mv_drop l q)
    then show ?thesis using w same_phase_not_copying [OF mv_drop(4)] writing_copying by blast
  next
    case (mv_drop_bad l q)
    then show ?thesis using w same_phase_not_copying [OF mv_drop_bad(4)] writing_copying by blast
  next
    case (mv_stay q r)
    then show ?thesis using w same_phase_not_copying [OF mv_stay(3)] writing_copying by blast
  next
    case mv_init
    then show ?thesis using w by (auto simp: writing_def)
  next
    case mv_overflow
    then show ?thesis using w by (auto simp: writing_def)
  qed (use w in \<open>simp_all add: writing_def\<close>)
qed

lemma vmove_adds_other: "vmove held opts t d c s s' \<Longrightarrow> u \<noteq> t \<Longrightarrow> adds u j s' = adds u j s"
  using vmove_frame(2-5) [of held opts t d c s s' u] by (simp add: adds_def)

lemma adds_range:
  assumes "thread_ok opts s t"
  shows "0 \<le> adds t j s" "adds t j s \<le> max 0 (nloops opts)"
    "writing (wpcs s t) \<Longrightarrow> adds t (index s t) s < max 0 (nloops opts)"
proof -
  have running: "wpcs s t \<in> after \<or> wpcs s t \<in> copying \<Longrightarrow> iter s t < nloops opts"
    using assms by (cases "wpcs s t") (simp_all add: thread_ok_def phase_table)
  have r: "0 \<le> iter s t" "iter s t \<le> max 0 (nloops opts)" using assms by (simp_all add: thread_ok_def)
  show "0 \<le> adds t j s" using r by (simp add: adds_def)
  show "adds t j s \<le> max 0 (nloops opts)"
    using r running by (auto simp: adds_def)
  assume w: "writing (wpcs s t)"
  then have "wpcs s t \<in> copying" by (rule writing_copying)
  then show "adds t (index s t) s < max 0 (nloops opts)"
    using running by (simp add: adds_def)
qed

section \<open>The sums\<close>

definition workers :: "options \<Rightarrow> nat set" where
  "workers opts = {t. int t < num_threads opts}"

definition total :: "options \<Rightarrow> nat \<Rightarrow> nat \<Rightarrow> vsys \<Rightarrow> int" where
  "total opts k j s = (\<Sum>t\<in>{t \<in> workers opts. dst_of opts t = k}. adds t j s)"

definition value_at :: "options \<Rightarrow> nat \<Rightarrow> nat \<Rightarrow> vsys \<Rightarrow> int" where
  "value_at opts k j s = int k + int (k + 1) * total opts k j s"

definition sum_ok :: "options \<Rightarrow> vsys \<Rightarrow> bool" where
  "sum_ok opts s \<longleftrightarrow>
     (\<forall>k. length (vals s k) = VECTOR_SIZE \<and> (\<forall>j < VECTOR_SIZE. vals s k ! j = value_at opts k j s))"

definition reg_ok :: "options \<Rightarrow> vsys \<Rightarrow> bool" where
  "reg_ok opts s \<longleftrightarrow> (\<forall>t. let d = dst_of opts t; c = src_of opts t; i = index s t in
     (wpcs s t = A_sum \<longrightarrow> reg s t = elem d i s) \<and>
     (wpcs s t = A_write \<longrightarrow> reg s t = elem d i s + elem c i s) \<and>
     (wpcs s t = A_xadd \<longrightarrow> reg s t = elem c i s))"

text \<open>The value a vector has in the end, and that every destination's is an \<open>int\<close>.\<close>

definition final_value :: "options \<Rightarrow> nat \<Rightarrow> int" where
  "final_value opts k =
     int k + int (k + 1) * (int (card {t \<in> workers opts. dst_of opts t = k}) * max 0 (nloops opts))"

definition in_range :: "options \<Rightarrow> bool" where
  "in_range opts \<longleftrightarrow> (\<forall>t\<in>workers opts. int_ok (final_value opts (dst_of opts t)))"

lemma finite_workers [simp]: "finite (workers opts)"
  by (rule finite_subset [of _ "{..<nat (num_threads opts)}"]) (auto simp: workers_def)

lemma plain_args:
  "\<not> cause_deadlock opts \<Longrightarrow> even (dst_of opts t) \<and> src_of opts t = dst_of opts t + 1"
  by (simp add: dst_of_def src_of_def thread_args_def Let_def)

lemma src_never_dst: "\<not> cause_deadlock opts \<Longrightarrow> dst_of opts u \<noteq> src_of opts t"
  using plain_args [of opts t] plain_args [of opts u] by (metis even_plus_one_iff)

lemma value_at_bounds:
  assumes "\<forall>t. thread_ok opts s t"
  shows "int k \<le> value_at opts k j s" "value_at opts k j s \<le> final_value opts k"
proof -
  let ?T = "{t \<in> workers opts. dst_of opts t = k}"
  have "0 \<le> total opts k j s"
    unfolding total_def using adds_range(1) assms by (intro sum_nonneg) blast
  then show "int k \<le> value_at opts k j s" by (simp add: value_at_def)
  have "total opts k j s \<le> (\<Sum>t\<in>?T. max 0 (nloops opts))"
    unfolding total_def using adds_range(2) assms by (intro sum_mono) blast
  then have "total opts k j s \<le> int (card ?T) * max 0 (nloops opts)" by simp
  then show "value_at opts k j s \<le> final_value opts k"
    by (simp add: value_at_def final_value_def mult_left_mono)
qed

text \<open>The total after the addition of one thread.\<close>

lemma total_add:
  assumes "t \<in> workers opts" "\<And>u. u \<noteq> t \<Longrightarrow> adds u j s' = adds u j s" "adds t j s' = adds t j s + x"
  shows "total opts k j s' = total opts k j s + (if dst_of opts t = k then x else 0)"
proof -
  let ?T = "{t \<in> workers opts. dst_of opts t = k}"
  have fin: "finite ?T" by simp
  show ?thesis
  proof (cases "dst_of opts t = k")
    case True
    then have t: "t \<in> ?T" using assms(1) by simp
    have "(\<Sum>u\<in>?T - {t}. adds u j s') = (\<Sum>u\<in>?T - {t}. adds u j s)"
      by (rule sum.cong) (auto intro: assms(2))
    then show ?thesis
      using sum.remove [OF fin t, of "\<lambda>u. adds u j s'"] sum.remove [OF fin t, of "\<lambda>u. adds u j s"] True
        assms(3)
      by (simp add: total_def)
  next
    case False
    then have "total opts k j s' = total opts k j s"
      unfolding total_def by (intro sum.cong) (auto intro: assms(2))
    then show ?thesis using False by simp
  qed
qed

section \<open>The invariant\<close>

lemma reg_ok_thread:
  "reg_ok opts s \<longleftrightarrow> (\<forall>t.
     (wpcs s t = A_sum \<longrightarrow> reg s t = elem (dst_of opts t) (index s t) s) \<and>
     (wpcs s t = A_write \<longrightarrow>
        reg s t = elem (dst_of opts t) (index s t) s + elem (src_of opts t) (index s t) s) \<and>
     (wpcs s t = A_xadd \<longrightarrow> reg s t = elem (src_of opts t) (index s t) s))"
  by (simp add: reg_ok_def Let_def)

text \<open>The register of the moving thread, when nothing is stored.\<close>

lemma vmove_reg:
  assumes "vmove held opts t d c s s'" "\<not> writing (wpcs s t)"
    and "wpcs s t = A_sum \<longrightarrow> reg s t = elem d (index s t) s"
  shows "(wpcs s' t = A_sum \<longrightarrow> reg s' t = elem d (index s' t) s') \<and>
    (wpcs s' t = A_write \<longrightarrow> reg s' t = elem d (index s' t) s' + elem c (index s' t) s') \<and>
    (wpcs s' t = A_xadd \<longrightarrow> reg s' t = elem c (index s' t) s')"
proof -
  have nq: "q \<noteq> A_sum \<and> q \<noteq> A_write \<and> q \<noteq> A_xadd" if "same_phase p q" for p q
    using same_phase_not_copying [OF that] phase_table(16,17,18,19,20) by auto
  show ?thesis
    using assms(1)
  proof cases
    case (mv_take l q)
    then show ?thesis using nq [OF mv_take(4)] by (simp add: access_defs)
  next
    case (mv_drop l q)
    then show ?thesis using nq [OF mv_drop(4)] by (simp add: access_defs)
  next
    case (mv_stay q r)
    then show ?thesis using nq [OF mv_stay(3)] by (simp add: access_defs)
  next
    case (mv_elem q)
    then have "q = A_read \<or> q = A_fetch" by simp
    then show ?thesis using mv_elem(1,2) by (elim disjE) (simp_all add: access_defs)
  next
    case (mv_exit q)
    then have "q = A_unlock1 \<or> q = W_return" by simp
    then show ?thesis using mv_exit(1,2) by (elim disjE) (simp_all add: access_defs)
  qed (use assms(2,3) in \<open>simp_all add: access_defs writing_def\<close>)
qed

text \<open>The store of the moving thread.\<close>

lemma vmove_store:
  assumes "vmove held opts t d c s s'" "writing (wpcs s t)"
  shows "wpcs s' t = A_for \<and> vals s' = (vals s)(d := (vals s d)[index s t :=
      (if wpcs s t = A_write then reg s t else wrap_int (elem d (index s t) s + reg s t))])"
  using assms(1)
proof cases
  case (mv_take l q)
  then show ?thesis using assms(2) same_phase_not_copying [OF mv_take(4)] writing_copying by blast
next
  case (mv_drop l q)
  then show ?thesis using assms(2) same_phase_not_copying [OF mv_drop(4)] writing_copying by blast
next
  case (mv_drop_bad l q)
  then show ?thesis using assms(2) same_phase_not_copying [OF mv_drop_bad(4)] writing_copying by blast
next
  case (mv_stay q r)
  then show ?thesis using assms(2) same_phase_not_copying [OF mv_stay(3)] writing_copying by blast
qed (use assms(2) in \<open>auto simp: access_defs writing_def\<close>)

lemma wrap_int_ok: "int_ok x \<Longrightarrow> wrap_int x = x"
  by (simp add: int_ok_def wrap_int_def)

context vec_locking
begin

definition sum_invar :: "vsys \<Rightarrow> bool" where
  "sum_invar s \<longleftrightarrow> vec_invar s \<and> sum_ok opts s \<and> reg_ok opts s"

lemma running_worker: "vec_invar s \<Longrightarrow> wpcs s t \<noteq> Not_created \<Longrightarrow> t \<in> workers opts"
  unfolding vec_invar_def main_ok_def workers_def by (metis linorder_not_less mem_Collect_eq)

lemma src_value:
  assumes "\<not> cause_deadlock opts" "sum_ok opts s" "j < VECTOR_SIZE"
  shows "elem (src_of opts t) j s = int (dst_of opts t + 1)"
proof -
  have "{u \<in> workers opts. dst_of opts u = src_of opts t} = {}"
    using src_never_dst [OF assms(1)] by simp
  then have "total opts (src_of opts t) j s = 0" unfolding total_def by (simp only: sum.empty)
  then show ?thesis
    using assms(2,3) plain_args [OF assms(1), of t] by (simp add: sum_ok_def elem_def value_at_def)
qed

text \<open>Two threads are not both between the read and the write of an element of the same vector.\<close>

lemma one_adding:
  assumes "lock_ok s" "u \<noteq> t" "writing (wpcs s t)" "wpcs s u \<in> {A_sum, A_write}"
  shows "dst_of opts u \<noteq> dst_of opts t"
proof
  assume same: "dst_of opts u = dst_of opts t"
  have pts: "wpcs s u \<in> points" "wpcs s t \<in> points" using assms(1) by (simp_all add: lock_ok_def)
  then have "wpcs s t = A_write" using atomic assms(3,4) by (auto simp: writing_def)
  then have "Vec_lock (dst_of opts t) \<in> locks t (wpcs s t)"
    using exclusive [OF pts(2)] by (simp add: locks_def)
  moreover have "Vec_lock (dst_of opts t) \<in> locks u (wpcs s u)"
    using exclusive [OF pts(1) assms(4), of "dst_of opts u"] same by (simp add: locks_def)
  ultimately have "owner_of s (Vec_lock (dst_of opts t)) = Some t"
    "owner_of s (Vec_lock (dst_of opts t)) = Some u" using assms(1) by (auto simp: lock_ok_def)
  then show False using assms(2) by simp
qed

lemma sum_ok_store:
  assumes inv: "sum_invar s" and plain: "\<not> cause_deadlock opts" "in_range opts"
    and mv: "vmove held opts t (dst_of opts t) (src_of opts t) s s'" "writing (wpcs s t)"
    and inv': "vec_invar s'"
  shows "sum_ok opts s'"
proof -
  let ?d = "dst_of opts t" and ?i = "index s t"
  have th: "thread_ok opts s t" and i: "?i < VECTOR_SIZE"
    using inv mv(2) by (auto simp: sum_invar_def vec_invar_def thread_ok_def writing_def copying_def)
  have t: "t \<in> workers opts"
    using running_worker inv mv(2) by (auto simp: sum_invar_def writing_def)
  have sum: "sum_ok opts s" using inv by (simp add: sum_invar_def)
  have tot: "total opts k j s' = total opts k j s + (if ?d = k then of_bool (j = ?i) else 0)"
    if "j < VECTOR_SIZE" for k j
    by (rule total_add [OF t vmove_adds_other [OF mv(1)] vmove_adds(2) [OF mv(1) th that mv(2)]])
  have new: "value_at opts ?d ?i s' = elem ?d ?i s + int (?d + 1)"
    using tot [OF i, of ?d] sum i by (simp add: value_at_def sum_ok_def elem_def algebra_simps)
  have reg: "reg s t = elem ?d ?i s + int (?d + 1)" if "wpcs s t = A_write"
    using inv that src_value [OF plain(1) sum i] by (simp add: sum_invar_def reg_ok_thread)
  have reg': "reg s t = int (?d + 1)" if "wpcs s t = A_xadd"
    using inv that src_value [OF plain(1) sum i] by (simp add: sum_invar_def reg_ok_thread)
  have "int_ok (value_at opts ?d ?i s')"
  proof -
    have "value_at opts ?d ?i s' \<le> final_value opts ?d" "int ?d \<le> value_at opts ?d ?i s'"
      using value_at_bounds inv' by (auto simp: vec_invar_def)
    moreover have "int_ok (final_value opts ?d)" using plain(2) t by (simp add: in_range_def)
    ultimately show ?thesis by (simp add: int_ok_def)
  qed
  then have "(if wpcs s t = A_write then reg s t else wrap_int (elem ?d ?i s + reg s t)) =
      value_at opts ?d ?i s'"
    using mv(2) reg reg' new by (auto simp: writing_def wrap_int_ok)
  then have vals: "vals s' = (vals s)(?d := (vals s ?d)[?i := value_at opts ?d ?i s'])"
    using vmove_store [OF mv] by simp
  have "vals s' k ! j = value_at opts k j s'" if j: "j < VECTOR_SIZE" for k j
  proof (cases "k = ?d \<and> j = ?i")
    case True
    then show ?thesis using vals sum i by (simp add: sum_ok_def)
  next
    case False
    then have "total opts k j s' = total opts k j s" using tot [OF j, of k] by auto
    then have "value_at opts k j s' = value_at opts k j s" by (simp add: value_at_def)
    moreover have "vals s' k ! j = vals s k ! j" using False vals by (cases "k = ?d") auto
    ultimately show ?thesis using sum j by (simp add: sum_ok_def)
  qed
  moreover have "length (vals s' k) = VECTOR_SIZE" for k using vals sum by (simp add: sum_ok_def)
  ultimately show ?thesis by (simp add: sum_ok_def)
qed

lemma reg_ok_store:
  assumes inv: "sum_invar s" and plain: "\<not> cause_deadlock opts"
    and mv: "vmove held opts t (dst_of opts t) (src_of opts t) s s'" "writing (wpcs s t)"
  shows "reg_ok opts s'"
proof -
  note st = vmove_store [OF mv]
  have src: "elem (src_of opts u) j s' = elem (src_of opts u) j s" for u j
    using st src_never_dst [OF plain, of t u] by (simp add: elem_def)
  have dst: "elem (dst_of opts u) j s' = elem (dst_of opts u) j s"
    if "u \<noteq> t" "wpcs s u \<in> {A_sum, A_write}" for u j
  proof -
    have "lock_ok s" using inv by (simp add: sum_invar_def vec_invar_def)
    then show ?thesis using st one_adding [OF _ that(1) mv(2) that(2)] by (simp add: elem_def)
  qed
  have old: "(wpcs s u = A_sum \<longrightarrow> reg s u = elem (dst_of opts u) (index s u) s) \<and>
     (wpcs s u = A_write \<longrightarrow>
        reg s u = elem (dst_of opts u) (index s u) s + elem (src_of opts u) (index s u) s) \<and>
     (wpcs s u = A_xadd \<longrightarrow> reg s u = elem (src_of opts u) (index s u) s)" for u
    using inv by (simp add: sum_invar_def reg_ok_thread)
  show ?thesis
    unfolding reg_ok_thread
  proof
    fix u
    show "(wpcs s' u = A_sum \<longrightarrow> reg s' u = elem (dst_of opts u) (index s' u) s') \<and>
      (wpcs s' u = A_write \<longrightarrow>
        reg s' u = elem (dst_of opts u) (index s' u) s' + elem (src_of opts u) (index s' u) s') \<and>
      (wpcs s' u = A_xadd \<longrightarrow> reg s' u = elem (src_of opts u) (index s' u) s')"
      using vmove_frame(2-5) [OF mv(1), of u] old [of u] src dst [of u] st by (cases "u = t") simp_all
  qed
qed

lemma sum_invar_quiet:
  assumes inv: "sum_invar s" and mv: "vmove held opts t (dst_of opts t) (src_of opts t) s s'"
    and quiet: "\<not> writing (wpcs s t)"
  shows "sum_ok opts s' \<and> reg_ok opts s'"
proof -
  have th: "thread_ok opts s t" using inv by (simp add: sum_invar_def vec_invar_def)
  have "VECTOR_SIZE > 0" by (simp add: VECTOR_SIZE_def)
  then have vals: "vals s' = vals s" using vmove_adds(1) [OF mv th _ quiet] by blast
  have "adds u j s' = adds u j s" if "j < VECTOR_SIZE" for u j
    using vmove_adds(1) [OF mv th that quiet] vmove_adds_other [OF mv] by (cases "u = t") auto
  then have "value_at opts k j s' = value_at opts k j s" if "j < VECTOR_SIZE" for k j
    using that by (simp add: value_at_def total_def)
  then have sum: "sum_ok opts s'" using inv vals by (simp add: sum_invar_def sum_ok_def)
  have old: "(wpcs s u = A_sum \<longrightarrow> reg s u = elem (dst_of opts u) (index s u) s) \<and>
     (wpcs s u = A_write \<longrightarrow>
        reg s u = elem (dst_of opts u) (index s u) s + elem (src_of opts u) (index s u) s) \<and>
     (wpcs s u = A_xadd \<longrightarrow> reg s u = elem (src_of opts u) (index s u) s)" for u
    using inv by (simp add: sum_invar_def reg_ok_thread)
  have "(wpcs s' u = A_sum \<longrightarrow> reg s' u = elem (dst_of opts u) (index s' u) s') \<and>
      (wpcs s' u = A_write \<longrightarrow>
        reg s' u = elem (dst_of opts u) (index s' u) s' + elem (src_of opts u) (index s' u) s') \<and>
      (wpcs s' u = A_xadd \<longrightarrow> reg s' u = elem (src_of opts u) (index s' u) s')" for u
  proof (cases "u = t")
    case True
    then show ?thesis using vmove_reg [OF mv quiet] old [of t] by simp
  next
    case False
    then show ?thesis using vmove_frame(2-5) [OF mv, of u] old [of u] vals by (simp add: elem_def)
  qed
  then show ?thesis using sum by (simp add: reg_ok_thread)
qed

lemma bad_move:
  assumes inv: "sum_invar s" and plain: "\<not> cause_deadlock opts" "in_range opts"
    and mv: "vmove held opts t (dst_of opts t) (src_of opts t) s s'" and ok: "bad s = None"
  shows "bad s' = None \<or> wpcs s t = A_retry"
  using mv
proof cases
  case (mv_drop_bad l q)
  then show ?thesis using inv by (auto simp: sum_invar_def vec_invar_def lock_ok_def locks_def)
next
  case mv_overflow
  let ?d = "dst_of opts t" and ?i = "index s t"
  let ?T = "{u \<in> workers opts. dst_of opts u = ?d}"
  have "int_ok (reg s t + elem (src_of opts t) ?i s)" if at: "wpcs s t = A_sum"
  proof -
    have th: "\<And>u. thread_ok opts s u" using inv by (simp add: sum_invar_def vec_invar_def)
    have i: "?i < VECTOR_SIZE" using th [of t] at by (simp add: thread_ok_def copying_def)
    have t: "t \<in> workers opts" using running_worker inv at by (auto simp: sum_invar_def)
    have "adds t ?i s < max 0 (nloops opts)"
      using th [of t] at by (simp add: adds_def thread_ok_def phase_table)
    then have "total opts ?d ?i s < (\<Sum>u\<in>?T. max 0 (nloops opts))"
      unfolding total_def using t adds_range(2) [OF th] by (intro sum_strict_mono_ex1) auto
    then have "total opts ?d ?i s + 1 \<le> int (card ?T) * max 0 (nloops opts)" by simp
    then have "int (?d + 1) * (total opts ?d ?i s + 1) \<le>
        int (?d + 1) * (int (card ?T) * max 0 (nloops opts))" by (intro mult_left_mono) auto
    then have "value_at opts ?d ?i s + int (?d + 1) \<le> final_value opts ?d"
      by (simp add: value_at_def final_value_def algebra_simps)
    moreover have "int_ok (final_value opts ?d)" using plain(2) t by (simp add: in_range_def)
    moreover have "int ?d \<le> value_at opts ?d ?i s" using value_at_bounds(1) th by blast
    moreover have "reg s t + elem (src_of opts t) ?i s = value_at opts ?d ?i s + int (?d + 1)"
      using inv at i src_value [OF plain(1) _ i]
      by (simp add: sum_invar_def reg_ok_thread sum_ok_def elem_def)
    ultimately show ?thesis by (simp add: int_ok_def)
  qed
  then show ?thesis using mv_overflow by auto
next
  case (mv_take l q)
  then show ?thesis using ok by (simp add: access_defs)
next
  case (mv_drop l q)
  then show ?thesis using ok by (simp add: access_defs)
next
  case (mv_stay q r)
  then show ?thesis using ok by (simp add: access_defs)
next
  case (mv_elem q)
  then show ?thesis using ok by (simp add: access_defs)
next
  case (mv_exit q)
  then show ?thesis using ok by (simp add: access_defs)
qed (use ok in \<open>simp_all add: access_defs\<close>)

definition no_overflow :: "vsys \<Rightarrow> bool" where
  "no_overflow s \<longleftrightarrow> bad s = None \<or> A_retry \<in> points"

lemma sum_invar_start: "vec_start opts s \<Longrightarrow> sum_invar s \<and> no_overflow s"
proof -
  assume st: "vec_start opts s"
  then have s: "s = initial" by (simp add: vec_start_def)
  have "adds t j s = 0" for t j by (simp add: s initial_def adds_def phase_table)
  then have "value_at opts k j s = int k" for k j by (simp add: value_at_def total_def)
  then have "sum_ok opts s" by (simp add: sum_ok_def s initial_def vector_init_def)
  moreover have "reg_ok opts s" by (simp add: reg_ok_thread s initial_def)
  ultimately show ?thesis
    using vec_invar_start [OF st] by (simp add: sum_invar_def no_overflow_def s initial_def)
qed

lemma sum_invar_main:
  assumes "sum_invar s" "main_step opts s = Some s'"
  shows "sum_invar s'"
proof -
  have mok: "main_ok opts s" using assms(1) by (simp add: sum_invar_def vec_invar_def)
  have same: "vals s' = vals s \<and> index s' = index s \<and> reg s' = reg s \<and> (\<forall>u j. adds u j s' = adds u j s) \<and>
      (\<forall>u. wpcs s' u \<in> {A_sum, A_write, A_xadd} \<longrightarrow> wpcs s' u = wpcs s u)"
    using assms(2) mok
  proof (cases rule: main_cases)
    case (create i)
    have "adds u j s' = adds u j s" for u j
      using create by (cases "u = i") (auto simp: adds_def goto_def phase_table)
    then show ?thesis using create by (auto simp: goto_def)
  next
    case (other m)
    then show ?thesis by (simp add: adds_def)
  qed
  have "value_at opts k j s' = value_at opts k j s" for k j
    using same by (simp add: value_at_def total_def)
  then have "sum_ok opts s'" using same assms(1) by (simp add: sum_invar_def sum_ok_def)
  moreover have "reg_ok opts s'"
    unfolding reg_ok_thread
  proof
    fix u
    have "wpcs s' u \<in> {A_sum, A_write, A_xadd} \<Longrightarrow> wpcs s' u = wpcs s u" using same by blast
    then show "(wpcs s' u = A_sum \<longrightarrow> reg s' u = elem (dst_of opts u) (index s' u) s') \<and>
      (wpcs s' u = A_write \<longrightarrow>
        reg s' u = elem (dst_of opts u) (index s' u) s' + elem (src_of opts u) (index s' u) s') \<and>
      (wpcs s' u = A_xadd \<longrightarrow> reg s' u = elem (src_of opts u) (index s' u) s')"
      using assms(1) same by (simp add: sum_invar_def reg_ok_thread elem_def)
  qed
  ultimately show ?thesis using vec_invar_main [OF _ assms(2)] assms(1) by (simp add: sum_invar_def)
qed

lemma sum_invar_step:
  assumes "\<not> cause_deadlock opts" "in_range opts" "sum_invar s" "no_overflow s"
    "vec_step vadd opts a s = Some s'"
  shows "sum_invar s' \<and> no_overflow s'"
proof -
  have ok: "bad s = None" using assms(5) by (simp add: vec_step_def split: if_splits)
  show ?thesis
  proof (cases a)
    case Main
    then have m: "main_step opts s = Some s'" using assms(5) ok by (simp add: vec_step_def)
    have "main_ok opts s" using assms(3) by (simp add: sum_invar_def vec_invar_def)
    with m have "bad s' = bad s" by (cases rule: main_cases) (simp_all add: goto_def)
    then show ?thesis using sum_invar_main [OF assms(3) m] ok by (simp add: no_overflow_def)
  next
    case (Thread t)
    then have w: "worker vadd opts t s = Some s'" using assms(5) ok by (simp add: vec_step_def)
    have inv: "vec_invar s" using assms(3) by (simp add: sum_invar_def)
    have mv: "vmove held opts t (dst_of opts t) (src_of opts t) s s'" "wpcs s t \<in> points"
      using worker_move [OF w] inv by (auto simp: vec_invar_def lock_ok_def)
    have inv': "vec_invar s'" using vec_invar_worker [OF inv w ok] .
    have "sum_ok opts s' \<and> reg_ok opts s'"
      using sum_ok_store [OF assms(3,1,2) mv(1) _ inv'] reg_ok_store [OF assms(3,1) mv(1)]
        sum_invar_quiet [OF assms(3) mv(1)] by blast
    moreover have "no_overflow s'"
      using bad_move [OF assms(3,1,2) mv(1) ok] mv(2) by (auto simp: no_overflow_def)
    ultimately show ?thesis using inv' by (simp add: sum_invar_def)
  qed
qed

lemma sum_invar_reach:
  assumes "\<not> cause_deadlock opts" "in_range opts" "reach (vec_step vadd opts) (vec_start opts) s"
  shows "sum_invar s \<and> no_overflow s"
  using assms(3) by induction (use sum_invar_start sum_invar_step assms(1,2) in blast)+

text \<open>When \<open>main\<close> has returned, every thread has done its additions.\<close>

lemma final_values:
  assumes "\<not> cause_deadlock opts" "in_range opts" "reach (vec_step vadd opts) (vec_start opts) s" "finished s"
  shows "vals s k = replicate VECTOR_SIZE (final_value opts k)"
proof -
  have inv: "sum_invar s" using sum_invar_reach [OF assms(1-3)] by blast
  have "adds t j s = max 0 (nloops opts)" if "t \<in> workers opts" for t j
  proof -
    have "wpcs s t = W_done"
      using inv assms(4) that by (simp add: sum_invar_def vec_invar_def main_ok_def finished_def workers_def)
    moreover have "thread_ok opts s t" using inv by (simp add: sum_invar_def vec_invar_def)
    ultimately show ?thesis by (simp add: thread_ok_def adds_def phase_table)
  qed
  then have "value_at opts k j s = final_value opts k" for j
    by (simp add: value_at_def total_def final_value_def)
  then show ?thesis
    using inv by (intro nth_equalityI) (simp_all add: sum_invar_def sum_ok_def)
qed

lemma sums_exact:
  assumes "\<not> cause_deadlock opts" "in_range opts" "reach (vec_step vadd opts) (vec_start opts) s"
  shows "(finished s \<longrightarrow> vals s k = replicate VECTOR_SIZE (final_value opts k)) \<and>
    (A_retry \<notin> points \<longrightarrow> bad s = None)"
  using final_values [OF assms] sum_invar_reach [OF assms] by (auto simp: no_overflow_def)

end

end
