(* ===== verification/VecOrder.thy ===== *)
theory VecOrder
  imports VecSums
begin

text \<open>
  Progress and termination of the versions of \<open>vector_add\<close> that wait for their locks in some order: what a thread waits for at
  each program point, and a measure that every step decreases.
\<close>

text \<open>How far a thread at a program point is from the end of its iteration.\<close>

fun point_rank :: "wpc \<Rightarrow> nat \<Rightarrow> nat" where
  "point_rank Not_created i = 420"
| "point_rank W_for i = 419"
| "point_rank W_call i = 418"
| "point_rank W_called i = 417"
| "point_rank A_enter i = 416"
| "point_rank A_first i = 415"
| "point_rank A_second i = 414"
| "point_rank A_release i = 413"
| "point_rank A_retry i = 412"
| "point_rank A_init i = 411"
| "point_rank A_for i = 8 + 4 * (VECTOR_SIZE - i)"
| "point_rank A_read i = 7 + 4 * (VECTOR_SIZE - i)"
| "point_rank A_sum i = 6 + 4 * (VECTOR_SIZE - i)"
| "point_rank A_write i = 5 + 4 * (VECTOR_SIZE - i)"
| "point_rank A_fetch i = 7 + 4 * (VECTOR_SIZE - i)"
| "point_rank A_xadd i = 6 + 4 * (VECTOR_SIZE - i)"
| "point_rank A_unlock1 i = 6"
| "point_rank A_unlock2 i = 5"
| "point_rank W_return i = 4"
| "point_rank W_returned i = 3"
| "point_rank W_next i = 2"
| "point_rank W_done i = 0"

definition thread_rank :: "options \<Rightarrow> vsys \<Rightarrow> nat \<Rightarrow> nat" where
  "thread_rank opts s t = nat (max 0 (nloops opts) - iter s t) * 419 + point_rank (wpcs s t) (index s t)"

definition main_rank :: "options \<Rightarrow> mpc \<Rightarrow> nat" where
  "main_rank opts m = (let n = nat (num_threads opts) in case m of
     M_create i \<Rightarrow> 2 * n + 4 - i | M_join i \<Rightarrow> n + 3 - i | M_fini \<Rightarrow> 1 | M_done \<Rightarrow> 0)"

locale waiting_locking = vec_locking vadd held points opts
  for vadd :: "nat \<Rightarrow> nat \<Rightarrow> nat \<Rightarrow> vsys \<Rightarrow> vsys option"
    and held :: held_fun
    and points :: "wpc set"
    and opts :: options +
  fixes wants :: "nat \<Rightarrow> nat \<Rightarrow> wpc \<Rightarrow> lock option"
    and lock_rank :: "lock \<Rightarrow> nat"
  assumes enabled: "d \<noteq> c \<Longrightarrow> wpcs s t \<in> points - outside_points \<Longrightarrow>
      (\<And>l. wants d c (wpcs s t) = Some l \<Longrightarrow> owner_of s l = None) \<Longrightarrow> \<exists>s'. vadd t d c s = Some s'"
    and wants_free: "d \<noteq> c \<Longrightarrow> wants d c p = Some l \<Longrightarrow> l \<notin> held d c p \<and> l \<noteq> Print_lock"
    and no_print: "p \<in> points - outside_points \<Longrightarrow> Print_lock \<notin> held d c p"
    and rising_locks: "p \<in> points - outside_points \<Longrightarrow> q \<in> points - outside_points \<Longrightarrow>
      wants (dst_of opts t) (src_of opts t) p = Some l \<Longrightarrow> l \<in> held (dst_of opts u) (src_of opts u) q \<Longrightarrow>
      wants (dst_of opts u) (src_of opts u) q = Some m \<Longrightarrow>
      held (dst_of opts t) (src_of opts t) p \<inter> held (dst_of opts u) (src_of opts u) q = {} \<Longrightarrow>
      lock_rank l < lock_rank m"
begin

text \<open>What a thread waits for, the printing lock included.\<close>

definition waits :: "vsys \<Rightarrow> nat \<Rightarrow> lock option" where
  "waits s t = (let p = wpcs s t in
     if p \<in> outside_points then (if (p = W_call \<or> p = W_return) \<and> verbose opts then Some Print_lock else None)
     else wants (dst_of opts t) (src_of opts t) p)"

definition active :: "vsys \<Rightarrow> nat \<Rightarrow> bool" where
  "active s t \<longleftrightarrow> wpcs s t \<noteq> Not_created \<and> wpcs s t \<noteq> W_done"

lemma locks_print: "Print_lock \<in> locks t p \<Longrightarrow> p \<in> points \<Longrightarrow> p = W_called \<or> p = W_returned"
  using no_print [of p "dst_of opts t" "src_of opts t"] locks_outside [of p t]
  by (cases "p \<in> outside_points") (auto simp: locks_def held_outside_def split: if_splits)

lemma locks_other: "l \<in> locks t p \<Longrightarrow> l \<noteq> Print_lock \<Longrightarrow> p \<notin> outside_points"
  using locks_outside [of p t] by (auto simp: held_outside_def split: if_splits)

lemma waits_not_created: "waits s t = Some l \<Longrightarrow> owner_of s l = Some u \<Longrightarrow> lock_ok s \<Longrightarrow> active s u"
  using locks_outside [of "wpcs s u" u]
  by (auto simp: lock_ok_def active_def held_outside_def outside_points_def)

lemma rising_waits:
  assumes ok: "lock_ok s" and w: "waits s t = Some l" "owner_of s l = Some u" "waits s u = Some m"
  shows "lock_rank l < lock_rank m"
proof -
  have pts: "wpcs s v \<in> points" for v using ok by (simp add: lock_ok_def)
  have own: "owner_of s k = Some v \<longleftrightarrow> k \<in> locks v (wpcs s v)" for k v
    using ok by (simp add: lock_ok_def)
  then have l: "l \<in> locks u (wpcs s u)" using w(2) by simp
  have np: "l \<noteq> Print_lock"
  proof
    assume "l = Print_lock"
    then have "wpcs s u = W_called \<or> wpcs s u = W_returned" using locks_print l pts by blast
    then show False using w(3) by (auto simp: waits_def outside_points_def)
  qed
  then have u: "wpcs s u \<notin> outside_points" using locks_other l by blast
  have t: "wpcs s t \<notin> outside_points" using w(1) np by (auto simp: waits_def Let_def split: if_splits)
  then have wt: "wants (dst_of opts t) (src_of opts t) (wpcs s t) = Some l" using w(1) by (simp add: waits_def)
  have wu: "wants (dst_of opts u) (src_of opts u) (wpcs s u) = Some m" using w(3) u by (simp add: waits_def)
  have "u \<noteq> t"
    using wants_free [OF dst_src_differ wt] l by (auto simp: locks_def)
  have "locks t (wpcs s t) \<inter> locks u (wpcs s u) = {}"
  proof (rule ccontr)
    assume "\<not> ?thesis"
    then obtain k where "k \<in> locks t (wpcs s t)" "k \<in> locks u (wpcs s u)" by blast
    then have "owner_of s k = Some t" "owner_of s k = Some u" using own by blast+
    then show False using \<open>u \<noteq> t\<close> by simp
  qed
  then show ?thesis using rising_locks [OF _ _ wt _ wu] pts t u l by (simp add: locks_def)
qed

end

sublocale waiting_locking \<subseteq> waiting: wait_order waits owner_of lock_rank active vec_invar
proof unfold_locales
  fix s assume "vec_invar s"
  then have "{t. active s t} \<subseteq> workers opts" using running_worker by (auto simp: active_def)
  then show "finite {t. active s t}" by (rule finite_subset) simp
next
  fix s t l u assume "vec_invar s" "waits s t = Some l" "owner_of s l = Some u"
  then show "active s u" using waits_not_created by (auto simp: vec_invar_def)
next
  fix s t l u m
  assume "vec_invar s" "waits s t = Some l" "owner_of s l = Some u" "waits s u = Some m"
  then show "lock_rank l < lock_rank m" using rising_waits by (auto simp: vec_invar_def)
qed

section \<open>Progress\<close>

definition ended :: "vsys \<Rightarrow> bool" where
  "ended s \<longleftrightarrow> finished s \<or> bad s \<noteq> None"

context waiting_locking
begin

lemma unblocked_moves:
  assumes "vec_invar s" "active s t" "\<not> waiting.blocked s t"
  shows "\<exists>s'. worker vadd opts t s = Some s'"
proof (cases "wpcs s t \<in> outside_points")
  case True
  then show ?thesis
    using assms(2,3)
    by (cases "wpcs s t")
      (auto simp: worker_def print_info_def active_def waiting.blocked_def waits_def outside_points_def
        mutex_lock_def mutex_unlock_def)
next
  case False
  have "wpcs s t \<in> points" using assms(1) by (simp add: vec_invar_def lock_ok_def)
  moreover have "owner_of s l = None" if "wants (dst_of opts t) (src_of opts t) (wpcs s t) = Some l" for l
    using assms(3) that False by (auto simp: waiting.blocked_def waits_def)
  ultimately obtain s' where "vadd t (dst_of opts t) (src_of opts t) s = Some s'"
    using enabled [OF dst_src_differ] False by blast
  moreover have "worker vadd opts t s = vadd t (dst_of opts t) (src_of opts t) s"
    using False by (cases "wpcs s t") (simp_all add: worker_def outside_points_def)
  ultimately show ?thesis by simp
qed

lemma progress_step:
  assumes inv: "vec_invar s" and "\<not> ended s"
  shows "\<exists>a s'. vec_step vadd opts a s = Some s'"
proof -
  have ok: "bad s = None" and m: "mainpc s \<noteq> M_done" using assms(2) by (auto simp: ended_def finished_def)
  show ?thesis
  proof (cases "main_step opts s")
    case (Some s')
    then have "vec_step vadd opts Main s = Some s'" using ok by (simp add: vec_step_def)
    then show ?thesis by blast
  next
    case None
    then obtain i where i: "mainpc s = M_join i" "int i < num_threads opts" "wpcs s i \<noteq> W_done"
      using m by (auto simp: main_step_def split: mpc.splits if_splits)
    then have "active s i" using inv by (simp add: active_def vec_invar_def main_ok_def)
    then obtain u where "active s u" "\<not> waiting.blocked s u" using waiting.some_unblocked [OF inv] by blast
    then obtain s' where "worker vadd opts u s = Some s'" using unblocked_moves [OF inv] by blast
    then have "vec_step vadd opts (Thread u) s = Some s'" using ok by (simp add: vec_step_def)
    then show ?thesis by blast
  qed
qed

end

sublocale waiting_locking \<subseteq> going: live_program "vec_step vadd opts" "vec_start opts" vec_invar "\<lambda>_. True" ended
  by unfold_locales (simp add: progress_step)

section \<open>Termination\<close>

locale ordered_locking = waiting_locking vadd held points opts wants lock_rank
  for vadd :: "nat \<Rightarrow> nat \<Rightarrow> nat \<Rightarrow> vsys \<Rightarrow> vsys option"
    and held :: held_fun
    and points :: "wpc set"
    and opts :: options
    and wants :: "nat \<Rightarrow> nat \<Rightarrow> wpc \<Rightarrow> lock option"
    and lock_rank :: "lock \<Rightarrow> nat" +
  assumes descending: "d \<noteq> c \<Longrightarrow> wpcs s t \<in> points - outside_points \<Longrightarrow> vadd t d c s = Some s' \<Longrightarrow>
      bad s' = None \<Longrightarrow> (wpcs s t \<in> copying - {A_for} \<Longrightarrow> index s t < VECTOR_SIZE) \<Longrightarrow>
      point_rank (wpcs s' t) (index s' t) < point_rank (wpcs s t) (index s t) \<and> iter s' t = iter s t"


context ordered_locking
begin

definition sys_rank :: "vsys \<Rightarrow> nat" where
  "sys_rank s = (if bad s \<noteq> None then 0
     else 1 + main_rank opts (mainpc s) + (\<Sum>t\<in>workers opts. thread_rank opts s t))"

lemma thread_rank_worker:
  assumes inv: "vec_invar s" and w: "worker vadd opts t s = Some s'" and ok: "bad s' = None"
  shows "thread_rank opts s' t < thread_rank opts s t"
proof -
  have th: "thread_ok opts s t" and pt: "wpcs s t \<in> points"
    using inv by (simp_all add: vec_invar_def lock_ok_def)
  show ?thesis
  proof (cases "wpcs s t \<in> outside_points")
    case False
    then have "vadd t (dst_of opts t) (src_of opts t) s = Some s'"
      using w by (cases "wpcs s t") (simp_all add: worker_def outside_points_def)
    moreover have "wpcs s t \<in> copying - {A_for} \<Longrightarrow> index s t < VECTOR_SIZE"
      using th by (simp add: thread_ok_def)
    ultimately have "point_rank (wpcs s' t) (index s' t) < point_rank (wpcs s t) (index s t)"
      "iter s' t = iter s t"
      using descending [OF dst_src_differ _ _ ok] False pt by blast+
    then show ?thesis by (simp add: thread_rank_def)
  next
    case True
    show ?thesis
    proof (cases "wpcs s t = W_next")
      case True
      then have "s' = goto t W_for (s\<lparr>iter := (iter s)(t := iter s t + 1)\<rparr>)"
        using w by (simp add: worker_def)
      moreover have "iter s t < nloops opts" "0 \<le> iter s t" using th True by (simp_all add: thread_ok_def)
      moreover from this have "nat (max 0 (nloops opts) - iter s t) = Suc (nat (max 0 (nloops opts) - (iter s t + 1)))"
        by simp
      ultimately show ?thesis using True by (simp add: thread_rank_def goto_def)
    next
      case False
      then show ?thesis
        using True w ok
        by (cases "wpcs s t")
          (auto simp: thread_rank_def outside_points_def worker_def print_info_def goto_def
            mutex_lock_def mutex_unlock_def split: if_splits)
    qed
  qed
qed

lemma rank_worker:
  assumes inv: "vec_invar s" and w: "worker vadd opts t s = Some s'" and ok: "bad s = None"
  shows "sys_rank s' < sys_rank s"
proof (cases "bad s'")
  case (Some e)
  then show ?thesis using ok by (simp add: sys_rank_def)
next
  case None
  have mv: "vmove held opts t (dst_of opts t) (src_of opts t) s s'"
    using worker_move [OF w] inv by (auto simp: vec_invar_def lock_ok_def)
  have t: "t \<in> workers opts" using running_worker [OF inv] worker_running [OF w] by blast
  have "thread_rank opts s' u = thread_rank opts s u" if "u \<noteq> t" for u
    using vmove_frame(2-5) [OF mv that] by (simp add: thread_rank_def)
  then have "thread_rank opts s' u \<le> thread_rank opts s u" for u
    using thread_rank_worker [OF inv w None] by (cases "u = t") auto
  then have "(\<Sum>u\<in>workers opts. thread_rank opts s' u) < (\<Sum>u\<in>workers opts. thread_rank opts s u)"
    using t thread_rank_worker [OF inv w None] by (intro sum_strict_mono_ex1) auto
  then show ?thesis using vmove_frame(1) [OF mv] None ok by (simp add: sys_rank_def)
qed

lemma rank_main:
  assumes inv: "vec_invar s" and m: "main_step opts s = Some s'" and ok: "bad s = None"
  shows "sys_rank s' < sys_rank s"
proof -
  have mok: "main_ok opts s" using inv by (simp add: vec_invar_def)
  have "thread_rank opts s' u \<le> thread_rank opts s u" for u
    using m mok
  proof (cases rule: main_cases)
    case (create i)
    then show ?thesis by (cases "u = i") (simp_all add: thread_rank_def goto_def)
  next
    case (other m)
    then show ?thesis by (simp add: thread_rank_def)
  qed
  then have "(\<Sum>u\<in>workers opts. thread_rank opts s' u) \<le> (\<Sum>u\<in>workers opts. thread_rank opts s u)"
    by (rule sum_mono)
  moreover have "main_rank opts (mainpc s') < main_rank opts (mainpc s)"
    using m mok by (cases "mainpc s") (auto simp: main_step_def main_ok_def main_rank_def goto_def split: if_splits)
  moreover have "bad s' = None"
    using m mok ok by (cases rule: main_cases) (simp_all add: goto_def)
  ultimately show ?thesis using ok by (simp add: sys_rank_def)
qed

lemma rank_step: "vec_invar s \<Longrightarrow> vec_step vadd opts a s = Some s' \<Longrightarrow> sys_rank s' < sys_rank s"
  using rank_worker [of s _ s'] rank_main [of s s'] by (cases a) (simp_all add: vec_step_def split: if_splits)

end

sublocale ordered_locking \<subseteq> ending: terminating_program "vec_step vadd opts" "vec_start opts" vec_invar "\<lambda>_. True"
    ended sys_rank
  by unfold_locales (rule rank_step)

text \<open>The bound on the number of steps.\<close>

definition step_bound :: "options \<Rightarrow> nat" where
  "step_bound opts = 5 + nat (num_threads opts) * (2 + nat (nloops opts) * 419 + 420)"

context ordered_locking
begin

lemma rank_initial: "vec_start opts s \<Longrightarrow> sys_rank s = step_bound opts"
proof -
  assume "vec_start opts s"
  then have s: "s = initial" by (simp add: vec_start_def)
  have "card (workers opts) = nat (num_threads opts)"
  proof -
    have "workers opts = {..<nat (num_threads opts)}" by (auto simp: workers_def zless_nat_eq_int_zless)
    then show ?thesis by simp
  qed
  moreover have "nat (max 0 (nloops opts)) = nat (nloops opts)" by simp
  ultimately show ?thesis
    by (simp add: s sys_rank_def initial_def main_rank_def thread_rank_def step_bound_def algebra_simps)
qed

lemma bounded_runs:
  assumes "vec_start opts s" "run (vec_step vadd opts) as s = Some s'"
  shows "length as \<le> step_bound opts"
  using ending.run_length [OF reach_start [of "vec_start opts"], of s as s'] assms rank_initial [OF assms(1)]
  by (simp add: list_all_iff)

lemma can_end:
  "reach (vec_step vadd opts) (vec_start opts) s \<Longrightarrow>
    \<exists>as s'. run (vec_step vadd opts) as s = Some s' \<and> ended s'"
  using ending.can_finish by blast

end

end
