(* ===== verification/VecProps.thy ===== *)
theory VecProps
  imports VecSums VecOrder
begin

text \<open>
  The five versions of \<open>vector_add\<close> as instances of the interfaces, and what follows for the programs: which of them can
  deadlock, which always end, and what the vectors contain in the end.
\<close>

section \<open>The locks of the versions\<close>

definition copy_points :: "wpc set" where
  "copy_points = {A_init, A_for, A_read, A_sum, A_write, A_unlock1}"

definition both :: "nat \<Rightarrow> nat \<Rightarrow> lock set" where
  "both d c = {Vec_lock d, Vec_lock c}"

definition held_deadlock :: held_fun where
  "held_deadlock d c p =
     (if p \<in> copy_points then both d c
      else if p = A_second then {Vec_lock d}
      else if p = A_unlock2 then {Vec_lock c}
      else held_outside p)"

definition held_global_order :: held_fun where
  "held_global_order d c p =
     (if p \<in> copy_points then both d c
      else if p = A_second then {Vec_lock (min d c)}
      else if p = A_unlock2 then {Vec_lock d}
      else held_outside p)"

definition held_try_wait :: held_fun where
  "held_try_wait d c p =
     (if p \<in> copy_points then both d c
      else if p \<in> {A_second, A_retry, A_release} then {Vec_lock d}
      else if p = A_unlock2 then {Vec_lock c}
      else held_outside p)"

definition held_hold_and_wait :: held_fun where
  "held_hold_and_wait d c p =
     (if p \<in> copy_points then both d c
      else if p = A_first then {Global}
      else if p = A_second then {Global, Vec_lock d}
      else if p = A_release then insert Global (both d c)
      else if p = A_unlock2 then {Vec_lock c}
      else held_outside p)"

definition held_nolock :: held_fun where
  "held_nolock d c p = held_outside p"

definition locked_points :: "wpc set" where
  "locked_points = outside_points \<union> copy_points \<union> {A_enter, A_second, A_unlock2}"

definition try_points :: "wpc set" where
  "try_points = locked_points \<union> {A_retry, A_release}"

definition global_points :: "wpc set" where
  "global_points = locked_points \<union> {A_first, A_release}"

definition nolock_points :: "wpc set" where
  "nolock_points = outside_points \<union> {A_enter, A_for, A_fetch, A_xadd}"

lemmas point_defs = copy_points_def locked_points_def try_points_def global_points_def nolock_points_def outside_points_def

lemma copy_loop_point:
  "copy_loop t d c s = Some s' \<Longrightarrow> wpcs s' t \<in> copy_points"
  by (auto simp: copy_loop_def point_defs access_defs Let_def split: wpc.splits if_splits)

lemma mutex_points:
  "mutex_lock t l q s = Some s' \<Longrightarrow> wpcs s' t = q"
  "mutex_unlock t l q s = Some s' \<Longrightarrow> wpcs s' t = q \<or> wpcs s' t = wpcs s t"
  "mutex_trylock t l q r s = Some s' \<Longrightarrow> wpcs s' t = q \<or> wpcs s' t = r"
  by (auto simp: mutex_lock_def mutex_unlock_def mutex_trylock_def goto_def split: if_splits)

text \<open>The steps of a version, one lemma for each kind of statement.\<close>

lemma lock_case:
  assumes "mutex_lock t l q s = Some s'" "held d c q = insert l (held d c (wpcs s t))"
    "same_phase (wpcs s t) q" "wpcs s t \<notin> {Not_created, W_for, W_done}" "q \<notin> {Not_created, W_for, W_done}" "q \<in> P"
  shows "vmove held opts t d c s s' \<and> wpcs s' t \<in> P"
  using mv_lock [where held = held and d = d and c = c, OF assms(1-5)] mutex_points(1) [OF assms(1)] assms(6) by simp

lemma unlock_case:
  assumes "mutex_unlock t l q s = Some s'" "l \<in> held d c (wpcs s t)" "held d c q = held d c (wpcs s t) - {l}"
    "same_phase (wpcs s t) q" "wpcs s t \<notin> {Not_created, W_for, W_done}" "q \<notin> {Not_created, W_for, W_done}"
    "wpcs s t \<in> P" "q \<in> P"
  shows "vmove held opts t d c s s' \<and> wpcs s' t \<in> P"
  using mv_unlock [where held = held and d = d and c = c, OF assms(1-6)] mutex_points(2) [OF assms(1)] assms(7,8) by auto

lemma trylock_case:
  assumes "mutex_trylock t l q r s = Some s'" "held d c q = insert l (held d c (wpcs s t))"
    "held d c r = held d c (wpcs s t)" "same_phase (wpcs s t) q" "same_phase (wpcs s t) r"
    "wpcs s t \<notin> {Not_created, W_for, W_done}" "q \<notin> {Not_created, W_for, W_done}" "r \<notin> {Not_created, W_for, W_done}"
    "q \<in> P" "r \<in> P"
  shows "vmove held opts t d c s s' \<and> wpcs s' t \<in> P"
  using mv_trylock [where held = held and d = d and c = c, OF assms(1-8)] mutex_points(3) [OF assms(1)] assms(9,10) by auto

lemma copy_case:
  assumes "copy_loop t d c s = Some s'" "\<forall>p\<in>copy_points. held d c p = L" "copy_points \<subseteq> P"
  shows "vmove held opts t d c s s' \<and> wpcs s' t \<in> P"
  using mv_copy_loop [of t d c s s' held L opts] copy_loop_point [OF assms(1)] assms by (auto simp: copy_points_def)

lemmas held_defs = held_deadlock_def held_global_order_def held_try_wait_def held_hold_and_wait_def
  held_nolock_def both_def held_outside_def

section \<open>The versions as instances\<close>

interpretation dl: vec_locking vector_add_deadlock held_deadlock locked_points opts for opts
proof unfold_locales
  fix d c :: nat and s s' t
  assume ne: "d \<noteq> c" and pt: "wpcs s t \<in> locked_points - outside_points"
    and st: "vector_add_deadlock t d c s = Some s'"
  note defs = vector_add_deadlock_def held_defs point_defs phase_defs
  consider "wpcs s t = A_enter" | "wpcs s t = A_second" | "wpcs s t = A_unlock1" | "wpcs s t = A_unlock2"
    | "copy_loop t d c s = Some s'"
    using pt st by (cases "wpcs s t") (simp_all add: vector_add_deadlock_def point_defs)
  then show "vmove held_deadlock opts t d c s s' \<and> wpcs s' t \<in> locked_points"
  proof cases
    case 1
    show ?thesis
      by (rule lock_case [of t "Vec_lock d" A_second]) (use 1 st ne in \<open>auto simp: defs\<close>)
  next
    case 2
    show ?thesis
      by (rule lock_case [of t "Vec_lock c" A_init]) (use 2 st ne in \<open>auto simp: defs\<close>)
  next
    case 3
    show ?thesis
      by (rule unlock_case [of t "Vec_lock d" A_unlock2]) (use 3 st ne in \<open>auto simp: defs\<close>)
  next
    case 4
    show ?thesis
      by (rule unlock_case [of t "Vec_lock c" W_return]) (use 4 st ne in \<open>auto simp: defs\<close>)
  next
    case 5
    then show ?thesis
      by (rule copy_case [where L = "both d c"]) (auto simp: held_deadlock_def locked_points_def)
  qed
qed (auto simp: held_defs point_defs)

interpretation go: vec_locking vector_add_global_order held_global_order locked_points opts for opts
proof unfold_locales
  fix d c :: nat and s s' t
  assume ne: "d \<noteq> c" and pt: "wpcs s t \<in> locked_points - outside_points"
    and st: "vector_add_global_order t d c s = Some s'"
  note defs = vector_add_global_order_def held_defs point_defs phase_defs
  consider "wpcs s t = A_enter" | "wpcs s t = A_second" | "wpcs s t = A_unlock1" | "wpcs s t = A_unlock2"
    | "copy_loop t d c s = Some s'"
    using pt st by (cases "wpcs s t") (simp_all add: vector_add_global_order_def point_defs)
  then show "vmove held_global_order opts t d c s s' \<and> wpcs s' t \<in> locked_points"
  proof cases
    case 1
    show ?thesis
      by (rule lock_case [of t "Vec_lock (min d c)" A_second])
        (use 1 st ne in \<open>auto simp: defs min_def split: if_splits\<close>)
  next
    case 2
    show ?thesis
      by (rule lock_case [of t "Vec_lock (max d c)" A_init])
        (use 2 st ne in \<open>auto simp: defs min_def max_def split: if_splits\<close>)
  next
    case 3
    show ?thesis
      by (rule unlock_case [of t "Vec_lock c" A_unlock2]) (use 3 st ne in \<open>auto simp: defs\<close>)
  next
    case 4
    show ?thesis
      by (rule unlock_case [of t "Vec_lock d" W_return]) (use 4 st ne in \<open>auto simp: defs\<close>)
  next
    case 5
    then show ?thesis
      by (rule copy_case [where L = "both d c"]) (auto simp: held_global_order_def locked_points_def)
  qed
qed (auto simp: held_defs point_defs)

interpretation tw: vec_locking vector_add_try_wait held_try_wait try_points opts for opts
proof unfold_locales
  fix d c :: nat and s s' t
  assume ne: "d \<noteq> c" and pt: "wpcs s t \<in> try_points - outside_points"
    and st: "vector_add_try_wait t d c s = Some s'"
  note defs = vector_add_try_wait_def held_defs point_defs phase_defs
  consider "wpcs s t = A_enter" | "wpcs s t = A_second" | "wpcs s t = A_retry" | "wpcs s t = A_release" | "wpcs s t = A_unlock1" | "wpcs s t = A_unlock2"
    | "copy_loop t d c s = Some s'"
    using pt st by (cases "wpcs s t") (simp_all add: vector_add_try_wait_def point_defs)
  then show "vmove held_try_wait opts t d c s s' \<and> wpcs s' t \<in> try_points"
  proof cases
    case 1
    show ?thesis
      by (rule trylock_case [of t "Vec_lock d" A_second A_enter]) (use 1 st ne in \<open>auto simp: defs\<close>)
  next
    case 2
    show ?thesis
      by (rule trylock_case [of t "Vec_lock c" A_init A_retry]) (use 2 st ne in \<open>auto simp: defs\<close>)
  next
    case 3
    show ?thesis
    proof (cases "int_ok (retry s + 1)")
      case True
      then have s': "s' = goto t A_release (s\<lparr>retry := retry s + 1\<rparr>)"
        using 3 st by (simp add: vector_add_try_wait_def)
      have "vmove held_try_wait opts t d c s s'"
        unfolding s' using 3 by (intro mv_stay) (simp_all add: defs)
      moreover have "wpcs s' t \<in> try_points" by (simp add: s' goto_def point_defs)
      ultimately show ?thesis by blast
    next
      case False
      then show ?thesis using 3 st by (auto simp: defs intro: mv_overflow)
    qed
  next
    case 4
    show ?thesis
      by (rule unlock_case [of t "Vec_lock d" A_enter]) (use 4 st ne in \<open>auto simp: defs\<close>)
  next
    case 5
    show ?thesis
      by (rule unlock_case [of t "Vec_lock d" A_unlock2]) (use 5 st ne in \<open>auto simp: defs\<close>)
  next
    case 6
    show ?thesis
      by (rule unlock_case [of t "Vec_lock c" W_return]) (use 6 st ne in \<open>auto simp: defs\<close>)
  next
    case 7
    then show ?thesis
      by (rule copy_case [where L = "both d c"]) (auto simp: held_try_wait_def try_points_def locked_points_def)
  qed
qed (auto simp: held_defs point_defs)

interpretation hw: vec_locking vector_add_hold_and_wait held_hold_and_wait global_points opts for opts
proof unfold_locales
  fix d c :: nat and s s' t
  assume ne: "d \<noteq> c" and pt: "wpcs s t \<in> global_points - outside_points"
    and st: "vector_add_hold_and_wait t d c s = Some s'"
  note defs = vector_add_hold_and_wait_def held_defs point_defs phase_defs
  consider "wpcs s t = A_enter" | "wpcs s t = A_first" | "wpcs s t = A_second" | "wpcs s t = A_release" | "wpcs s t = A_unlock1" | "wpcs s t = A_unlock2"
    | "copy_loop t d c s = Some s'"
    using pt st by (cases "wpcs s t") (simp_all add: vector_add_hold_and_wait_def point_defs)
  then show "vmove held_hold_and_wait opts t d c s s' \<and> wpcs s' t \<in> global_points"
  proof cases
    case 1
    show ?thesis
      by (rule lock_case [of t "Global" A_first]) (use 1 st ne in \<open>auto simp: defs\<close>)
  next
    case 2
    show ?thesis
      by (rule lock_case [of t "Vec_lock d" A_second]) (use 2 st ne in \<open>auto simp: defs\<close>)
  next
    case 3
    show ?thesis
      by (rule lock_case [of t "Vec_lock c" A_release]) (use 3 st ne in \<open>auto simp: defs\<close>)
  next
    case 4
    show ?thesis
      by (rule unlock_case [of t "Global" A_init]) (use 4 st ne in \<open>auto simp: defs\<close>)
  next
    case 5
    show ?thesis
      by (rule unlock_case [of t "Vec_lock d" A_unlock2]) (use 5 st ne in \<open>auto simp: defs\<close>)
  next
    case 6
    show ?thesis
      by (rule unlock_case [of t "Vec_lock c" W_return]) (use 6 st ne in \<open>auto simp: defs\<close>)
  next
    case 7
    then show ?thesis
      by (rule copy_case [where L = "both d c"]) (auto simp: held_hold_and_wait_def global_points_def locked_points_def)
  qed
qed (auto simp: held_defs point_defs)

interpretation nl: vec_locking vector_add_nolock held_nolock nolock_points opts for opts
proof unfold_locales
  fix d c :: nat and s s' t
  assume pt: "wpcs s t \<in> nolock_points - outside_points" and st: "vector_add_nolock t d c s = Some s'"
  consider "wpcs s t = A_enter" | "wpcs s t = A_for" "index s t < VECTOR_SIZE"
    | "wpcs s t = A_for" "\<not> index s t < VECTOR_SIZE" | "wpcs s t = A_fetch" | "wpcs s t = A_xadd"
    using pt by (auto simp: point_defs)
  then show "vmove held_nolock opts t d c s s' \<and> wpcs s' t \<in> nolock_points"
  proof cases
    case 1
    then show ?thesis
      using st mv_init [of s t held_nolock d c opts]
      by (auto simp: vector_add_nolock_def held_defs point_defs goto_def set_index_def)
  next
    case 2
    then show ?thesis
      using st mv_elem [of s t A_fetch held_nolock d c opts]
      by (auto simp: vector_add_nolock_def held_defs point_defs goto_def)
  next
    case 3
    then show ?thesis
      using st mv_exit [of s t W_return held_nolock d c opts]
      by (auto simp: vector_add_nolock_def held_defs point_defs goto_def)
  next
    case 4
    then show ?thesis
      using st mv_fetch [of s t held_nolock d c opts]
      by (auto simp: vector_add_nolock_def held_defs point_defs goto_def set_reg_def Let_def)
  next
    case 5
    then show ?thesis
      using st mv_xadd [of s t held_nolock d c opts]
      by (auto simp: vector_add_nolock_def held_defs point_defs Let_def) (simp add: goto_def)
  qed
qed (auto simp: held_defs point_defs)

section \<open>The order of the locks\<close>

fun vec_rank :: "lock \<Rightarrow> nat" where
  "vec_rank (Vec_lock k) = Suc k"
| "vec_rank l = 0"

fun global_rank :: "lock \<Rightarrow> nat" where
  "global_rank (Vec_lock k) = 1"
| "global_rank l = 0"

definition wants_deadlock :: "nat \<Rightarrow> nat \<Rightarrow> wpc \<Rightarrow> lock option" where
  "wants_deadlock d c p =
     (if p = A_enter then Some (Vec_lock d) else if p = A_second then Some (Vec_lock c) else None)"

definition wants_global_order :: "nat \<Rightarrow> nat \<Rightarrow> wpc \<Rightarrow> lock option" where
  "wants_global_order d c p =
     (if p = A_enter then Some (Vec_lock (min d c)) else if p = A_second then Some (Vec_lock (max d c)) else None)"

definition wants_hold_and_wait :: "nat \<Rightarrow> nat \<Rightarrow> wpc \<Rightarrow> lock option" where
  "wants_hold_and_wait d c p =
     (if p = A_enter then Some Global else if p = A_first then Some (Vec_lock d)
      else if p = A_second then Some (Vec_lock c) else None)"

lemmas wants_defs = wants_deadlock_def wants_global_order_def wants_hold_and_wait_def

lemma min_less_max: "min (dst_of opts t) (src_of opts t) < max (dst_of opts t) (src_of opts t)"
  using dst_src_differ [of opts t] by (simp add: min_def max_def)

lemma copy_loop_enabled:
  "wpcs s t \<in> {A_init, A_for, A_read, A_sum, A_write} \<Longrightarrow> \<exists>s'. copy_loop t d c s = Some s'"
  by (auto simp: copy_loop_def Let_def)

lemma copy_loop_descends:
  assumes "copy_loop t d c s = Some s'" "bad s' = None"
    "wpcs s t \<in> copying - {A_for} \<Longrightarrow> index s t < VECTOR_SIZE"
  shows "point_rank (wpcs s' t) (index s' t) < point_rank (wpcs s t) (index s t) \<and> iter s' t = iter s t"
  using assms by (cases "wpcs s t") (auto simp: copy_loop_def access_defs phase_table VECTOR_SIZE_def Let_def split: if_splits)

lemma lock_descends:
  assumes "mutex_lock t l q s = Some s'" "point_rank q (index s t) < point_rank (wpcs s t) (index s t)"
  shows "point_rank (wpcs s' t) (index s' t) < point_rank (wpcs s t) (index s t) \<and> iter s' t = iter s t"
  using assms by (auto simp: mutex_lock_def goto_def split: if_splits)

lemma unlock_descends:
  assumes "mutex_unlock t l q s = Some s'" "bad s' = None"
    "point_rank q (index s t) < point_rank (wpcs s t) (index s t)"
  shows "point_rank (wpcs s' t) (index s' t) < point_rank (wpcs s t) (index s t) \<and> iter s' t = iter s t"
  using assms by (auto simp: mutex_unlock_def goto_def split: if_splits)

interpretation go_order: ordered_locking vector_add_global_order held_global_order locked_points opts
    wants_global_order vec_rank for opts
proof unfold_locales
  fix s :: vsys and t and d c :: nat
  assume "d \<noteq> c" "wpcs s t \<in> locked_points - outside_points"
    "\<And>l. wants_global_order d c (wpcs s t) = Some l \<Longrightarrow> owner_of s l = None"
  then show "\<exists>s'. vector_add_global_order t d c s = Some s'"
    using copy_loop_enabled [of s t d c]
    by (cases "wpcs s t")
      (auto simp: vector_add_global_order_def point_defs wants_defs mutex_lock_def mutex_unlock_def min_def max_def
        split: if_splits)
next
  fix d c :: nat and s s' :: vsys and t
  assume "vector_add_global_order t d c s = Some s'" "bad s' = None"
    "wpcs s t \<in> copying - {A_for} \<Longrightarrow> index s t < VECTOR_SIZE" "wpcs s t \<in> locked_points - outside_points"
  then show "point_rank (wpcs s' t) (index s' t) < point_rank (wpcs s t) (index s t) \<and> iter s' t = iter s t"
    by (cases "wpcs s t")
      (auto simp: vector_add_global_order_def point_defs VECTOR_SIZE_def
        dest: copy_loop_descends lock_descends unlock_descends split: if_splits)
qed (auto simp: held_defs point_defs wants_defs min_less_max split: if_splits)

interpretation hw_order: ordered_locking vector_add_hold_and_wait held_hold_and_wait global_points opts
    wants_hold_and_wait global_rank for opts
proof unfold_locales
  fix s :: vsys and t and d c :: nat
  assume "d \<noteq> c" "wpcs s t \<in> global_points - outside_points"
    "\<And>l. wants_hold_and_wait d c (wpcs s t) = Some l \<Longrightarrow> owner_of s l = None"
  then show "\<exists>s'. vector_add_hold_and_wait t d c s = Some s'"
    using copy_loop_enabled [of s t d c]
    by (cases "wpcs s t")
      (auto simp: vector_add_hold_and_wait_def point_defs wants_defs mutex_lock_def mutex_unlock_def min_def max_def
        split: if_splits)
next
  fix d c :: nat and s s' :: vsys and t
  assume "vector_add_hold_and_wait t d c s = Some s'" "bad s' = None"
    "wpcs s t \<in> copying - {A_for} \<Longrightarrow> index s t < VECTOR_SIZE" "wpcs s t \<in> global_points - outside_points"
  then show "point_rank (wpcs s' t) (index s' t) < point_rank (wpcs s t) (index s t) \<and> iter s' t = iter s t"
    by (cases "wpcs s t")
      (auto simp: vector_add_hold_and_wait_def point_defs VECTOR_SIZE_def
        dest: copy_loop_descends lock_descends unlock_descends split: if_splits)
qed (auto simp: held_defs point_defs wants_defs min_less_max split: if_splits)

lemma deadlock_ordered:
  assumes plain: "\<not> cause_deadlock opts"
  shows "ordered_locking vector_add_deadlock held_deadlock locked_points opts wants_deadlock vec_rank"
proof unfold_locales
  fix s :: vsys and t and d c :: nat
  assume "d \<noteq> c" "wpcs s t \<in> locked_points - outside_points"
    "\<And>l. wants_deadlock d c (wpcs s t) = Some l \<Longrightarrow> owner_of s l = None"
  then show "\<exists>s'. vector_add_deadlock t d c s = Some s'"
    using copy_loop_enabled [of s t d c]
    by (cases "wpcs s t")
      (auto simp: vector_add_deadlock_def point_defs wants_defs mutex_lock_def mutex_unlock_def min_def max_def
        split: if_splits)
next
  fix d c :: nat and s s' :: vsys and t
  assume "vector_add_deadlock t d c s = Some s'" "bad s' = None"
    "wpcs s t \<in> copying - {A_for} \<Longrightarrow> index s t < VECTOR_SIZE" "wpcs s t \<in> locked_points - outside_points"
  then show "point_rank (wpcs s' t) (index s' t) < point_rank (wpcs s t) (index s t) \<and> iter s' t = iter s t"
    by (cases "wpcs s t")
      (auto simp: vector_add_deadlock_def point_defs VECTOR_SIZE_def
        dest: copy_loop_descends lock_descends unlock_descends split: if_splits)
qed (auto simp: held_defs point_defs wants_defs plain_args [OF plain] split: if_splits)

definition wants_nothing :: "nat \<Rightarrow> nat \<Rightarrow> wpc \<Rightarrow> lock option" where
  "wants_nothing d c p = None"

interpretation tw_order: waiting_locking vector_add_try_wait held_try_wait try_points opts
    wants_nothing vec_rank for opts
proof unfold_locales
  fix s :: vsys and t and d c :: nat
  assume "wpcs s t \<in> try_points - outside_points"
  then show "\<exists>s'. vector_add_try_wait t d c s = Some s'"
    using copy_loop_enabled [of s t d c]
    by (cases "wpcs s t")
      (auto simp: vector_add_try_wait_def point_defs mutex_trylock_def mutex_unlock_def)
qed (auto simp: held_defs point_defs wants_nothing_def)

interpretation nl_order: ordered_locking vector_add_nolock held_nolock nolock_points opts
    wants_nothing vec_rank for opts
proof unfold_locales
  fix s :: vsys and t and d c :: nat
  assume "wpcs s t \<in> nolock_points - outside_points"
  then show "\<exists>s'. vector_add_nolock t d c s = Some s'"
    by (cases "wpcs s t") (auto simp: vector_add_nolock_def point_defs Let_def)
next
  fix d c :: nat and s s' :: vsys and t
  assume "vector_add_nolock t d c s = Some s'"
    "wpcs s t \<in> copying - {A_for} \<Longrightarrow> index s t < VECTOR_SIZE" "wpcs s t \<in> nolock_points - outside_points"
  then show "point_rank (wpcs s' t) (index s' t) < point_rank (wpcs s t) (index s t) \<and> iter s' t = iter s t"
    by (cases "wpcs s t")
      (auto simp: vector_add_nolock_def point_defs access_defs phase_table VECTOR_SIZE_def Let_def split: if_splits)
qed (auto simp: held_defs point_defs wants_nothing_def)

section \<open>What the programs do\<close>

text \<open>Property C8.
  Deadlock freedom: with any options every version but \<open>vector-deadlock\<close>, and \<open>vector-deadlock\<close> without \<open>-d\<close>, can always take a step
  until \<open>main\<close> has returned (or an addition of two \<open>int\<close>s has left their range), and no unlock fails.
\<close>

theorem vector_add_deadlock_free:
  assumes "reach (vec_step vadd opts) (vec_start opts) s"
    and "vadd \<in> {vector_add_global_order, vector_add_hold_and_wait, vector_add_try_wait, vector_add_nolock} \<or>
      vadd = vector_add_deadlock \<and> \<not> cause_deadlock opts"
  shows "(ended s \<or> (\<exists>a s'. vec_step vadd opts a s = Some s')) \<and> bad s \<noteq> Some Not_owner"
proof -
  consider "vadd = vector_add_global_order" | "vadd = vector_add_hold_and_wait" | "vadd = vector_add_try_wait"
    | "vadd = vector_add_nolock" | "vadd = vector_add_deadlock" "\<not> cause_deadlock opts" using assms(2) by blast
  then show ?thesis
  proof cases
    case 1
    then show ?thesis
      using go_order.progress_step go.invar_reach assms(1) by (metis go.vec_invar_def go.lock_ok_def)
  next
    case 2
    then show ?thesis
      using hw_order.progress_step hw.invar_reach assms(1) by (metis hw.vec_invar_def hw.lock_ok_def)
  next
    case 3
    then show ?thesis
      using tw_order.progress_step tw.invar_reach assms(1) by (metis tw.vec_invar_def tw.lock_ok_def)
  next
    case 4
    then show ?thesis
      using nl_order.progress_step nl.invar_reach assms(1) by (metis nl.vec_invar_def nl.lock_ok_def)
  next
    case 5
    then show ?thesis
      using waiting_locking.progress_step [OF ordered_locking.axioms(1) [OF deadlock_ordered]] dl.invar_reach assms(1)
      by (metis dl.vec_invar_def dl.lock_ok_def)
  qed
qed

theorem vector_add_deadlock_free_witness:
  "(ended initial \<or> (\<exists>a s'. vec_step vector_add_try_wait default_options a initial = Some s')) \<and>
    bad initial \<noteq> Some Not_owner"
  by (rule vector_add_deadlock_free)
    (auto intro: reach_start simp: vec_start_def default_options_def MAX_THREADS_def)

text \<open>Property C11.
  Termination: whatever the scheduler does, the programs without \<open>pthread_mutex_trylock\<close> (\<open>vector-deadlock\<close> without \<open>-d\<close>) make
  at most \<open>step_bound\<close> steps, and every state they reach can be run to an end of the program.
\<close>

theorem vector_add_terminates:
  assumes "num_threads opts < int MAX_THREADS" "run (vec_step vadd opts) as initial = Some s"
    and "vadd \<in> {vector_add_global_order, vector_add_hold_and_wait, vector_add_nolock} \<or>
      vadd = vector_add_deadlock \<and> \<not> cause_deadlock opts"
  shows "length as \<le> step_bound opts \<and> (\<exists>bs s'. run (vec_step vadd opts) (as @ bs) initial = Some s' \<and> ended s')"
proof -
  have st: "vec_start opts initial" using assms(1) by (simp add: vec_start_def)
  have r: "reach (vec_step vadd opts) (vec_start opts) s" by (rule reach_run [of _ _ _ as, OF _ assms(2)]) (fact st)
  consider "vadd = vector_add_global_order" | "vadd = vector_add_hold_and_wait"
    | "vadd = vector_add_nolock" | "vadd = vector_add_deadlock" "\<not> cause_deadlock opts" using assms(3) by blast
  then have "length as \<le> step_bound opts \<and> (\<exists>bs s'. run (vec_step vadd opts) bs s = Some s' \<and> ended s')"
  proof cases
    case 1
    then show ?thesis using go_order.bounded_runs [OF st] go_order.can_end r assms(2) by blast
  next
    case 2
    then show ?thesis using hw_order.bounded_runs [OF st] hw_order.can_end r assms(2) by blast
  next
    case 3
    then show ?thesis using nl_order.bounded_runs [OF st] nl_order.can_end r assms(2) by blast
  next
    case 4
    then show ?thesis
      using ordered_locking.bounded_runs [OF deadlock_ordered st]
        ordered_locking.can_end [OF deadlock_ordered] r assms(2) by blast
  qed
  then show ?thesis using assms(2) by (simp add: run_append)
qed

theorem vector_add_terminates_witness:
  "length ([] :: tact list) \<le> step_bound default_options \<and>
    (\<exists>bs s'. run (vec_step vector_add_global_order default_options) ([] @ bs) initial = Some s' \<and> ended s')"
  by (rule vector_add_terminates) (simp_all add: default_options_def MAX_THREADS_def)

text \<open>Property C4.
  No addition is lost: without \<open>-d\<close>, and as long as the results are \<open>int\<close>s, every version leaves in every element of the vector \<open>k\<close>
  its initial value \<open>k\<close> and \<open>k + 1\<close> for every addition to it (by default \<open>num_threads * loops\<close> in the vector 0), and only the
  counter of \<open>vector-try-wait\<close> can overflow on the way.
\<close>

theorem vector_sums_exact:
  assumes "reach (vec_step vadd opts) (vec_start opts) s" "\<not> cause_deadlock opts" "in_range opts"
    and "vadd \<in> {vector_add_deadlock, vector_add_global_order, vector_add_try_wait, vector_add_hold_and_wait, vector_add_nolock}"
  shows "(finished s \<longrightarrow> vals s k = replicate VECTOR_SIZE (final_value opts k)) \<and>
    (vadd \<in> {vector_add_deadlock, vector_add_global_order, vector_add_hold_and_wait, vector_add_nolock} \<longrightarrow>
      bad s = None)"
proof -
  have pts: "A_retry \<notin> locked_points" "A_retry \<notin> global_points" "A_retry \<notin> nolock_points"
    by (simp_all add: point_defs)
  consider "vadd = vector_add_deadlock" | "vadd = vector_add_global_order" | "vadd = vector_add_hold_and_wait"
    | "vadd = vector_add_nolock"
    | "vadd = vector_add_try_wait"
      "vadd \<notin> {vector_add_deadlock, vector_add_global_order, vector_add_hold_and_wait, vector_add_nolock}"
    using assms(4) by blast
  then show ?thesis
  proof cases
    case 1
    then show ?thesis using dl.sums_exact [OF assms(2,3), of s k] assms(1) pts by simp
  next
    case 2
    then show ?thesis using go.sums_exact [OF assms(2,3), of s k] assms(1) pts by simp
  next
    case 3
    then show ?thesis using hw.sums_exact [OF assms(2,3), of s k] assms(1) pts by simp
  next
    case 4
    then show ?thesis using nl.sums_exact [OF assms(2,3), of s k] assms(1) pts by simp
  next
    case 5
    then show ?thesis using tw.sums_exact [OF assms(2,3), of s k] assms(1) by auto
  qed
qed

text \<open>Two threads with one round each: both vectors of a pair get their sum, and no step fails.\<close>

lemma workers_two: "workers default_options = {0, 1}"
  by (auto simp: workers_def default_options_def)

lemma dst_default: "dst_of default_options t = 0"
  by (simp add: dst_of_def thread_args_def default_options_def)

theorem vector_sums_exact_witness:
  "\<exists>s. reach (vec_step vector_add_global_order default_options) (vec_start default_options) s \<and> finished s \<and>
    bad s = None \<and> vals s 0 = replicate 100 2 \<and> vals s 1 = replicate 100 1"
proof -
  let ?step = "vec_step vector_add_global_order default_options"
  have st: "vec_start default_options initial"
    by (simp add: vec_start_def default_options_def MAX_THREADS_def)
  obtain as s where as: "run ?step as initial = Some s" "ended s"
    using go_order.can_end [OF reach_start [of "vec_start default_options", OF st]] by blast
  have r: "reach ?step (vec_start default_options) s"
    by (rule reach_run [where s = initial and as = as]) (fact st, fact as(1))
  have p: "\<not> cause_deadlock default_options" by (simp add: default_options_def)
  have "nloops default_options = 1" by (simp add: default_options_def)
  moreover have "{t. t = 0 \<or> t = Suc 0} = {0, 1}" by auto
  ultimately have final: "final_value default_options 0 = 2" "final_value default_options 1 = 1"
    by (simp_all add: workers_two dst_default final_value_def)
  then have rg: "in_range default_options" by (simp add: in_range_def dst_default int_ok_def)
  note ex = vector_sums_exact [OF r p rg, of _]
  have b: "bad s = None" using ex [of 0] by blast
  then have f: "finished s" using as(2) by (simp add: ended_def)
  have "vals s k = replicate VECTOR_SIZE (final_value default_options k)" for k using ex [of k] f by blast
  then show ?thesis using r f b final by (auto simp: VECTOR_SIZE_def)
qed

text \<open>The options of \<open>vector-deadlock -d\<close> and \<open>vector-try-wait -d\<close>, with the default two threads.\<close>

definition crossed :: options where
  "crossed = default_options\<lparr>cause_deadlock := True\<rparr>"

definition both_enter :: "tact list" where
  "both_enter = [Main, Main, Main, Thread 0, Thread 0, Thread 1, Thread 1]"

lemmas step_defs = vec_step_def main_step_def worker_def print_info_def goto_def dst_of_def src_of_def
  thread_args_def crossed_def default_options_def both_enter_def initial_def ended_def finished_def

text \<open>Property C38.
  \<open>vector-deadlock -d\<close> can deadlock: after three steps of each of the two threads no step is possible any more, and the program
  has not ended.
\<close>

theorem vector_deadlock_deadlocks:
  "\<exists>s. run (vec_step vector_add_deadlock crossed) (both_enter @ [Thread 0, Thread 1]) initial = Some s \<and>
    \<not> ended s \<and> (\<forall>a. vec_step vector_add_deadlock crossed a s = None)"
proof -
  let ?s = "\<lparr>wpcs = (\<lambda>_. Not_created)(0 := A_second, 1 := A_second), mainpc = M_join 0, iter = (\<lambda>_. 0),
     index = (\<lambda>_. 0), reg = (\<lambda>_. 0), owner_of = (\<lambda>_. None)(Vec_lock 0 := Some 0, Vec_lock 1 := Some 1),
     vals = (\<lambda>k. vector_init (int k)), retry = 0, bad = None\<rparr>"
  have "run (vec_step vector_add_deadlock crossed) (both_enter @ [Thread 0, Thread 1]) initial = Some ?s"
    by (simp add: step_defs vector_add_deadlock_def mutex_lock_def fun_upd_twist)
  moreover have "vec_step vector_add_deadlock crossed a ?s = None" for a
    by (cases a) (simp_all add: step_defs vector_add_deadlock_def mutex_lock_def)
  moreover have "\<not> ended ?s" by (simp add: step_defs)
  ultimately show ?thesis by blast
qed

text \<open>The livelock of \<open>vector-try-wait -d\<close>.\<close>

definition try_round :: "tact list" where
  "try_round = [Thread 0, Thread 1, Thread 0, Thread 1, Thread 0, Thread 0, Thread 1, Thread 1]"

definition at_enter :: "int \<Rightarrow> vsys" where
  "at_enter r = \<lparr>wpcs = (\<lambda>_. Not_created)(0 := A_enter, 1 := A_enter), mainpc = M_join 0, iter = (\<lambda>_. 0),
     index = (\<lambda>_. 0), reg = (\<lambda>_. 0), owner_of = (\<lambda>_. None), vals = (\<lambda>k. vector_init (int k)), retry = r, bad = None\<rparr>"

lemma run_both_enter: "run (vec_step vector_add_try_wait crossed) both_enter initial = Some (at_enter 0)"
  by (simp add: step_defs at_enter_def fun_upd_twist)

lemma run_try_round:
  assumes "0 \<le> r" "r < 2 ^ 31 - 2"
  shows "run (vec_step vector_add_try_wait crossed) try_round (at_enter r) = Some (at_enter (r + 2))"
proof -
  have "int_ok (r + 1)" "int_ok (2 + r)" using assms by (simp_all add: int_ok_def)
  then show ?thesis
    by (simp add: try_round_def at_enter_def step_defs vector_add_try_wait_def mutex_trylock_def mutex_unlock_def
        fun_upd_twist fun_upd_idem)
qed

lemma run_try_rounds:
  "2 * n < 2 ^ 31 \<Longrightarrow>
    run (vec_step vector_add_try_wait crossed) (concat (replicate n try_round)) (at_enter 0) = Some (at_enter (2 * int n))"
proof (induction n)
  case 0
  then show ?case by simp
next
  case (Suc n)
  have "run (vec_step vector_add_try_wait crossed) (concat (replicate n try_round @ [try_round])) (at_enter 0) =
      Some (at_enter (2 * int n + 2))"
    using Suc run_try_round [of "2 * int n"] by (simp add: run_append)
  then show ?case by (simp add: replicate_append_same algebra_simps)
qed

lemma run_last_round:
  "\<exists>s. run (vec_step vector_add_try_wait crossed) (take 7 try_round) (at_enter (2 ^ 31 - 2)) = Some s \<and>
    bad s = Some Int_overflow"
  by (simp add: try_round_def at_enter_def step_defs vector_add_try_wait_def mutex_trylock_def mutex_unlock_def
      int_ok_def)

text \<open>\<open>vector-try-wait -d\<close> can livelock: the two threads take their first locks, fail to get the second ones, count a retry each and
  release, and are back where they were. After any number \<open>n\<close> of such rounds nothing has changed but the counter, which is \<open>2 * n\<close>;
  the last round before \<open>2^31\<close> ends the run, as the counter overflows.
\<close>

theorem try_wait_livelocks:
  "(2 * n < 2 ^ 31 \<longrightarrow>
     (\<exists>s. run (vec_step vector_add_try_wait crossed) (both_enter @ concat (replicate n try_round)) initial = Some s \<and>
       retry s = 2 * int n \<and> \<not> ended s \<and> (\<forall>t < 2. wpcs s t = A_enter \<and> iter s t = 0))) \<and>
   (\<exists>s. run (vec_step vector_add_try_wait crossed)
       (both_enter @ concat (replicate (2 ^ 30 - 1) try_round) @ take 7 try_round) initial = Some s \<and>
     bad s = Some Int_overflow)"
proof (intro conjI impI)
  assume "2 * n < 2 ^ 31"
  then have r: "run (vec_step vector_add_try_wait crossed) (both_enter @ concat (replicate n try_round)) initial =
      Some (at_enter (2 * int n))"
    using run_try_rounds run_both_enter by (simp only: run_append option.case)
  have "wpcs (at_enter (2 * int n)) t = A_enter \<and> iter (at_enter (2 * int n)) t = 0" if "t < 2" for t
    using that by (auto simp: at_enter_def less_2_cases_iff)
  then show "\<exists>s. run (vec_step vector_add_try_wait crossed) (both_enter @ concat (replicate n try_round)) initial = Some s \<and>
      retry s = 2 * int n \<and> \<not> ended s \<and> (\<forall>t < 2. wpcs s t = A_enter \<and> iter s t = 0)"
    using r by (intro exI [of _ "at_enter (2 * int n)"]) (simp add: at_enter_def ended_def finished_def)
next
  have "run (vec_step vector_add_try_wait crossed) (concat (replicate (2 ^ 30 - 1) try_round)) (at_enter 0) =
      Some (at_enter (2 * int (2 ^ 30 - 1)))" by (rule run_try_rounds) simp
  moreover have "2 * int (2 ^ 30 - 1) = 2 ^ 31 - 2" by simp
  ultimately show "\<exists>s. run (vec_step vector_add_try_wait crossed)
       (both_enter @ concat (replicate (2 ^ 30 - 1) try_round) @ take 7 try_round) initial = Some s \<and>
     bad s = Some Int_overflow"
    using run_last_round run_both_enter by (simp only: run_append option.case)
qed

theorem try_wait_livelocks_witness:
  "\<exists>s. run (vec_step vector_add_try_wait crossed) (both_enter @ concat (replicate 1000000 try_round)) initial = Some s \<and>
    retry s = 2000000 \<and> \<not> ended s \<and> (\<forall>t < 2. wpcs s t = A_enter \<and> iter s t = 0)"
  using try_wait_livelocks [of 1000000] by simp

end
