(* ===== verification/VecArgs.thy ===== *)
theory VecArgs
  imports VecAdd Ctext
begin

text \<open>
  The options of the programs of \<open>src/concurrency/threads-bugs\<close> (\<open>main-common.c\<close>), from the command line to the state in which
  the threads are created.
\<close>

definition usage :: "string \<Rightarrow> stop + 'a" where
  "usage prog = Inl (Exit_1 (''usage: '' @ prog @
     '' [-d (turn on deadlocking behavior)] [-l loops] [-n num_threads] [-t (do timing)] [-v (for verbose)]'' @ [CHR 0x0A]))"

text \<open>The body of the loop over \<open>getopt\<close>, and the loop.\<close>

definition vec_option :: "string \<Rightarrow> char \<Rightarrow> string \<Rightarrow> options \<Rightarrow> stop + options" where
  "vec_option prog c optarg opts =
     (if c = CHR ''l'' then and_then (atoi_arg optarg) (\<lambda>x. Inr (opts\<lparr>nloops := x\<rparr>))
      else if c = CHR ''n'' then and_then (atoi_arg optarg) (\<lambda>x. Inr (opts\<lparr>num_threads := x\<rparr>))
      else if c = CHR ''v'' then Inr (opts\<lparr>verbose := True\<rparr>)
      else if c = CHR ''t'' then Inr (opts\<lparr>do_timing := True\<rparr>)
      else if c = CHR ''d'' then Inr (opts\<lparr>cause_deadlock := True\<rparr>)
      else if c = CHR ''p'' then Inr (opts\<lparr>enable_parallelism := True\<rparr>)
      else usage prog)"

fun vec_options :: "string \<Rightarrow> (char \<times> string) list \<Rightarrow> options \<Rightarrow> stop + options" where
  "vec_options prog [] opts = Inr opts"
| "vec_options prog ((c, optarg) # os) opts =
     and_then (vec_option prog c optarg opts) (vec_options prog os)"

definition vec_setup :: "string \<Rightarrow> string list \<Rightarrow> stop + options" where
  "vec_setup prog argv =
     and_then (vec_options prog (getopt (optstring ''l:n:vtdp'') argv) default_options) (\<lambda>opts.
       assert_that (num_threads opts < int MAX_THREADS) ''num_threads < MAX_THREADS'' opts)"

lemma vec_setup_start: "vec_setup prog argv = Inr opts \<Longrightarrow> vec_start opts initial"
  by (auto simp: vec_setup_def vec_start_def and_then_Inr_iff assert_that_def split: if_splits)

lemma vec_setup_options:
  assumes "l < 2 ^ 31" "n < 2 ^ 31"
  shows "vec_setup prog [''-dp'', ''-n'' @ decimal n, ''-l'', decimal l] =
    (if n < 100 then Inr (default_options\<lparr>nloops := int l, num_threads := int n, cause_deadlock := True,
        enable_parallelism := True\<rparr>)
     else Inl (Aborted ''num_threads < MAX_THREADS''))"
proof -
  have "decimal n \<noteq> []" using decimal_ok by blast
  then show ?thesis
    using assms by (simp add: vec_setup_def vec_option_def atoi_arg_def atoi_decimal default_options_def
        assert_that_def MAX_THREADS_def)
qed

end
