(* ===== verification/PcArgs.thy ===== *)
theory PcArgs
  imports ProdCons Ctext
begin

text \<open>
  The start of the producer/consumer programs of \<open>src/concurrency/threads-cv\<close>, up to the creation of the threads: the options of the
  command line and the assertions on them (\<open>main-common.c\<close>), and the sleep strings and the pauses (\<open>main-header.h\<close>).
\<close>

section \<open>Sleep strings\<close>

text \<open>The inner loop of \<open>parse_pause_string\<close> on one piece; \<open>row\<close> is \<open>pause_array[index]\<close>, which the outer loop has set to zeros.\<close>

function parse_commas :: "string \<Rightarrow> nat \<Rightarrow> int list \<Rightarrow> stop + int list" where
  "parse_commas piece inner_index row =
     (case strtok (CHR '','') piece of
        None \<Rightarrow> Inr row
      | Some (c, rest) \<Rightarrow>
          (case atoi c of
             Inl e \<Rightarrow> Inl (Fault e)
           | Inr pause_amount \<Rightarrow>
               and_then
                 (ensure (inner_index < 7)
                    ''you specified a sleep string incorrectly... (too many comma-separated args)'' row)
                 (\<lambda>row. parse_commas rest (inner_index + 1) (row[inner_index := pause_amount]))))"
  by pat_completeness auto
termination
  by (relation "measure (\<lambda>(piece, inner_index, row). length piece)") (auto dest: strtok_shorter)

declare parse_commas.simps [simp del]

text \<open>The outer loop: the number of pieces and the array after it.\<close>

function parse_pieces :: "string \<Rightarrow> nat \<Rightarrow> int list list \<Rightarrow> stop + nat \<times> int list list" where
  "parse_pieces str index pause_array =
     (case strtok (CHR '':'') str of
        None \<Rightarrow> Inr (index, pause_array)
      | Some (p, rest) \<Rightarrow>
          (if index < length pause_array
           then and_then (parse_commas p 0 (replicate 7 0))
                  (\<lambda>row. parse_pieces rest (index + 1) (pause_array[index := row]))
           else Inl (Fault Out_of_bounds)))"
  by pat_completeness auto
termination
  by (relation "measure (\<lambda>(str, index, pause_array). length str)") (auto dest: strtok_shorter)

declare parse_pieces.simps [simp del]

definition parse_pause_string :: "string \<Rightarrow> int \<Rightarrow> int list list \<Rightarrow> stop + int list list" where
  "parse_pause_string str expected_pieces pause_array =
     and_then (parse_pieces str 0 pause_array) (\<lambda>(colon_count, pause_array').
       if expected_pieces \<noteq> int colon_count
       then Inl (Exit_1 ''Error: expected %d %s in sleep specification, got %d'')
       else Inr pause_array')"

section \<open>The options\<close>

record pc_args =
  arg_loops :: int
  arg_slots :: int
  arg_consumers :: int
  arg_producers :: int
  producer_pause_string :: "string option"
  consumer_pause_string :: "string option"
  do_trace :: bool
  do_timing :: bool

definition pc_defaults :: pc_args where
  "pc_defaults = \<lparr>arg_loops = 1, arg_slots = 1, arg_consumers = 1, arg_producers = 1,
     producer_pause_string = None, consumer_pause_string = None, do_trace = False, do_timing = False\<rparr>"

definition usage_lines :: "string list" where
  "usage_lines =
     [''usage: '',
      ''  -l <number of items each producer produces>'',
      ''  -m <size of the shared producer/consumer buffer>'',
      ''  -p <number of producers>'',
      ''  -c <number of consumers>'',
      ''  -P <sleep string: how each producer should sleep at various points in execution>'',
      ''  -C <sleep string: how each consumer should sleep at various points in execution>'',
      ''  -v [ verbose flag: trace what is happening and print it ]'',
      ''  -t [ timing flag: time entire execution and print total time ]'']"

definition usage :: "stop + 'a" where
  "usage = Inl (Exit_1 (concat (map (\<lambda>line. line @ [CHR 0x0A]) usage_lines)))"

text \<open>The body of the loop over \<open>getopt\<close>, and the loop.\<close>

definition pc_option :: "char \<Rightarrow> string \<Rightarrow> pc_args \<Rightarrow> stop + pc_args" where
  "pc_option c optarg a =
     (if c = CHR ''l'' then and_then (atoi_arg optarg) (\<lambda>x. Inr (a\<lparr>arg_loops := x\<rparr>))
      else if c = CHR ''m'' then and_then (atoi_arg optarg) (\<lambda>x. Inr (a\<lparr>arg_slots := x\<rparr>))
      else if c = CHR ''p'' then and_then (atoi_arg optarg) (\<lambda>x. Inr (a\<lparr>arg_producers := x\<rparr>))
      else if c = CHR ''c'' then and_then (atoi_arg optarg) (\<lambda>x. Inr (a\<lparr>arg_consumers := x\<rparr>))
      else if c = CHR ''P'' then Inr (a\<lparr>producer_pause_string := Some optarg\<rparr>)
      else if c = CHR ''C'' then Inr (a\<lparr>consumer_pause_string := Some optarg\<rparr>)
      else if c = CHR ''v'' then Inr (a\<lparr>do_trace := True\<rparr>)
      else if c = CHR ''t'' then Inr (a\<lparr>do_timing := True\<rparr>)
      else usage)"

fun pc_options :: "(char \<times> string) list \<Rightarrow> pc_args \<Rightarrow> stop + pc_args" where
  "pc_options [] a = Inr a"
| "pc_options ((c, optarg) # os) a = and_then (pc_option c optarg a) (pc_options os)"

definition pause_times :: "string option \<Rightarrow> int \<Rightarrow> int list list \<Rightarrow> stop + int list list" where
  "pause_times str n pause_array =
     (case str of None \<Rightarrow> Inr pause_array | Some s \<Rightarrow> parse_pause_string s n pause_array)"

definition no_pauses :: "int list list" where
  "no_pauses = replicate MAX_THREADS (replicate 7 0)"

definition pc_setup :: "string list \<Rightarrow> stop + pc_args \<times> int list list \<times> int list list" where
  "pc_setup argv =
     and_then (pc_options (getopt (optstring ''l:m:p:c:P:C:vt'') argv) pc_defaults) (\<lambda>a.
     and_then (assert_that (0 < arg_loops a) ''loops > 0'' a) (\<lambda>a.
     and_then (assert_that (0 < arg_slots a) ''max > 0'' a) (\<lambda>a.
     and_then (assert_that (arg_producers a \<le> int MAX_THREADS) ''producers <= MAX_THREADS'' a) (\<lambda>a.
     and_then (assert_that (arg_consumers a \<le> int MAX_THREADS) ''consumers <= MAX_THREADS'' a) (\<lambda>a.
     and_then (pause_times (producer_pause_string a) (arg_producers a) no_pauses) (\<lambda>pp.
     and_then (pause_times (consumer_pause_string a) (arg_consumers a) no_pauses) (\<lambda>cp.
       Inr (a, pp, cp))))))))"

text \<open>The state in which the threads are created.\<close>

definition setup_state :: "pc_args \<Rightarrow> pcsys" where
  "setup_state a = pc_init (nat (arg_loops a)) (nat (arg_slots a)) (nat (arg_producers a)) (nat (arg_consumers a))"

text \<open>
  The ids that \<open>main\<close> gives the threads: \<open>thread_id\<close> counts on from the producers to the consumers. When the number of
  producers is negative its loop creates none, and the consumers' ids begin with 0.
\<close>

definition thread_ids :: "pc_args \<Rightarrow> int list \<times> int list" where
  "thread_ids a =
     (let thread_id = nat (arg_producers a)
      in (map int [0..<thread_id], map int [thread_id..<thread_id + nat (arg_consumers a)]))"

section \<open>Printing and pausing\<close>

definition do_print_headers :: "pc_args \<Rightarrow> string" where
  "do_print_headers a =
     (if \<not> do_trace a then []
      else '' NF '' @ concat (replicate (nat (arg_slots a)) ''     '') @ ''  '' @
        concat (map (\<lambda>i. ''P'' @ decimal i @ '' '') [0..<nat (arg_producers a)]) @
        concat (map (\<lambda>i. ''C'' @ decimal i @ '' '') [0..<nat (arg_consumers a)]) @ [CHR 0x0A])"

text \<open>What a thread prints (the buffer, then the name of the pause under the thread's column), and how long it sleeps.\<close>

definition pause_entry :: "int list list \<Rightarrow> int \<Rightarrow> nat \<Rightarrow> stop + int" where
  "pause_entry pause_array local_id slot =
     (if 0 \<le> local_id \<and> local_id < int (length pause_array) \<and> slot < length (pause_array ! nat local_id)
      then Inr (pause_array ! nat local_id ! slot) else Inl (Fault Out_of_bounds))"

definition do_pause ::
    "pc_args \<Rightarrow> int list list \<Rightarrow> int list list \<Rightarrow> 'z ring_scheme \<Rightarrow> int \<Rightarrow> bool \<Rightarrow> nat \<Rightarrow> string \<Rightarrow>
      stop + ((int \<times> (char \<times> cell) list) \<times> string) option \<times> int" where
  "do_pause a producer_pause_times consumer_pause_times s thread_id is_producer pause_slot str =
     (let line = (if do_trace a
           then Some (do_print_buffer s, concat (replicate (nat thread_id) ''   '') @ str) else None)
      in and_then
           (if is_producer then pause_entry producer_pause_times thread_id pause_slot
            else if int_ok (thread_id - arg_producers a)
              then pause_entry consumer_pause_times (thread_id - arg_producers a) pause_slot
            else Inl (Fault Int_overflow))
           (\<lambda>pause_time. Inr (line, pause_time)))"

definition do_eos :: "pc_args \<Rightarrow> 'z ring_scheme \<Rightarrow> ((int \<times> (char \<times> cell) list) \<times> string) option" where
  "do_eos a s = (if do_trace a then Some (do_print_buffer s, ''[main: added end-of-stream marker]'') else None)"

section \<open>Correctness\<close>

text \<open>A sleep string, as the comment in the code describes it.\<close>

definition sleep_piece :: "nat list \<Rightarrow> string" where
  "sleep_piece xs = join (CHR '','') (map decimal xs)"

definition sleep_string :: "nat list list \<Rightarrow> string" where
  "sleep_string rows = join (CHR '':'') (map sleep_piece rows)"

definition padded :: "nat list \<Rightarrow> int list" where
  "padded xs = map int xs @ replicate (7 - length xs) 0"

lemma decimal_no_separator: "CHR '','' \<notin> set (decimal n)" "CHR '':'' \<notin> set (decimal n)"
proof -
  have "\<not> isdigit (CHR '','')" "\<not> isdigit (CHR '':'')" by (simp_all add: isdigit_def)
  then show "CHR '','' \<notin> set (decimal n)" "CHR '':'' \<notin> set (decimal n)" using decimal_chars by blast+
qed

lemma decimal_nonempty: "decimal n \<noteq> []"
  using decimal_ok by blast

lemma parse_commas_step:
  assumes "x < 2 ^ 31"
  shows "parse_commas (sleep_piece (x # xs)) k row =
    and_then (ensure (k < 7) ''you specified a sleep string incorrectly... (too many comma-separated args)'' row)
      (\<lambda>row. parse_commas (sleep_piece xs) (k + 1) (row[k := int x]))"
proof -
  have "strtok (CHR '','') (sleep_piece (x # xs)) = Some (decimal x, sleep_piece xs)"
    unfolding sleep_piece_def list.map by (rule strtok_join [OF decimal_nonempty decimal_no_separator(1)])
  then show ?thesis using atoi_decimal [OF assms] by (simp add: parse_commas.simps [of "sleep_piece (x # xs)"])
qed

lemma parse_commas_nil: "parse_commas (sleep_piece []) k row = Inr row"
  by (simp add: sleep_piece_def parse_commas.simps)

lemma parse_commas_numbers:
  "\<forall>x\<in>set xs. x < 2 ^ 31 \<Longrightarrow> k + length xs \<le> 7 \<Longrightarrow> length row = 7 \<Longrightarrow>
    parse_commas (sleep_piece xs) k row = Inr (take k row @ map int xs @ drop (k + length xs) row)"
proof (induction xs arbitrary: k row)
  case Nil
  then show ?case by (simp add: parse_commas_nil)
next
  case (Cons x xs)
  then have "take (k + 1) (row[k := int x]) = take k row @ [int x]"
    by (simp add: take_Suc_conv_app_nth)
  then show ?case using Cons by (simp add: parse_commas_step ensure_def)
qed

lemma parse_commas_too_many:
  "\<forall>x\<in>set xs. x < 2 ^ 31 \<Longrightarrow> 7 < k + length xs \<Longrightarrow> k \<le> 7 \<Longrightarrow>
    parse_commas (sleep_piece xs) k row =
      Inl (Exit_1 ''you specified a sleep string incorrectly... (too many comma-separated args)'')"
proof (induction xs arbitrary: k row)
  case Nil
  then show ?case by simp
next
  case (Cons x xs)
  then show ?case by (cases "k = 7") (simp_all add: parse_commas_step ensure_def)
qed

lemma sleep_piece_ok: "xs \<noteq> [] \<Longrightarrow> sleep_piece xs \<noteq> [] \<and> CHR '':'' \<notin> set (sleep_piece xs)"
proof -
  assume "xs \<noteq> []"
  then have "sleep_piece xs \<noteq> []"
    using decimal_nonempty by (cases xs) (simp_all add: sleep_piece_def)
  moreover have "CHR '':'' \<notin> set (sleep_piece xs)"
    using set_join [of "CHR '',''" "map decimal xs"] decimal_no_separator(2) by (auto simp: sleep_piece_def)
  ultimately show ?thesis by blast
qed

lemma parse_pieces_step:
  assumes "xs \<noteq> []"
  shows "parse_pieces (sleep_string (xs # rows)) k arr =
    (if k < length arr
     then and_then (parse_commas (sleep_piece xs) 0 (replicate 7 0))
            (\<lambda>row. parse_pieces (sleep_string rows) (k + 1) (arr[k := row]))
     else Inl (Fault Out_of_bounds))"
proof -
  have "strtok (CHR '':'') (sleep_string (xs # rows)) = Some (sleep_piece xs, sleep_string rows)"
    unfolding sleep_string_def list.map
    by (rule strtok_join) (use sleep_piece_ok [OF assms] in auto)
  then show ?thesis by (simp add: parse_pieces.simps [of "sleep_string (xs # rows)"])
qed

lemma parse_pieces_nil: "parse_pieces (sleep_string []) k arr = Inr (k, arr)"
  by (simp add: sleep_string_def parse_pieces.simps)

lemma parse_pieces_rows:
  "\<forall>xs\<in>set rows. xs \<noteq> [] \<and> length xs \<le> 7 \<and> (\<forall>x\<in>set xs. x < 2 ^ 31) \<Longrightarrow> k \<le> length arr \<Longrightarrow>
    parse_pieces (sleep_string rows) k arr =
      (if k + length rows \<le> length arr
       then Inr (k + length rows, take k arr @ map padded rows @ drop (k + length rows) arr)
       else Inl (Fault Out_of_bounds))"
proof (induction rows arbitrary: k arr)
  case Nil
  then show ?case by (simp add: parse_pieces_nil)
next
  case (Cons xs rows)
  then have row: "parse_commas (sleep_piece xs) 0 (replicate 7 0) = Inr (padded xs)"
    by (simp add: parse_commas_numbers padded_def)
  have xs: "xs \<noteq> []" using Cons.prems by simp
  show ?case
  proof (cases "k < length arr")
    case True
    then have "take (k + 1) (arr[k := padded xs]) = take k arr @ [padded xs]"
      by (simp add: take_Suc_conv_app_nth)
    then show ?thesis using Cons True row xs by (simp add: parse_pieces_step)
  next
    case False
    then show ?thesis using Cons.prems xs by (simp add: parse_pieces_step)
  qed
qed

lemma parse_pieces_bad_row:
  "\<forall>xs\<in>set rows. xs \<noteq> [] \<and> length xs \<le> 7 \<and> (\<forall>x\<in>set xs. x < 2 ^ 31) \<Longrightarrow> k + length rows < length arr \<Longrightarrow>
    7 < length bad \<Longrightarrow> \<forall>x\<in>set bad. x < 2 ^ 31 \<Longrightarrow>
    parse_pieces (sleep_string (rows @ bad # others)) k arr =
      Inl (Exit_1 ''you specified a sleep string incorrectly... (too many comma-separated args)'')"
proof (induction rows arbitrary: k arr)
  case Nil
  then have "bad \<noteq> []" by auto
  then show ?case using Nil by (simp add: parse_pieces_step parse_commas_too_many)
next
  case (Cons xs rows)
  then show ?case by (simp add: parse_pieces_step parse_commas_numbers)
qed

text \<open>Property C22.
  \<open>parse_pause_string\<close> on a sleep string with pieces of one to seven numbers: it stores the numbers and fills every piece
  up with zeros, and accepts exactly the expected number of pieces, but it writes past the array before it counts more than
  100 of them. A piece of more than seven numbers ends the program.
\<close>

theorem parse_pause_string_exact:
  assumes "\<forall>xs\<in>set rows. xs \<noteq> [] \<and> length xs \<le> 7 \<and> (\<forall>x\<in>set xs. x < 2 ^ 31)" "length arr = MAX_THREADS"
  shows "parse_pause_string (sleep_string rows) n arr =
      (if length rows > MAX_THREADS then Inl (Fault Out_of_bounds)
       else if n \<noteq> int (length rows) then Inl (Exit_1 ''Error: expected %d %s in sleep specification, got %d'')
       else Inr (map padded rows @ drop (length rows) arr)) \<and>
    (length rows < MAX_THREADS \<and> 7 < length bad \<and> (\<forall>x\<in>set bad. x < 2 ^ 31) \<longrightarrow>
      parse_pause_string (sleep_string (rows @ bad # others)) n arr =
        Inl (Exit_1 ''you specified a sleep string incorrectly... (too many comma-separated args)''))"
  using parse_pieces_rows [OF assms(1), of 0 arr] parse_pieces_bad_row [OF assms(1), of 0 arr bad others] assms(2)
  by (simp add: parse_pause_string_def)

theorem parse_pause_string_exact_witness:
  "parse_pause_string (sleep_string [[1, 2, 0], [2, 3]]) 2 no_pauses =
     Inr (([1, 2, 0] @ replicate 4 0) # ([2, 3] @ replicate 5 0) # replicate 98 (replicate 7 0)) \<and>
   parse_pause_string (sleep_string [[1]]) 2 no_pauses =
     Inl (Exit_1 ''Error: expected %d %s in sleep specification, got %d'')"
  using parse_pause_string_exact [of "[[1, 2, 0], [2, 3]]" no_pauses 2 "[]" "[]"]
    parse_pause_string_exact [of "[[1]]" no_pauses 2 "[]" "[]"]
  by (simp add: no_pauses_def MAX_THREADS_def padded_def)

lemma parse_commas_length:
  "parse_commas piece k row = Inr row' \<Longrightarrow> length row' = length row"
proof (induction piece k row rule: parse_commas.induct)
  case (1 piece k row)
  show ?case
  proof (cases "strtok (CHR '','') piece")
    case None
    then show ?thesis using 1(2) by (simp add: parse_commas.simps [of piece])
  next
    case (Some cr)
    obtain c rest where cr: "cr = (c, rest)" by (cases cr)
    show ?thesis
    proof (cases "atoi c")
      case (Inl e)
      then show ?thesis using 1(2) Some cr by (simp add: parse_commas.simps [of piece])
    next
      case (Inr x)
      then have "k < 7 \<and> parse_commas rest (k + 1) (row[k := x]) = Inr row'"
        using 1(2) Some cr by (simp add: parse_commas.simps [of piece] ensure_def split: if_splits)
      then show ?thesis using 1(1) [OF Some cr [symmetric] Inr, of row] by simp
    qed
  qed
qed

lemma parse_pieces_shape:
  "parse_pieces str k arr = Inr (n, arr') \<Longrightarrow> \<forall>row\<in>set arr. length row = 7 \<Longrightarrow>
    length arr' = length arr \<and> (\<forall>row\<in>set arr'. length row = 7)"
proof (induction str k arr arbitrary: n arr' rule: parse_pieces.induct)
  case (1 str k arr)
  show ?case
  proof (cases "strtok (CHR '':'') str")
    case None
    then show ?thesis using 1(2,3) by (simp add: parse_pieces.simps [of str])
  next
    case (Some pr)
    obtain p rest where pr: "pr = (p, rest)" by (cases pr)
    obtain row where row: "k < length arr" "parse_commas p 0 (replicate 7 0) = Inr row"
        "parse_pieces rest (k + 1) (arr[k := row]) = Inr (n, arr')"
      using 1(2) Some pr by (auto simp: parse_pieces.simps [of str] and_then_Inr_iff split: if_splits)
    have "length row = 7" using parse_commas_length [OF row(2)] by simp
    then have "\<forall>r\<in>set (arr[k := row]). length r = 7"
      using 1(3) set_update_subset_insert [of arr k row] by blast
    then show ?thesis using 1(1) [OF Some pr [symmetric] row(1) row(3)] by simp
  qed
qed

lemma pause_times_shape:
  assumes "pause_times str n no_pauses = Inr arr"
  shows "length arr = MAX_THREADS \<and> (\<forall>row\<in>set arr. length row = 7)"
proof (cases str)
  case None
  then show ?thesis using assms by (auto simp: pause_times_def no_pauses_def)
next
  case (Some s)
  then obtain k where "parse_pieces s 0 no_pauses = Inr (k, arr)"
    using assms by (auto simp: pause_times_def parse_pause_string_def and_then_Inr_iff split: if_splits)
  then show ?thesis using parse_pieces_shape [of s 0 no_pauses k arr] by (simp add: no_pauses_def)
qed

lemma pause_entry_ok:
  assumes "length arr = MAX_THREADS \<and> (\<forall>row\<in>set arr. length row = 7)" "0 \<le> l" "k < 7"
  shows "pause_entry arr l k = (if l < 100 then Inr (arr ! nat l ! k) else Inl (Fault Out_of_bounds))"
proof -
  have "length (arr ! nat l) = 7" if "l < 100" using assms(1,2) that by (simp add: MAX_THREADS_def)
  then show ?thesis using assms by (simp add: pause_entry_def MAX_THREADS_def)
qed

lemma pc_setup_Inr:
  assumes "pc_setup argv = Inr (a, pp, cp)"
  shows "0 < arg_loops a" "0 < arg_slots a" "arg_producers a \<le> 100" "arg_consumers a \<le> 100"
    and "pause_times (producer_pause_string a) (arg_producers a) no_pauses = Inr pp"
    and "pause_times (consumer_pause_string a) (arg_consumers a) no_pauses = Inr cp"
  using assms by (auto simp: pc_setup_def and_then_Inr_iff assert_that_def MAX_THREADS_def split: if_splits)

lemma pc_start_setup:
  assumes "pc_setup argv = Inr (a, pp, cp)" "0 < arg_consumers a" "arg_producers a * arg_loops a \<le> 2 ^ 31"
  shows "pc_start (setup_state a)"
proof -
  note a = pc_setup_Inr [OF assms(1)]
  have "int (nat (arg_producers a)) * int (nat (arg_loops a)) \<le> 2 ^ 31"
    using assms(3) a by (cases "0 \<le> arg_producers a") simp_all
  moreover have "nat (arg_producers a) \<le> 100" "nat (arg_consumers a) \<le> 100" using a by simp_all
  ultimately show ?thesis
    using assms(2) a by (simp add: pc_start_def setup_state_def pc_init_def ring_init_def MAX_THREADS_def)
qed

text \<open>Property C23.
  What the start of the program guarantees, when it gets to the creation of the threads: positive sizes and at most 100 threads of each
  kind. Every pause of every producer, by the id that \<open>main\<close> gives it, reads its own entry of the array of sleep times. Consumer \<open>j\<close> reads
  its own entry when the number of producers is not negative. Nothing asks for that: with \<open>-p\<close> and a negative number
  the consumers' ids begin with 0, consumer \<open>j\<close> reads the entry of another one as long as \<open>j - producers\<close> is below 100, and
  beyond that \<open>do_pause\<close> reads past the array or leaves the range of \<open>int\<close>. With at least one consumer and values that fit an \<open>int\<close>
  this is a start state of the model of the threads.
\<close>

theorem pc_setup_guarantees:
  assumes "pc_setup argv = Inr (a, pp, cp)"
  shows "0 < arg_loops a \<and> 0 < arg_slots a \<and> arg_producers a \<le> 100 \<and> arg_consumers a \<le> 100 \<and>
    (i < length (fst (thread_ids a)) \<and> k < 7 \<longrightarrow>
      (\<exists>line. do_pause a pp cp s (fst (thread_ids a) ! i) True k str = Inr (line, pp ! i ! k))) \<and>
    (j < length (snd (thread_ids a)) \<and> k < 7 \<longrightarrow>
      (let local_id = (if 0 \<le> arg_producers a then int j else int j - arg_producers a);
           result = do_pause a pp cp s (snd (thread_ids a) ! j) False k str
       in if local_id < 100 then \<exists>line. result = Inr (line, cp ! nat local_id ! k)
          else if int_ok local_id then result = Inl (Fault Out_of_bounds)
          else result = Inl (Fault Int_overflow))) \<and>
    (0 < arg_consumers a \<and> arg_producers a * arg_loops a \<le> 2 ^ 31 \<longrightarrow> pc_start (setup_state a))"
proof -
  note a = pc_setup_Inr [OF assms]
  note entry = pause_entry_ok [OF pause_times_shape [OF a(5)]] pause_entry_ok [OF pause_times_shape [OF a(6)]]
  have p: "\<exists>line. do_pause a pp cp s (fst (thread_ids a) ! i) True k str = Inr (line, pp ! i ! k)"
    if "i < length (fst (thread_ids a))" "k < 7"
    using entry(1) [of "int i" k] that a(3) by (auto simp: do_pause_def Let_def thread_ids_def)
  have c: "let local_id = (if 0 \<le> arg_producers a then int j else int j - arg_producers a);
           result = do_pause a pp cp s (snd (thread_ids a) ! j) False k str
       in if local_id < 100 then \<exists>line. result = Inr (line, cp ! nat local_id ! k)
          else if int_ok local_id then result = Inl (Fault Out_of_bounds)
          else result = Inl (Fault Int_overflow)"
    if "j < length (snd (thread_ids a))" "k < 7"
  proof -
    define l where "l = (if 0 \<le> arg_producers a then int j else int j - arg_producers a)"
    have l: "snd (thread_ids a) ! j - arg_producers a = l" "0 \<le> l"
      using that(1) by (auto simp: thread_ids_def Let_def l_def)
    have "int_ok l" if "l < 100" using that l(2) by (simp add: int_ok_def)
    then show ?thesis
      using entry(2) [of l k] that(2) l unfolding l_def [symmetric] by (simp add: do_pause_def Let_def)
  qed
  show ?thesis using a(1-4) p c pc_start_setup [OF assms] by blast
qed

lemma pc_setup_negative:
  "pc_setup [''-p'', ''-1000''] = Inr (pc_defaults\<lparr>arg_producers := -1000\<rparr>, no_pauses, no_pauses)"
proof -
  have "atoi ''-1000'' = Inr (-1000)" by code_simp
  then show ?thesis
    by (simp add: pc_setup_def pc_defaults_def assert_that_def pause_times_def MAX_THREADS_def pc_option_def atoi_arg_def)
qed

theorem pc_setup_guarantees_witness:
  "do_pause (pc_defaults\<lparr>arg_producers := -1000\<rparr>) no_pauses no_pauses (setup_state pc_defaults) 0 False 6 ''c6'' =
    Inl (Fault Out_of_bounds)"
  using pc_setup_guarantees [OF pc_setup_negative, of 0 6 "setup_state pc_defaults" "''c6''" 0]
  by (simp add: pc_defaults_def thread_ids_def Let_def int_ok_def)

text \<open>
  The options are read back: numbers given in decimal as separate words end up in the right places, and flags can share a word; an
  unknown option, and a missing argument, give the usage message; and numbers that fail an assertion abort the program.
\<close>

theorem pc_setup_roundtrip:
  assumes "l < 2 ^ 31" "m < 2 ^ 31" "p < 2 ^ 31" "c < 2 ^ 31"
  shows "pc_setup [''-l'', decimal l, ''-m'', decimal m, ''-p'', decimal p, ''-c'', decimal c, ''-vt''] =
      (if l = 0 then Inl (Aborted ''loops > 0'')
       else if m = 0 then Inl (Aborted ''max > 0'')
       else if 100 < p then Inl (Aborted ''producers <= MAX_THREADS'')
       else if 100 < c then Inl (Aborted ''consumers <= MAX_THREADS'')
       else Inr (\<lparr>arg_loops = int l, arg_slots = int m, arg_consumers = int c, arg_producers = int p,
         producer_pause_string = None, consumer_pause_string = None, do_trace = True, do_timing = True\<rparr>,
         no_pauses, no_pauses)) \<and>
    pc_setup [''-c'' @ decimal c, ''-x''] = usage \<and>
    pc_setup [''-c'' @ decimal c, ''-l''] = usage"
  using assms decimal_nonempty [of c]
  by (simp add: pc_setup_def atoi_arg_def atoi_decimal pc_option_def pc_defaults_def assert_that_def pause_times_def
      MAX_THREADS_def usage_def)

theorem pc_setup_roundtrip_witness:
  "pc_setup [''-l'', decimal 5, ''-m'', decimal 3, ''-p'', decimal 2, ''-c'', decimal 1, ''-vt''] =
    Inr (\<lparr>arg_loops = 5, arg_slots = 3, arg_consumers = 1, arg_producers = 2,
      producer_pause_string = None, consumer_pause_string = None, do_trace = True, do_timing = True\<rparr>,
      no_pauses, no_pauses)"
  using pc_setup_roundtrip [of 5 3 2 1] by simp

end
