(* ===== verification/NodeHeap.thy ===== *)
theory NodeHeap
  imports Contracts
begin

text \<open>
  The heap of linked nodes that \<open>concllist.h\<close> and \<open>concqueue.h\<close> of \<open>src/concurrency/threads-locks\<close> work on: a map from addresses to nodes,
  \<open>NULL\<close> being \<open>None\<close>. \<open>malloc\<close> is a parameter: a function of the heap that returns an address outside of it, or \<open>NULL\<close>.
\<close>

record node =
  val :: int
  link :: "nat option"

type_synonym nheap = "nat \<Rightarrow> node option"

type_synonym malloc_fun = "nheap \<Rightarrow> nat option"

definition deref :: "nheap \<Rightarrow> nat option \<Rightarrow> node res" where
  "deref h p = (case p of None \<Rightarrow> Inl Null_pointer
     | Some a \<Rightarrow> (case h a of None \<Rightarrow> Inl Dangling | Some n \<Rightarrow> Inr n))"

text \<open>An allocator that never fails: it returns an address that is not in use.\<close>

definition allocates :: "malloc_fun \<Rightarrow> bool" where
  "allocates malloc \<longleftrightarrow> (\<forall>h. finite (dom h) \<longrightarrow> (\<exists>a. malloc h = Some a \<and> h a = None))"

text \<open>One such allocator: the address above all others.\<close>

definition above_all :: malloc_fun where
  "above_all h = Some (Suc (Max (insert 0 (dom h))))"

lemma allocates_above_all: "allocates above_all"
  unfolding allocates_def
proof (intro allI impI)
  fix h :: nheap assume fin: "finite (dom h)"
  let ?a = "Suc (Max (insert 0 (dom h)))"
  have "?a \<notin> dom h"
  proof
    assume "?a \<in> dom h"
    then have "?a \<le> Max (insert 0 (dom h))" using fin by (intro Max_ge) auto
    then show False by simp
  qed
  then show "\<exists>a. above_all h = Some a \<and> h a = None" by (auto simp: above_all_def domIff)
qed

locale allocator =
  fixes malloc :: malloc_fun
  assumes alloc: "allocates malloc"

interpretation std: allocator above_all
  by unfold_locales (rule allocates_above_all)

text \<open>The nodes from a pointer on, by their addresses.\<close>

fun chain :: "nheap \<Rightarrow> nat option \<Rightarrow> nat list \<Rightarrow> bool" where
  "chain h p [] = (p = None)"
| "chain h p (a # as) = (p = Some a \<and> (case h a of None \<Rightarrow> False | Some n \<Rightarrow> chain h (link n) as))"

definition vals_of :: "nheap \<Rightarrow> nat list \<Rightarrow> int list" where
  "vals_of h as = map (\<lambda>a. val (the (h a))) as"

lemma chain_dom: "chain h p as \<Longrightarrow> a \<in> set as \<Longrightarrow> h a \<noteq> None"
  by (induction as arbitrary: p) (auto split: option.splits)

lemma chain_frame:
  "chain h p as \<Longrightarrow> (\<And>a. a \<in> set as \<Longrightarrow> h' a = h a) \<Longrightarrow> chain h' p as \<and> vals_of h' as = vals_of h as"
  by (induction as arbitrary: p) (auto simp: vals_of_def split: option.splits)

lemma chain_new:
  assumes "chain h p as" "h a = None"
  shows "chain (h(a \<mapsto> n)) p as \<and> vals_of (h(a \<mapsto> n)) as = vals_of h as"
proof (rule chain_frame [OF assms(1)])
  fix b assume "b \<in> set as"
  then have "b \<noteq> a" using chain_dom [OF assms(1), of b] assms(2) by auto
  then show "(h(a \<mapsto> n)) b = h b" by simp
qed

lemma chain_None [simp]: "chain h None as \<longleftrightarrow> as = []"
  by (cases as) simp_all

lemma chain_unique: "chain h p as \<Longrightarrow> chain h p bs \<Longrightarrow> as = bs"
proof (induction as arbitrary: p bs)
  case Nil
  then show ?case by (cases bs) simp_all
next
  case (Cons a as)
  then show ?case by (cases bs) (auto split: option.splits)
qed

text \<open>A node linked behind the last one.\<close>

lemma chain_link:
  assumes "chain h p (as @ [b])" "b \<notin> set as" "a \<notin> set as" "a \<noteq> b" "h b = Some nb" "link n = None"
  shows "chain (h(a \<mapsto> n, b \<mapsto> nb\<lparr>link := Some a\<rparr>)) p (as @ [b, a])"
  using assms by (induction as arbitrary: p) (auto split: option.splits)

lemma chain_tail: "chain h p (a # as) \<Longrightarrow> chain h (link (the (h a))) as"
  by (auto split: option.splits)

end
