(* ===== verification/ConcList.thy ===== *)
theory ConcList
  imports NodeHeap
begin

text \<open>
  The linked list of \<open>src/concurrency/threads-locks/concllist.h\<close> and the hash table of \<open>conchsh.h\<close>, whose buckets are such lists. The
  operations run under the lock of their list, so they are functions of the list and the heap. \<open>keys\<close> are only ever added.
\<close>

section \<open>The list\<close>

record clist =
  head :: "nat option"

definition List_Init :: clist where
  "List_Init = \<lparr>head = None\<rparr>"

text \<open>When \<open>malloc\<close> fails, the insertion does nothing (but for a message of \<open>perror\<close>).\<close>

definition List_Insert :: "malloc_fun \<Rightarrow> int \<Rightarrow> nheap \<times> clist \<Rightarrow> nheap \<times> clist" where
  "List_Insert malloc key s = (case s of (h, L) \<Rightarrow>
     (case malloc h of
        None \<Rightarrow> (h, L)
      | Some new \<Rightarrow> (h(new \<mapsto> \<lparr>val = key, link = head L\<rparr>), L\<lparr>head := Some new\<rparr>)))"

text \<open>
  The loop of \<open>List_Lookup\<close>, which need not end on a list that is no chain. The function as it is written does not compile: line 40 passes
  the mutex where \<open>pthread_mutex_lock\<close> takes its address. It is modelled with the address, \<open>pthread_mutex_lock(&L->lock)\<close>, that the
  unlocking in line 49 and the other operations pass; the lock makes its body one step, as it does for \<open>List_Insert\<close>.
\<close>

partial_function (option) lookup_loop :: "nheap \<Rightarrow> nat option \<Rightarrow> int \<Rightarrow> int res option" where
  "lookup_loop h p key =
     (if p = None then Some (Inr (-1))
      else case deref h p of
        Inl e \<Rightarrow> Some (Inl e)
      | Inr n \<Rightarrow> if val n = key then Some (Inr 0) else lookup_loop h (link n) key)"

definition List_Lookup :: "nheap \<Rightarrow> clist \<Rightarrow> int \<Rightarrow> int res option" where
  "List_Lookup h L key = lookup_loop h (head L) key"

lemma lookup_loop_chain:
  "chain h p as \<Longrightarrow> lookup_loop h p key = Some (Inr (if key \<in> set (vals_of h as) then 0 else -1))"
proof (induction as arbitrary: p)
  case Nil
  then show ?case by (simp add: lookup_loop.simps vals_of_def)
next
  case (Cons a as)
  then obtain n where n: "p = Some a" "h a = Some n" "chain h (link n) as" by (auto split: option.splits)
  then show ?case
    using Cons.IH [OF n(3)] by (subst lookup_loop.simps) (simp add: deref_def vals_of_def)
qed

section \<open>The hash table\<close>

definition BUCKETS :: nat where "BUCKETS = 101"

type_synonym hash = "nheap \<times> clist list"

definition Hash_Init :: hash where
  "Hash_Init = (Map.empty, replicate BUCKETS List_Init)"

text \<open>The index \<open>key % BUCKETS\<close>, which is negative for most negative keys.\<close>

definition bucket :: "int \<Rightarrow> int" where
  "bucket key = c_mod key (int BUCKETS)"

definition Hash_Insert :: "malloc_fun \<Rightarrow> int \<Rightarrow> hash \<Rightarrow> fault + hash" where
  "Hash_Insert malloc key H = (case H of (h, ls) \<Rightarrow>
     (let i = bucket key in
      if 0 \<le> i \<and> i < int (length ls)
      then (let (h', L') = List_Insert malloc key (h, ls ! nat i) in Inr (h', ls[nat i := L']))
      else Inl Out_of_bounds))"

definition Hash_Lookup :: "hash \<Rightarrow> int \<Rightarrow> int res option" where
  "Hash_Lookup H key = (case H of (h, ls) \<Rightarrow>
     (let i = bucket key in
      if 0 \<le> i \<and> i < int (length ls) then List_Lookup h (ls ! nat i) key
      else Some (Inl Out_of_bounds)))"

text \<open>The keys of the table, and its invariant: every bucket is a chain of keys that belong to it.\<close>

definition in_bucket :: "hash \<Rightarrow> nat \<Rightarrow> int \<Rightarrow> bool" where
  "in_bucket H i k \<longleftrightarrow> (\<exists>as. chain (fst H) (head (snd H ! i)) as \<and> k \<in> set (vals_of (fst H) as))"

definition hash_keys :: "hash \<Rightarrow> int set" where
  "hash_keys H = {k. \<exists>i < BUCKETS. in_bucket H i k}"

definition hash_ok :: "hash \<Rightarrow> bool" where
  "hash_ok H \<longleftrightarrow> finite (dom (fst H)) \<and> length (snd H) = BUCKETS \<and>
     (\<forall>i < BUCKETS. (\<exists>as. chain (fst H) (head (snd H ! i)) as) \<and> (\<forall>k. in_bucket H i k \<longrightarrow> bucket k = int i))"

lemma bucket_range: "0 \<le> k \<Longrightarrow> 0 \<le> bucket k \<and> bucket k < int BUCKETS"
  by (simp add: bucket_def BUCKETS_def)

lemma list_insert_chain:
  assumes "chain h (head L) as" "malloc h = Some a" "h a = None"
  shows "\<exists>h' L'. List_Insert malloc key (h, L) = (h', L') \<and> h' = h(a \<mapsto> \<lparr>val = key, link = head L\<rparr>) \<and>
    chain h' (head L') (a # as) \<and> vals_of h' (a # as) = key # vals_of h as"
  using assms chain_new [OF assms(1,3), of "\<lparr>val = key, link = head L\<rparr>"]
  by (simp add: List_Insert_def vals_of_def)

lemma hash_okD:
  assumes "hash_ok H"
  shows "finite (dom (fst H))" "length (snd H) = BUCKETS"
    "i < BUCKETS \<Longrightarrow> \<exists>as. chain (fst H) (head (snd H ! i)) as"
    "i < BUCKETS \<Longrightarrow> in_bucket H i k \<Longrightarrow> bucket k = int i"
  using assms unfolding hash_ok_def by blast+

lemma in_bucket_chain:
  "chain (fst H) (head (snd H ! i)) as \<Longrightarrow> in_bucket H i k \<longleftrightarrow> k \<in> set (vals_of (fst H) as)"
  unfolding in_bucket_def using chain_unique by metis

lemma hash_keys_bucket:
  assumes "hash_ok H" "0 \<le> bucket k" "bucket k < int BUCKETS"
  shows "k \<in> hash_keys H \<longleftrightarrow> in_bucket H (nat (bucket k)) k"
proof
  assume "k \<in> hash_keys H"
  then obtain i where i: "i < BUCKETS" "in_bucket H i k" by (auto simp: hash_keys_def)
  then have "bucket k = int i" by (rule hash_okD(4) [OF assms(1)])
  then show "in_bucket H (nat (bucket k)) k" using i by simp
next
  assume "in_bucket H (nat (bucket k)) k"
  moreover have "nat (bucket k) < BUCKETS" using assms(2,3) by simp
  ultimately show "k \<in> hash_keys H" unfolding hash_keys_def by blast
qed

lemma hash_lookup_ok:
  assumes "hash_ok H" "0 \<le> k"
  shows "Hash_Lookup H k = Some (Inr (if k \<in> hash_keys H then 0 else -1))"
proof -
  obtain h ls where H: "H = (h, ls)" by (cases H)
  let ?i = "nat (bucket k)"
  have i: "0 \<le> bucket k" "bucket k < int BUCKETS" "?i < BUCKETS" using bucket_range [OF assms(2)] by auto
  have "\<exists>as. chain h (head (ls ! ?i)) as" using hash_okD(3) [OF assms(1) i(3)] by (simp add: H)
  then obtain as where as: "chain h (head (ls ! ?i)) as" by blast
  have "in_bucket H ?i k \<longleftrightarrow> k \<in> set (vals_of h as)"
    using in_bucket_chain [of H ?i as] as by (simp add: H)
  then have "k \<in> hash_keys H \<longleftrightarrow> k \<in> set (vals_of h as)" using hash_keys_bucket [OF assms(1) i(1,2)] by simp
  then show ?thesis
    using lookup_loop_chain [OF as, of k] hash_okD(2) [OF assms(1)] i
    by (simp add: Hash_Lookup_def List_Lookup_def H Let_def)
qed

lemma hash_insert_ok:
  assumes "hash_ok H" "0 \<le> k" "allocates malloc"
  shows "\<exists>H'. Hash_Insert malloc k H = Inr H' \<and> hash_ok H' \<and> hash_keys H' = insert k (hash_keys H)"
proof -
  obtain h ls where H: "H = (h, ls)" by (cases H)
  let ?i = "nat (bucket k)"
  have i: "0 \<le> bucket k" "bucket k < int BUCKETS" "?i < BUCKETS" using bucket_range [OF assms(2)] by auto
  have ok: "finite (dom h)" "length ls = BUCKETS" using hash_okD(1,2) [OF assms(1)] by (simp_all add: H)
  obtain a where a: "malloc h = Some a" "h a = None" using assms(3) ok(1) by (auto simp: allocates_def)
  define n where "n = \<lparr>val = k, link = head (ls ! ?i)\<rparr>"
  define H' where "H' = (h(a \<mapsto> n), ls[?i := (ls ! ?i)\<lparr>head := Some a\<rparr>])"
  have ins: "Hash_Insert malloc k H = Inr H'"
    using i a ok by (simp add: Hash_Insert_def List_Insert_def H H'_def n_def Let_def)
  have ch: "\<exists>as. chain h (head (ls ! j)) as" if "j < BUCKETS" for j
    using hash_okD(3) [OF assms(1) that] by (simp add: H)
  have same: "chain (h(a \<mapsto> n)) (head (ls ! j)) as \<and> vals_of (h(a \<mapsto> n)) as = vals_of h as"
    if "chain h (head (ls ! j)) as" for j as
    using chain_new [OF that a(2)] .
  have other: "in_bucket H' j x \<longleftrightarrow> in_bucket H j x" if j: "j < BUCKETS" "j \<noteq> ?i" for j x
  proof -
    obtain as where as: "chain h (head (ls ! j)) as" using ch [OF j(1)] by blast
    then show ?thesis
      using same [OF as] j(2) in_bucket_chain [of H j as] in_bucket_chain [of H' j as]
      by (simp add: H H'_def)
  qed
  obtain as where as: "chain h (head (ls ! ?i)) as" using ch [OF i(3)] by blast
  have new: "chain (h(a \<mapsto> n)) (Some a) (a # as)" "vals_of (h(a \<mapsto> n)) (a # as) = k # vals_of h as"
    using same [OF as] by (simp_all add: n_def vals_of_def)
  have own: "in_bucket H' ?i x \<longleftrightarrow> x = k \<or> in_bucket H ?i x" for x
    using new in_bucket_chain [of H ?i as] in_bucket_chain [of H' ?i "a # as"] as i(3) ok(2)
    by (simp add: H H'_def del: chain.simps)
  have "\<exists>bs. chain (fst H') (head (snd H' ! j)) bs" if j: "j < BUCKETS" for j
  proof (cases "j = ?i")
    case True
    then have "head (snd H' ! j) = Some a" using j ok(2) by (simp add: H'_def)
    then show ?thesis using new(1) by (auto simp: H'_def simp del: chain.simps)
  next
    case False
    obtain bs where "chain h (head (ls ! j)) bs" using ch [OF j] by blast
    then show ?thesis using same False by (auto simp: H'_def)
  qed
  moreover have "bucket x = int j" if "j < BUCKETS" "in_bucket H' j x" for j x
  proof -
    have old: "in_bucket H j x \<Longrightarrow> bucket x = int j" by (rule hash_okD(4) [OF assms(1) that(1)])
    show ?thesis
    proof (cases "j = ?i")
      case True
      then have "x = k \<or> in_bucket H j x" using own that(2) by simp
      then show ?thesis using old True i by (elim disjE) simp_all
    next
      case False
      then show ?thesis using old other [OF that(1) False] that(2) by simp
    qed
  qed
  moreover have "finite (dom (fst H'))" "length (snd H') = BUCKETS" using ok by (simp_all add: H'_def)
  ultimately have "hash_ok H'" unfolding hash_ok_def by blast
  moreover have "hash_keys H' = insert k (hash_keys H)"
  proof -
    have "x \<in> hash_keys H' \<longleftrightarrow> x = k \<or> x \<in> hash_keys H" for x
      unfolding hash_keys_def mem_Collect_eq using own other i(3) by metis
    then show ?thesis by blast
  qed
  ultimately show ?thesis using ins by blast
qed

lemma hash_init_ok: "hash_ok Hash_Init" "hash_keys Hash_Init = {}"
  by (auto simp: hash_ok_def Hash_Init_def List_Init_def in_bucket_def hash_keys_def vals_of_def)

text \<open>The table as a set of keys.\<close>

definition hash_found :: "hash \<Rightarrow> int \<Rightarrow> (fault + bool) option" where
  "hash_found H key = map_option (\<lambda>r. and_then r (\<lambda>rv. Inr (rv = 0))) (Hash_Lookup H key)"

sublocale allocator \<subseteq> table: key_set "Hash_Insert malloc" hash_found hash_keys "\<lambda>k. 0 \<le> k" hash_ok
proof unfold_locales
  fix H :: hash and k :: int
  assume H: "hash_ok H" "0 \<le> k"
  show "\<exists>t. Hash_Insert malloc k H = Inr t \<and> hash_ok t \<and> hash_keys t = insert k (hash_keys H)"
    using hash_insert_ok [OF H alloc] .
  show "hash_found H k = Some (Inr (k \<in> hash_keys H))"
    using hash_lookup_ok [OF H] by (simp add: hash_found_def)
qed

context allocator
begin

lemma hash_after_inserts:
  "list_all (\<lambda>k. 0 \<le> k) ks \<Longrightarrow>
    \<exists>H. insert_all (Hash_Insert malloc) ks Hash_Init = Inr H \<and> hash_ok H \<and> hash_keys H = set ks"
  using table.insert_all_ok [OF hash_init_ok(1), of ks] hash_init_ok(2) by auto

end

lemma bucket_negative: "k < 0 \<Longrightarrow> k mod 101 \<noteq> 0 \<Longrightarrow> bucket k < 0"
proof -
  assume k: "k < 0" "k mod 101 \<noteq> 0"
  have "c_div k 101 = - ((- k) div 101)" using k(1) by (simp add: c_div_def)
  then have "c_mod k 101 = k + (- k) div 101 * 101" by (simp add: c_mod_def)
  moreover have "k + (- k) div 101 * 101 < 0" using k by presburger
  ultimately show ?thesis by (simp add: bucket_def BUCKETS_def)
qed

text \<open>Property C19.
  The hash table is a set of keys: after any insertions of keys that are not negative, with a \<open>malloc\<close> that does not fail, a lookup ends
  and returns 0 exactly for the keys inserted, and -1 for the others. A negative key that is no multiple of 101 makes
  both functions index the array of lists below its start. When \<open>malloc\<close> fails, an insertion changes nothing.
\<close>

theorem hash_table_exact:
  assumes "allocates malloc" "\<forall>k\<in>set ks. 0 \<le> k"
  shows "\<exists>H. insert_all (Hash_Insert malloc) ks Hash_Init = Inr H \<and>
    (\<forall>k. if 0 \<le> k then Hash_Lookup H k = Some (Inr (if k \<in> set ks then 0 else -1))
       else k mod 101 \<noteq> 0 \<longrightarrow>
         Hash_Insert malloc k H = Inl Out_of_bounds \<and> Hash_Lookup H k = Some (Inl Out_of_bounds)) \<and>
    (\<forall>k \<ge> 0. Hash_Insert (\<lambda>_. None) k H = Inr H)"
proof -
  obtain H where H: "insert_all (Hash_Insert malloc) ks Hash_Init = Inr H" "hash_ok H" "hash_keys H = set ks"
    using allocator.hash_after_inserts [OF allocator.intro [OF assms(1)], of ks] assms(2)
    by (auto simp: list_all_iff)
  have "if 0 \<le> k then Hash_Lookup H k = Some (Inr (if k \<in> set ks then 0 else -1))
      else k mod 101 \<noteq> 0 \<longrightarrow>
        Hash_Insert malloc k H = Inl Out_of_bounds \<and> Hash_Lookup H k = Some (Inl Out_of_bounds)" for k
  proof (cases "0 \<le> k")
    case True
    then show ?thesis using hash_lookup_ok [OF H(2) True] H(3) by simp
  next
    case False
    then show ?thesis using bucket_negative [of k] by (cases H) (auto simp: Hash_Insert_def Hash_Lookup_def Let_def)
  qed
  moreover have "Hash_Insert (\<lambda>_. None) k H = Inr H" if "0 \<le> k" for k
    using bucket_range [OF that] hash_okD(2) [OF H(2)]
    by (cases H) (simp add: Hash_Insert_def List_Insert_def Let_def)
  ultimately show ?thesis using H(1) by blast
qed

theorem hash_table_exact_witness:
  "\<exists>H. insert_all (Hash_Insert above_all) [3, 104, 7] Hash_Init = Inr H \<and> Hash_Lookup H 104 = Some (Inr 0) \<and>
    Hash_Lookup H 205 = Some (Inr (-1)) \<and> Hash_Lookup H (-1) = Some (Inl Out_of_bounds)"
proof -
  obtain H where H: "insert_all (Hash_Insert above_all) [3, 104, 7] Hash_Init = Inr H"
    "\<forall>k. if 0 \<le> k then Hash_Lookup H k = Some (Inr (if k \<in> set [3, 104, 7] then 0 else -1))
       else k mod 101 \<noteq> 0 \<longrightarrow>
         Hash_Insert above_all k H = Inl Out_of_bounds \<and> Hash_Lookup H k = Some (Inl Out_of_bounds)"
    using hash_table_exact [OF allocates_above_all, of "[3, 104, 7]"] by auto
  show ?thesis using H(1) spec [OF H(2), of 104] spec [OF H(2), of 205] spec [OF H(2), of "-1"] by simp
qed

end
