(* ===== verification/ConcQueue.thy ===== *)
theory ConcQueue
  imports NodeHeap
begin

text \<open>
  The queue of \<open>src/concurrency/threads-locks/concqueue.h\<close>: a chain of nodes whose first one is a dummy, with a pointer to it and one to the
  last node. A failed \<open>assert\<close> ends the process.
\<close>

datatype qstop = Assertion | Stop fault

definition access :: "nheap \<Rightarrow> nat option \<Rightarrow> qstop + node" where
  "access h p = (case deref h p of Inl e \<Rightarrow> Inl (Stop e) | Inr n \<Rightarrow> Inr n)"

record queue =
  heap :: nheap
  qhead :: "nat option"
  qtail :: "nat option"

text \<open>\<open>Queue_Init\<close> does not check what \<open>malloc\<close> returns.\<close>

definition Queue_Init :: "malloc_fun \<Rightarrow> nheap \<Rightarrow> qstop + queue" where
  "Queue_Init malloc h =
     (case malloc h of
        None \<Rightarrow> Inl (Stop Null_pointer)
      | Some tmp \<Rightarrow> Inr \<lparr>heap = h(tmp \<mapsto> \<lparr>val = 0, link = None\<rparr>), qhead = Some tmp, qtail = Some tmp\<rparr>)"

definition Queue_Enqueue :: "malloc_fun \<Rightarrow> int \<Rightarrow> queue \<Rightarrow> qstop + queue" where
  "Queue_Enqueue malloc value q =
     (case malloc (heap q) of
        None \<Rightarrow> Inl Assertion
      | Some tmp \<Rightarrow>
          (let h = (heap q)(tmp \<mapsto> \<lparr>val = value, link = None\<rparr>) in
           and_then (access h (qtail q)) (\<lambda>n.
             Inr (q\<lparr>heap := h(the (qtail q) \<mapsto> n\<lparr>link := Some tmp\<rparr>), qtail := Some tmp\<rparr>))))"

text \<open>The result is \<open>None\<close> for the return value -1, and what is stored through \<open>value\<close> otherwise.\<close>

definition Queue_Dequeue :: "queue \<Rightarrow> qstop + int option \<times> queue" where
  "Queue_Dequeue q =
     and_then (access (heap q) (qhead q)) (\<lambda>tmp.
       (case link tmp of
          None \<Rightarrow> Inr (None, q)
        | Some new_head \<Rightarrow>
            and_then (access (heap q) (Some new_head)) (\<lambda>n.
              Inr (Some (val n), q\<lparr>heap := (heap q)(the (qhead q) := None), qhead := Some new_head\<rparr>))))"

section \<open>The queue as a list\<close>

text \<open>The dummy node \<open>d\<close> and the nodes \<open>as\<close> after it.\<close>

definition queue_shape :: "queue \<Rightarrow> nat \<Rightarrow> nat list \<Rightarrow> bool" where
  "queue_shape q d as \<longleftrightarrow> finite (dom (heap q)) \<and> qhead q = Some d \<and> chain (heap q) (Some d) (d # as) \<and>
     distinct (d # as) \<and> qtail q = Some (last (d # as))"

definition queue_ok :: "queue \<Rightarrow> bool" where
  "queue_ok q \<longleftrightarrow> (\<exists>d as. queue_shape q d as)"

definition queue_items :: "queue \<Rightarrow> int list" where
  "queue_items q = (THE xs. \<exists>d as. queue_shape q d as \<and> xs = vals_of (heap q) as)"

lemma queue_items_eq: "queue_shape q d as \<Longrightarrow> queue_items q = vals_of (heap q) as"
proof -
  assume a: "queue_shape q d as"
  have "xs = vals_of (heap q) as" if "queue_shape q d' as'" "xs = vals_of (heap q) as'" for xs d' as'
  proof -
    have "d' = d" using a that(1) by (simp add: queue_shape_def)
    then have "d # as' = d # as"
      using a that(1) chain_unique [of "heap q" "Some d" "d # as'" "d # as"] by (simp add: queue_shape_def del: chain.simps)
    then show ?thesis using that(2) by simp
  qed
  then show ?thesis using a unfolding queue_items_def by (intro the_equality) blast+
qed

lemma enqueue_ok:
  assumes sh: "queue_shape q d as" and al: "malloc (heap q) = Some tmp" "heap q tmp = None"
  shows "\<exists>q'. Queue_Enqueue malloc x q = Inr q' \<and> queue_shape q' d (as @ [tmp]) \<and>
    vals_of (heap q') (as @ [tmp]) = vals_of (heap q) as @ [x]"
proof -
  let ?h = "heap q" and ?n = "\<lparr>val = x, link = None\<rparr>"
  obtain bs b where bs: "d # as = bs @ [b]" by (metis append_butlast_last_id list.distinct(1))
  have ch: "chain ?h (Some d) (bs @ [b])" "distinct (bs @ [b])" "qtail q = Some b" "finite (dom ?h)" "qhead q = Some d"
    using sh unfolding queue_shape_def bs by simp_all
  obtain nb where nb: "?h b = Some nb" using chain_dom [OF ch(1), of b] by auto
  have ne: "tmp \<notin> set (bs @ [b])" using chain_dom [OF ch(1)] al(2) by blast
  define q' where "q' = q\<lparr>heap := ?h(tmp \<mapsto> ?n, b \<mapsto> nb\<lparr>link := Some tmp\<rparr>), qtail := Some tmp\<rparr>"
  have "Queue_Enqueue malloc x q = Inr q'"
    using al nb ne ch(3) by (auto simp: Queue_Enqueue_def access_def deref_def q'_def)
  moreover have chain': "chain (heap q') (Some d) (bs @ [b, tmp])"
    using chain_link [OF ch(1) _ _ _ nb, of tmp ?n] ch(2) ne by (simp add: q'_def)
  have eq: "d # as @ [tmp] = bs @ [b, tmp]" using bs by simp
  have "queue_shape q' d (as @ [tmp])"
    unfolding queue_shape_def eq using chain' ch ne by (simp add: q'_def)
  moreover have "tmp \<notin> set as"
  proof -
    have "set as \<subseteq> set (bs @ [b])" using bs by (metis set_subset_Cons)
    then show ?thesis using ne by blast
  qed
  then have "val (the (heap q' a)) = val (the (?h a))" if "a \<in> set as" for a
    using that ne nb by (auto simp: q'_def)
  then have "vals_of (heap q') (as @ [tmp]) = vals_of ?h as @ [x]"
    using ne by (simp add: vals_of_def q'_def)
  ultimately show ?thesis by blast
qed

lemma dequeue_empty:
  assumes "queue_shape q d []"
  shows "Queue_Dequeue q = Inr (None, q)"
  using assms by (auto simp: queue_shape_def Queue_Dequeue_def access_def deref_def split: option.splits)

lemma dequeue_ok:
  assumes sh: "queue_shape q d (a # as)"
  shows "\<exists>q'. Queue_Dequeue q = Inr (Some (val (the (heap q a))), q') \<and> queue_shape q' a as \<and>
    vals_of (heap q') as = vals_of (heap q) as"
proof -
  let ?h = "heap q"
  obtain nd na where n: "?h d = Some nd" "link nd = Some a" "?h a = Some na" "chain ?h (link na) as"
    using sh by (auto simp: queue_shape_def split: option.splits)
  define q' where "q' = q\<lparr>heap := ?h(d := None), qhead := Some a\<rparr>"
  have ne: "d \<notin> set (a # as)" "d \<noteq> a" using sh by (auto simp: queue_shape_def)
  have "Queue_Dequeue q = Inr (Some (val (the (?h a))), q')"
    using sh n by (simp add: Queue_Dequeue_def access_def deref_def queue_shape_def q'_def)
  moreover have fr: "chain (?h(d := None)) (Some a) (a # as) \<and> vals_of (?h(d := None)) (a # as) = vals_of ?h (a # as)"
    by (rule chain_frame) (use n ne in auto)
  then have "queue_shape q' a as"
    using sh unfolding queue_shape_def by (simp add: q'_def del: chain.simps)
  moreover have "vals_of (heap q') as = vals_of ?h as" using fr by (simp add: q'_def vals_of_def)
  ultimately show ?thesis by blast
qed

sublocale allocator \<subseteq> q: unbounded_fifo "Queue_Enqueue malloc" Queue_Dequeue queue_items "\<lambda>_. True" "\<lambda>_. True" queue_ok
proof unfold_locales
  fix q :: queue and x :: int
  assume "queue_ok q"
  then obtain d as where sh: "queue_shape q d as" by (auto simp: queue_ok_def)
  then have "finite (dom (heap q))" by (simp add: queue_shape_def)
  then obtain a where a: "malloc (heap q) = Some a" "heap q a = None" using alloc by (auto simp: allocates_def)
  obtain q' where q': "Queue_Enqueue malloc x q = Inr q'" "queue_shape q' d (as @ [a])"
    "vals_of (heap q') (as @ [a]) = vals_of (heap q) as @ [x]" using enqueue_ok [where malloc = malloc and x = x, OF sh a] by blast
  then have "queue_items q' = queue_items q @ [x]" "queue_ok q'"
    using queue_items_eq [OF q'(2)] queue_items_eq [OF sh] unfolding queue_ok_def by auto
  then show "\<exists>t. Queue_Enqueue malloc x q = Inr t \<and> queue_ok t \<and> queue_items t = queue_items q @ [x]"
    using q'(1) by blast
next
  fix q :: queue
  assume q: "queue_ok q" "queue_items q = []"
  then obtain d as where sh: "queue_shape q d as" by (auto simp: queue_ok_def)
  then have "as = []" using queue_items_eq [OF sh] q(2) by (simp add: vals_of_def)
  then show "\<exists>t. Queue_Dequeue q = Inr (None, t) \<and> queue_ok t \<and> queue_items t = []"
    using dequeue_empty sh q by auto
next
  fix q :: queue and x xs
  assume q: "queue_ok q" "queue_items q = x # xs"
  then obtain d as where sh: "queue_shape q d as" by (auto simp: queue_ok_def)
  then obtain a bs where as: "as = a # bs" "x = val (the (heap q a))" "xs = vals_of (heap q) bs"
    using queue_items_eq [OF sh] q(2) by (cases as) (auto simp: vals_of_def)
  obtain q' where q': "Queue_Dequeue q = Inr (Some x, q')" "queue_shape q' a bs" "vals_of (heap q') bs = xs"
    using dequeue_ok [OF sh [unfolded as(1)]] as by auto
  then have "queue_items q' = xs" "queue_ok q'"
    using queue_items_eq [OF q'(2)] unfolding queue_ok_def by auto
  then show "\<exists>t. Queue_Dequeue q = Inr (Some x, t) \<and> queue_ok t \<and> queue_items t = xs" using q'(1) by blast
qed simp_all

context allocator
begin

lemma queue_order:
  "queue_ok q0 \<Longrightarrow> \<exists>ys q. queue_run (Queue_Enqueue malloc) Queue_Dequeue ops q0 = Inr (ys, q) \<and>
    ys @ queue_items q = queue_items q0 @ enqueued ops"
  using q.run_order [of q0 ops] by (auto simp: list_all_iff)

end

lemma queue_init_ok:
  assumes "finite (dom h)" "malloc h = Some a" "h a = None"
  shows "\<exists>q. Queue_Init malloc h = Inr q \<and> queue_ok q \<and> queue_items q = []"
proof -
  let ?q = "\<lparr>heap = h(a \<mapsto> \<lparr>val = 0, link = None\<rparr>), qhead = Some a, qtail = Some a\<rparr>"
  have sh: "queue_shape ?q a []" using assms by (simp add: queue_shape_def)
  then have "queue_items ?q = []" using queue_items_eq by (simp add: vals_of_def)
  then show ?thesis using sh assms by (auto simp: Queue_Init_def queue_ok_def)
qed

text \<open>The queue is first-in first-out: from \<open>Queue_Init\<close> on an empty heap, with a \<open>malloc\<close> that does not fail, every sequence of enqueues and
  dequeues runs without a failed assertion and without touching memory that is not allocated (the nodes that \<open>Queue_Dequeue\<close> frees
  included); what the dequeues returned, followed by what is left, is what was enqueued. Without memory \<open>Queue_Enqueue\<close> aborts and
  \<open>Queue_Init\<close> dereferences \<open>NULL\<close>.
\<close>

theorem queue_fifo:
  assumes "allocates malloc"
  shows "(\<exists>q0 ys q. Queue_Init malloc Map.empty = Inr q0 \<and>
      queue_run (Queue_Enqueue malloc) Queue_Dequeue ops q0 = Inr (ys, q) \<and> ys @ queue_items q = enqueued ops) \<and>
    Queue_Enqueue (\<lambda>_. None) x q' = Inl Assertion \<and> Queue_Init (\<lambda>_. None) h = Inl (Stop Null_pointer)"
proof -
  obtain a where "malloc Map.empty = Some a"
    using assms unfolding allocates_def by (metis dom_empty finite.emptyI)
  then obtain q0 where q0: "Queue_Init malloc Map.empty = Inr q0" "queue_ok q0" "queue_items q0 = []"
    using queue_init_ok [of Map.empty malloc a] by auto
  obtain ys q where "queue_run (Queue_Enqueue malloc) Queue_Dequeue ops q0 = Inr (ys, q)"
      "ys @ queue_items q = queue_items q0 @ enqueued ops"
    using allocator.queue_order [OF allocator.intro [OF assms] q0(2)] by blast
  then show ?thesis using q0 by (simp add: Queue_Enqueue_def Queue_Init_def)
qed

theorem queue_fifo_witness:
  "\<exists>q0 ys q. Queue_Init above_all Map.empty = Inr q0 \<and>
    queue_run (Queue_Enqueue above_all) Queue_Dequeue [Enq 3, Deq, Deq, Enq 4, Enq 5, Deq] q0 = Inr (ys, q) \<and>
    ys @ queue_items q = [3, 4, 5]"
  using queue_fifo [OF allocates_above_all, of "[Enq 3, Deq, Deq, Enq 4, Enq 5, Deq]"] by simp

end
