(* ===== verification/Counter.thy ===== *)
theory Counter
  imports Prelude
begin

text \<open>
  \<open>src/concurrency/threads-locks/apprxcntr.c\<close>: the approximate counter, with a local counter and a lock for each CPU and a global
  counter with a lock of its own. Threads call \<open>update\<close> with the amounts of their lists; every statement is a step, and any thread may
  move next. \<open>added\<close> is a history variable: the sum of all amounts that have been added to local counters.
\<close>

section \<open>State and steps\<close>

definition NUMCPUS :: nat where "NUMCPUS = 8"

datatype upc = U_idle | U_lock | U_add | U_test | U_glock | U_transfer | U_gunlock | U_reset | U_unlock

record counter =
  global :: int
  glock :: "int option"
  locals :: "nat \<Rightarrow> int"
  llock :: "nat \<Rightarrow> int option"
  threshold :: int

record csys = counter +
  upcs :: "int \<Rightarrow> upc"
  amt :: "int \<Rightarrow> int"
  todo :: "int \<Rightarrow> int list"
  added :: int
  failed :: "fault option"

definition counter_init :: "int \<Rightarrow> counter" where
  "counter_init th = \<lparr>global = 0, glock = None, locals = (\<lambda>_. 0), llock = (\<lambda>_. None), threshold = th\<rparr>"

definition cpu_of :: "int \<Rightarrow> int" where
  "cpu_of threadID = c_mod threadID (int NUMCPUS)"

definition at :: "int \<Rightarrow> upc \<Rightarrow> csys \<Rightarrow> csys" where
  "at t p s = s\<lparr>upcs := (upcs s)(t := p)\<rparr>"

text \<open>A statement of \<open>update (c, threadID, amt)\<close>; a negative \<open>threadID\<close> gives a negative index.\<close>

definition update_step :: "int \<Rightarrow> csys \<Rightarrow> csys option" where
  "update_step t s = (let cpu = nat (cpu_of t); v = locals s cpu in case upcs s t of
       U_idle \<Rightarrow> (case todo s t of
           [] \<Rightarrow> None
         | a # as \<Rightarrow> Some (at t U_lock (s\<lparr>amt := (amt s)(t := a), todo := (todo s)(t := as)\<rparr>)))
     | U_lock \<Rightarrow>
         if cpu_of t < 0 then Some (s\<lparr>failed := Some Out_of_bounds\<rparr>)
         else if llock s cpu = None then Some (at t U_add (s\<lparr>llock := (llock s)(cpu := Some t)\<rparr>)) else None
     | U_add \<Rightarrow>
         if int_ok (v + amt s t)
         then Some (at t U_test (s\<lparr>locals := (locals s)(cpu := v + amt s t), added := added s + amt s t\<rparr>))
         else Some (s\<lparr>failed := Some Int_overflow\<rparr>)
     | U_test \<Rightarrow> Some (at t (if v \<ge> threshold s then U_glock else U_unlock) s)
     | U_glock \<Rightarrow> if glock s = None then Some (at t U_transfer (s\<lparr>glock := Some t\<rparr>)) else None
     | U_transfer \<Rightarrow>
         if int_ok (global s + v) then Some (at t U_gunlock (s\<lparr>global := global s + v\<rparr>))
         else Some (s\<lparr>failed := Some Int_overflow\<rparr>)
     | U_gunlock \<Rightarrow> Some (at t U_reset (s\<lparr>glock := None\<rparr>))
     | U_reset \<Rightarrow> Some (at t U_unlock (s\<lparr>locals := (locals s)(cpu := 0)\<rparr>))
     | U_unlock \<Rightarrow> Some (at t U_idle (s\<lparr>llock := (llock s)(cpu := None)\<rparr>)))"

definition counter_step :: "int \<Rightarrow> csys \<Rightarrow> csys option" where
  "counter_step t s = (if failed s \<noteq> None then None else update_step t s)"

text \<open>\<open>get\<close>, whose lock is free when it reads.\<close>

definition get :: "csys \<Rightarrow> int option" where
  "get s = (if glock s = None then Some (global s) else None)"

definition system :: "int \<Rightarrow> (int \<Rightarrow> int list) \<Rightarrow> csys" where
  "system th jobs =
     \<lparr>global = global (counter_init th), glock = glock (counter_init th), locals = locals (counter_init th),
      llock = llock (counter_init th), threshold = threshold (counter_init th),
      upcs = (\<lambda>_. U_idle), amt = (\<lambda>_. 0), todo = jobs, added = 0, failed = None\<rparr>"

text \<open>The assumption of the comment in \<open>update\<close>: amounts are positive.\<close>

definition counter_start :: "csys \<Rightarrow> bool" where
  "counter_start s \<longleftrightarrow> 0 < threshold s \<and> (\<forall>t. \<forall>a\<in>set (todo s t). 0 < a) \<and> s = system (threshold s) (todo s)"

section \<open>The invariant\<close>

definition inside :: "upc \<Rightarrow> bool" where
  "inside p \<longleftrightarrow> p \<noteq> U_idle \<and> p \<noteq> U_lock"

definition transferred :: "upc \<Rightarrow> bool" where
  "transferred p \<longleftrightarrow> p = U_gunlock \<or> p = U_reset"

text \<open>What a local counter holds that the global one does not have yet.\<close>

definition pending :: "csys \<Rightarrow> nat \<Rightarrow> int" where
  "pending s c = (case llock s c of
       None \<Rightarrow> locals s c
     | Some t \<Rightarrow> if transferred (upcs s t) then 0 else locals s c)"

definition small :: "upc \<Rightarrow> bool" where
  "small p \<longleftrightarrow> p = U_add \<or> p = U_unlock"

definition local_ok :: "csys \<Rightarrow> nat \<Rightarrow> bool" where
  "local_ok s c \<longleftrightarrow> 0 \<le> locals s c \<and>
     (case llock s c of None \<Rightarrow> locals s c < threshold s | Some t \<Rightarrow> small (upcs s t) \<longrightarrow> locals s c < threshold s)"

definition counter_invar :: "csys \<Rightarrow> bool" where
  "counter_invar s \<longleftrightarrow> 0 < threshold s \<and>
     (\<forall>t. \<forall>a\<in>set (todo s t). 0 < a) \<and> (\<forall>t. upcs s t \<noteq> U_idle \<longrightarrow> 0 < amt s t) \<and>
     (\<forall>t. inside (upcs s t) \<longrightarrow> 0 \<le> cpu_of t) \<and>
     (\<forall>c t. llock s c = Some t \<longleftrightarrow> inside (upcs s t) \<and> cpu_of t = int c) \<and>
     (\<forall>t. glock s = Some t \<longleftrightarrow> upcs s t = U_transfer \<or> upcs s t = U_gunlock) \<and>
     (\<forall>c. local_ok s c) \<and>
     added s = global s + (\<Sum>c<NUMCPUS. pending s c)"

lemma cpu_of_range: "0 \<le> t \<Longrightarrow> 0 \<le> cpu_of t \<and> cpu_of t < int NUMCPUS"
  by (simp add: cpu_of_def NUMCPUS_def)

lemma cpu_of_less: "cpu_of t < int NUMCPUS"
proof (cases "0 \<le> t")
  case True
  then show ?thesis by (simp add: cpu_of_range)
next
  case False
  then have "c_div t 8 = - ((- t) div 8)" by (simp add: c_div_def)
  moreover have "(- t) div 8 * 8 \<le> - t" by presburger
  ultimately have "c_mod t 8 \<le> 0" by (simp add: c_mod_def)
  then show ?thesis by (simp add: cpu_of_def NUMCPUS_def)
qed

lemma sum_pending:
  assumes "c0 < NUMCPUS" "\<And>c. c \<noteq> c0 \<Longrightarrow> pending s' c = pending s c"
  shows "(\<Sum>c<NUMCPUS. pending s' c) = (\<Sum>c<NUMCPUS. pending s c) + (pending s' c0 - pending s c0)"
  using assms by (intro sum_change) simp_all

lemma counter_invar_start: "counter_start s \<Longrightarrow> counter_invar s"
proof -
  assume a: "counter_start s"
  then have s: "s = system (threshold s) (todo s)" by (simp add: counter_start_def)
  have f: "upcs s = (\<lambda>_. U_idle)" "locals s = (\<lambda>_. 0)" "llock s = (\<lambda>_. None)" "glock s = None" "global s = 0" "added s = 0"
    by (subst s, simp add: system_def counter_init_def)+
  then show ?thesis
    using a by (simp add: counter_invar_def counter_start_def inside_def local_ok_def pending_def)
qed

text \<open>A step of a thread that holds the lock of its CPU concerns that CPU only.\<close>

lemma inside_step:
  assumes inv: "counter_invar s" and ins: "inside (upcs s t)"
    and c0: "c0 = nat (cpu_of t)"
    and same: "threshold s' = threshold s" "todo s' = todo s" "amt s' = amt s"
      "\<And>u. u \<noteq> t \<Longrightarrow> upcs s' u = upcs s u" "\<And>c. c \<noteq> c0 \<Longrightarrow> locals s' c = locals s c"
      "\<And>c. c \<noteq> c0 \<Longrightarrow> llock s' c = llock s c"
    and lock: "llock s' c0 = (if inside (upcs s' t) then Some t else None)" "upcs s' t \<noteq> U_lock"
    and gl: "\<And>u. glock s' = Some u \<longleftrightarrow> upcs s' u = U_transfer \<or> upcs s' u = U_gunlock"
    and loc: "local_ok s' c0"
    and sum: "added s' - global s' - pending s' c0 = added s - global s - pending s c0"
  shows "counter_invar s'"
proof -
  have I: "0 < threshold s" "\<forall>t. \<forall>a\<in>set (todo s t). 0 < a" "\<forall>t. upcs s t \<noteq> U_idle \<longrightarrow> 0 < amt s t"
    "\<And>u. inside (upcs s u) \<Longrightarrow> 0 \<le> cpu_of u"
    "\<And>c u. llock s c = Some u \<longleftrightarrow> inside (upcs s u) \<and> cpu_of u = int c"
    "\<And>c. local_ok s c" "added s = global s + (\<Sum>c<NUMCPUS. pending s c)"
    using inv by (simp_all add: counter_invar_def)
  have cpu: "cpu_of t = int c0" using c0 I(4) [OF ins] by simp
  then have c8: "c0 < NUMCPUS" using cpu_of_less [of t] by simp
  have holder: "llock s c0 = Some t" using I(5) ins cpu by simp
  have other: "pending s' c = pending s c \<and> local_ok s' c" if "c \<noteq> c0" for c
  proof (cases "llock s c")
    case None
    then show ?thesis using same(1,5,6) that I(6) [of c] by (simp add: pending_def local_ok_def)
  next
    case (Some u)
    then have "u \<noteq> t" using I(5) [of c u] cpu that by auto
    then show ?thesis using same(1,4,5,6) that Some I(6) [of c] by (simp add: pending_def local_ok_def)
  qed
  have "llock s' c = Some u \<longleftrightarrow> inside (upcs s' u) \<and> cpu_of u = int c" for c u
  proof (cases "c = c0")
    case True
    have "u = t" if "inside (upcs s' u)" "cpu_of u = int c0"
    proof (rule ccontr)
      assume "u \<noteq> t"
      then have "inside (upcs s u)" using that same(4) by simp
      then have "llock s c0 = Some u" using I(5) that(2) by simp
      then show False using holder \<open>u \<noteq> t\<close> by simp
    qed
    then show ?thesis using True lock(1) cpu by auto
  next
    case False
    then show ?thesis using same(4,6) I(5) [of c u] cpu by (cases "u = t") auto
  qed
  moreover have "0 \<le> cpu_of u" if "inside (upcs s' u)" for u
    using that I(4) [of u] same(4) cpu by (cases "u = t") auto
  moreover have "0 < amt s' u" if "upcs s' u \<noteq> U_idle" for u
    using that I(3) same(3,4) ins by (cases "u = t") (auto simp: inside_def)
  moreover have "local_ok s' c" for c using other loc by (cases "c = c0") auto
  moreover have "added s' = global s' + (\<Sum>c<NUMCPUS. pending s' c)"
    using sum_pending [OF c8, of s' s] other I(7) sum by simp
  ultimately show ?thesis using I(1,2) same(1,2) gl by (simp add: counter_invar_def)
qed

lemma failed_invar [simp]: "counter_invar (s\<lparr>failed := e\<rparr>) = counter_invar s"
proof -
  have "pending (s\<lparr>failed := e\<rparr>) c = pending s c" "local_ok (s\<lparr>failed := e\<rparr>) c = local_ok s c" for c
    by (simp_all add: pending_def local_ok_def split: option.split)
  then show ?thesis by (simp add: counter_invar_def)
qed

lemma outside_step:
  assumes inv: "counter_invar s" and st: "update_step t s = Some s'" and out: "\<not> inside (upcs s t)"
  shows "counter_invar s'"
proof -
  have I: "0 < threshold s" "\<forall>t. \<forall>a\<in>set (todo s t). 0 < a" "\<forall>t. upcs s t \<noteq> U_idle \<longrightarrow> 0 < amt s t"
    "\<forall>u. inside (upcs s u) \<longrightarrow> 0 \<le> cpu_of u"
    "\<And>c u. llock s c = Some u \<longleftrightarrow> inside (upcs s u) \<and> cpu_of u = int c"
    "\<And>u. glock s = Some u \<longleftrightarrow> upcs s u = U_transfer \<or> upcs s u = U_gunlock"
    "\<And>c. local_ok s c" "added s = global s + (\<Sum>c<NUMCPUS. pending s c)"
    using inv by (simp_all add: counter_invar_def)
  show ?thesis
  proof (cases "upcs s t = U_idle")
    case True
    obtain a as where "todo s t = a # as" using st True by (auto simp: update_step_def Let_def split: list.splits)
    then have s': "s' = at t U_lock (s\<lparr>amt := (amt s)(t := a), todo := (todo s)(t := as)\<rparr>)"
      using st True by (simp add: update_step_def)
    have ne: "llock s c \<noteq> Some t" for c using I(5) out by simp
    have "pending s' c = pending s c \<and> local_ok s' c" for c
      using ne [of c] I(7) [of c] by (auto simp: s' at_def pending_def local_ok_def split: option.splits)
    moreover have "0 < a" "\<forall>x\<in>set as. 0 < x" using I(2) \<open>todo s t = a # as\<close> by (metis list.set_intros)+
    moreover have "inside (upcs s' u) = inside (upcs s u)" for u
      using True by (cases "u = t") (simp_all add: s' at_def inside_def)
    moreover have "upcs s' u = U_transfer \<or> upcs s' u = U_gunlock \<longleftrightarrow> upcs s u = U_transfer \<or> upcs s u = U_gunlock" for u
      using True by (cases "u = t") (simp_all add: s' at_def)
    moreover have "threshold s' = threshold s" "llock s' = llock s" "glock s' = glock s" "added s' = added s"
      "global s' = global s" by (simp_all add: s' at_def)
    moreover have "\<forall>u. \<forall>x\<in>set (todo s' u). 0 < x"
      using I(2) \<open>\<forall>x\<in>set as. 0 < x\<close> by (simp add: s' at_def)
    moreover have "\<forall>u. upcs s' u \<noteq> U_idle \<longrightarrow> 0 < amt s' u"
      using I(3) \<open>0 < a\<close> by (simp add: s' at_def)
    ultimately show ?thesis using I by (simp add: counter_invar_def)
  next
    case False
    then have lk: "upcs s t = U_lock" using out by (simp add: inside_def)
    show ?thesis
    proof (cases "cpu_of t < 0")
      case True
      then have "s' = s\<lparr>failed := Some Out_of_bounds\<rparr>" using st lk by (simp add: update_step_def)
      then show ?thesis using inv by simp
    next
      case False
      define c0 where "c0 = nat (cpu_of t)"
      have cpu: "cpu_of t = int c0" using False by (simp add: c0_def)
      have fr: "llock s c0 = None" and s': "s' = at t U_add (s\<lparr>llock := (llock s)(c0 := Some t)\<rparr>)"
        using st lk False by (simp_all add: update_step_def c0_def Let_def split: if_splits)
      have ne: "llock s c \<noteq> Some t" for c using I(5) out by simp
      have "pending s' c = pending s c \<and> local_ok s' c" for c
        using ne [of c] I(7) [of c] fr
        by (cases "c = c0") (auto simp: s' at_def pending_def local_ok_def transferred_def split: option.splits)
      moreover have "llock s' c = Some u \<longleftrightarrow> inside (upcs s' u) \<and> cpu_of u = int c" for c u
        using I(5) [of c u] fr I(5) [of c0 u] cpu
        by (cases "u = t"; cases "c = c0") (auto simp: s' at_def inside_def)
      moreover have "upcs s' u = U_transfer \<or> upcs s' u = U_gunlock \<longleftrightarrow> upcs s u = U_transfer \<or> upcs s u = U_gunlock" for u
        using lk by (cases "u = t") (simp_all add: s' at_def)
      moreover have "inside (upcs s' u) \<longrightarrow> 0 \<le> cpu_of u" for u
        using I(4) cpu by (cases "u = t") (simp_all add: s' at_def)
      moreover have "upcs s' u \<noteq> U_idle \<longrightarrow> 0 < amt s' u" for u
        using I(3) lk by (cases "u = t") (simp_all add: s' at_def)
      moreover have "threshold s' = threshold s" "todo s' = todo s" "glock s' = glock s" "added s' = added s"
        "global s' = global s" by (simp_all add: s' at_def)
      ultimately show ?thesis using I by (simp add: counter_invar_def)
    qed
  qed
qed

text \<open>The step of a thread inside \<open>update\<close>, case by case.\<close>

lemma inside_cases:
  assumes st: "update_step t s = Some s'" and ins: "inside (upcs s t)" and c0: "c0 = nat (cpu_of t)"
  obtains (fail) e where "s' = s\<lparr>failed := Some e\<rparr>"
    | (add) "upcs s t = U_add"
      "s' = at t U_test (s\<lparr>locals := (locals s)(c0 := locals s c0 + amt s t), added := added s + amt s t\<rparr>)"
    | (test) "upcs s t = U_test" "s' = at t (if threshold s \<le> locals s c0 then U_glock else U_unlock) s"
    | (glock) "upcs s t = U_glock" "glock s = None" "s' = at t U_transfer (s\<lparr>glock := Some t\<rparr>)"
    | (transfer) "upcs s t = U_transfer" "s' = at t U_gunlock (s\<lparr>global := global s + locals s c0\<rparr>)"
    | (gunlock) "upcs s t = U_gunlock" "s' = at t U_reset (s\<lparr>glock := None\<rparr>)"
    | (reset) "upcs s t = U_reset" "s' = at t U_unlock (s\<lparr>locals := (locals s)(c0 := 0)\<rparr>)"
    | (unlock) "upcs s t = U_unlock" "s' = at t U_idle (s\<lparr>llock := (llock s)(c0 := None)\<rparr>)"
  using st ins
  by (cases "upcs s t"; simp add: update_step_def c0 [symmetric] Let_def inside_def split: if_splits; metis)

lemma update_inside:
  assumes inv: "counter_invar s" and st: "update_step t s = Some s'" and ins: "inside (upcs s t)"
  shows "counter_invar s'"
proof -
  define c0 where "c0 = nat (cpu_of t)"
  have I: "0 < threshold s" "0 < amt s t" "llock s c0 = Some t" "local_ok s c0"
    using inv ins by (auto simp: counter_invar_def c0_def inside_def)
  have lk: "\<And>u. glock s = Some u \<longleftrightarrow> upcs s u = U_transfer \<or> upcs s u = U_gunlock"
    using inv by (simp add: counter_invar_def)
  note rule = inside_step [OF inv ins c0_def]
  note res = at_def local_ok_def pending_def inside_def transferred_def small_def
  show ?thesis
    using st ins c0_def
  proof (cases rule: inside_cases)
    case (fail e)
    then show ?thesis using inv by simp
  next
    case add
    have "glock s' = Some u \<longleftrightarrow> upcs s' u = U_transfer \<or> upcs s' u = U_gunlock" for u
      using lk [of u] add by (cases "u = t") (simp_all add: at_def)
    then show ?thesis using add I by (intro rule) (auto simp: res)
  next
    case test
    have "glock s' = Some u \<longleftrightarrow> upcs s' u = U_transfer \<or> upcs s' u = U_gunlock" for u
      using lk [of u] test by (cases "u = t") (simp_all add: at_def)
    then show ?thesis using test I by (intro rule) (auto simp: res)
  next
    case glock
    have "glock s' = Some u \<longleftrightarrow> upcs s' u = U_transfer \<or> upcs s' u = U_gunlock" for u
      using lk [of u] glock by (cases "u = t") (simp_all add: at_def)
    then show ?thesis using glock I by (intro rule) (auto simp: res)
  next
    case transfer
    have "glock s' = Some u \<longleftrightarrow> upcs s' u = U_transfer \<or> upcs s' u = U_gunlock" for u
      using lk [of u] transfer by (cases "u = t") (simp_all add: at_def)
    then show ?thesis using transfer I by (intro rule) (auto simp: res)
  next
    case gunlock
    have "glock s = Some t" using lk [of t] gunlock by simp
    then have "glock s' = Some u \<longleftrightarrow> upcs s' u = U_transfer \<or> upcs s' u = U_gunlock" for u
      using lk [of u] gunlock by (cases "u = t") (simp_all add: at_def)
    then show ?thesis using gunlock I by (intro rule) (auto simp: res)
  next
    case reset
    have "glock s' = Some u \<longleftrightarrow> upcs s' u = U_transfer \<or> upcs s' u = U_gunlock" for u
      using lk [of u] reset by (cases "u = t") (simp_all add: at_def)
    then show ?thesis using reset I by (intro rule) (auto simp: res)
  next
    case unlock
    have "glock s' = Some u \<longleftrightarrow> upcs s' u = U_transfer \<or> upcs s' u = U_gunlock" for u
      using lk [of u] unlock by (cases "u = t") (simp_all add: at_def)
    then show ?thesis using unlock I by (intro rule) (auto simp: res)
  qed
qed

lemma counter_invar_step: "counter_invar s \<Longrightarrow> counter_step t s = Some s' \<Longrightarrow> counter_invar s'"
  using update_inside [of s t s'] outside_step [of s t s']
  by (cases "inside (upcs s t)") (simp_all add: counter_step_def split: if_splits)

interpretation counting: safe_program counter_step counter_start counter_invar
  by unfold_locales (fact counter_invar_start, fact counter_invar_step)

section \<open>Accuracy\<close>

text \<open>Property C9.
  Accuracy of the approximate counter, for positive amounts and a positive threshold: at every moment what \<open>get\<close> returns is at most
  the sum of what has been added, and when no thread is within \<open>update\<close> it lacks less than \<open>NUMCPUS * threshold\<close>.
\<close>

theorem counter_accuracy:
  assumes "reach counter_step counter_start s"
  shows "(get s = Some x \<longrightarrow> x \<le> added s) \<and>
    ((\<forall>t. \<not> inside (upcs s t)) \<longrightarrow> get s = Some (global s) \<and> added s < global s + int NUMCPUS * threshold s)"
proof -
  have inv: "counter_invar s" using counting.invar_reach [OF assms] .
  then have sum: "added s = global s + (\<Sum>c<NUMCPUS. pending s c)" and loc: "\<And>c. local_ok s c"
    and lk: "\<And>c t. llock s c = Some t \<longleftrightarrow> inside (upcs s t) \<and> cpu_of t = int c"
    and gl: "\<And>t. glock s = Some t \<longleftrightarrow> upcs s t = U_transfer \<or> upcs s t = U_gunlock"
    by (simp_all add: counter_invar_def)
  have "0 \<le> pending s c" for c
    using loc [of c] by (auto simp: pending_def local_ok_def split: option.split)
  then have "0 \<le> (\<Sum>c<NUMCPUS. pending s c)" by (intro sum_nonneg) simp
  then have low: "get s = Some x \<longrightarrow> x \<le> added s" using sum by (auto simp: get_def)
  have high: "get s = Some (global s) \<and> added s < global s + int NUMCPUS * threshold s"
    if out: "\<forall>t. \<not> inside (upcs s t)"
  proof -
    have "llock s c = None" for c using lk out by (metis not_None_eq)
    then have "pending s c < threshold s" for c
      using loc [of c] by (simp add: pending_def local_ok_def)
    then have "(\<Sum>c<NUMCPUS. pending s c) < (\<Sum>c<NUMCPUS. threshold s)"
      by (intro sum_strict_mono) (simp_all add: NUMCPUS_def lessThan_empty_iff)
    moreover have "glock s \<noteq> Some t" for t using gl [of t] spec [OF out, of t] by (auto simp: inside_def)
    then have "glock s = None" by auto
    ultimately show ?thesis using sum by (simp add: get_def)
  qed
  show ?thesis using low high by blast
qed

theorem counter_accuracy_witness:
  "\<exists>s. reach counter_step counter_start s \<and> get s = Some 7 \<and> added s = 10 \<and> added s < 7 + int NUMCPUS * threshold s"
proof -
  let ?s = "system 5 ((\<lambda>_. [])(0 := [7, 3]))"
  have st: "counter_start ?s" by (simp add: counter_start_def system_def counter_init_def)
  have "\<exists>s. run counter_step (replicate 14 0) ?s = Some s \<and> (\<forall>t. \<not> inside (upcs s t)) \<and> added s = 10 \<and> global s = 7"
    by (simp add: eval_nat_numeral counter_step_def update_step_def system_def counter_init_def at_def cpu_of_def
        NUMCPUS_def int_ok_def inside_def)
  then obtain s where s: "run counter_step (replicate 14 0) ?s = Some s" "\<forall>t. \<not> inside (upcs s t)"
      "added s = 10" "global s = 7" by blast
  have r: "reach counter_step counter_start s"
    by (rule reach_run [where s = ?s and as = "replicate 14 0"]) (fact st, fact s(1))
  show ?thesis using counter_accuracy [OF r, of 7] s r by (intro exI [of _ s]) simp
qed

end
