(* ===== verification/RWLock.thy ===== *)
theory RWLock
  imports Prelude Ctext
begin

text \<open>
  The reader-writer locks of \<open>src/concurrency/threads-sema\<close>: \<open>reader-writer.c\<close> and \<open>reader-writer-nostarve.c\<close>, which differ in
  what \<open>rwlock_acquire_writelock\<close> prints. Every thread is at a program point, and a step executes what is there: one
  operation of a semaphore, one access of the counter of readers or of \<open>value\<close>, one line of output. Reading \<open>value\<close> for a \<open>printf\<close> is one
  step with the output of the line, and the increment of \<open>readers\<close>, which only the holder of \<open>lock\<close> writes, is one step.
\<close>

section \<open>Data\<close>

record rwlock =
  lock :: nat        \<comment> \<open>the values of the semaphores\<close>
  writelock :: nat
  readers :: int

record rwconf =
  num_readers :: int
  num_writers :: int
  loops :: int
  announce :: bool   \<comment> \<open>reader-writer-nostarve.c\<close>

datatype line = Begin | Num_readers int | Read int | Write int | End_value int

datatype rpc =
    R_new | R_for
  | R_wait1 | R_inc | R_test1 | R_first | R_post1   \<comment> \<open>\<open>rwlock_acquire_readlock\<close>\<close>
  | R_read
  | R_wait2 | R_dec | R_test2 | R_last | R_post2    \<comment> \<open>\<open>rwlock_release_readlock\<close>\<close>
  | R_next | R_done

datatype wpc =
    W_new | W_for
  | W_show | W_wait                                 \<comment> \<open>\<open>rwlock_acquire_writelock\<close>\<close>
  | W_read | W_write | W_print
  | W_post                                          \<comment> \<open>\<open>rwlock_release_writelock\<close>\<close>
  | W_next | W_done

datatype mpc =
  M_init | M_begin | M_create_r nat | M_create_w nat | M_join_r nat | M_join_w nat | M_end | M_exit

record rwsys = rwlock +
  val :: int                \<comment> \<open>\<open>value\<close>\<close>
  rpcs :: "nat \<Rightarrow> rpc"
  ri :: "nat \<Rightarrow> int"         \<comment> \<open>\<open>i\<close> of \<open>reader\<close>\<close>
  wpcs :: "nat \<Rightarrow> wpc"
  wi :: "nat \<Rightarrow> int"         \<comment> \<open>\<open>i\<close> of \<open>writer\<close>\<close>
  wreg :: "nat \<Rightarrow> int"       \<comment> \<open>the \<open>value\<close> a writer has read\<close>
  mainpc :: mpc
  printed :: "line list"
  bad :: "fault option"

datatype tact = Main | Reader nat | Writer nat

definition rgoto :: "nat \<Rightarrow> rpc \<Rightarrow> rwsys \<Rightarrow> rwsys" where
  "rgoto t p s = s\<lparr>rpcs := (rpcs s)(t := p)\<rparr>"

definition wgoto :: "nat \<Rightarrow> wpc \<Rightarrow> rwsys \<Rightarrow> rwsys" where
  "wgoto t p s = s\<lparr>wpcs := (wpcs s)(t := p)\<rparr>"

definition print :: "line \<Rightarrow> rwsys \<Rightarrow> rwsys" where
  "print l s = s\<lparr>printed := printed s @ [l]\<rparr>"

section \<open>The lock\<close>

definition rwlock_init :: "'a rwlock_scheme \<Rightarrow> 'a rwlock_scheme" where
  "rwlock_init l = l\<lparr>readers := 0, lock := 1, writelock := 1\<rparr>"

text \<open>\<open>sem_wait\<close> and \<open>sem_post\<close> on the two semaphores; a wait for a semaphore of value 0 blocks.\<close>

definition wait_lock :: "rwsys \<Rightarrow> rwsys option" where
  "wait_lock s = (if 0 < lock s then Some (s\<lparr>lock := lock s - 1\<rparr>) else None)"

definition post_lock :: "rwsys \<Rightarrow> rwsys" where
  "post_lock s = s\<lparr>lock := lock s + 1\<rparr>"

definition wait_writelock :: "rwsys \<Rightarrow> rwsys option" where
  "wait_writelock s = (if 0 < writelock s then Some (s\<lparr>writelock := writelock s - 1\<rparr>) else None)"

definition post_writelock :: "rwsys \<Rightarrow> rwsys" where
  "post_writelock s = s\<lparr>writelock := writelock s + 1\<rparr>"

definition add_readers :: "int \<Rightarrow> rwsys \<Rightarrow> rwsys" where
  "add_readers d s =
     (if int_ok (readers s + d) then s\<lparr>readers := readers s + d\<rparr> else s\<lparr>bad := Some Int_overflow\<rparr>)"

definition rwlock_acquire_readlock :: "nat \<Rightarrow> rwsys \<Rightarrow> rwsys option" where
  "rwlock_acquire_readlock t s = (case rpcs s t of
       R_wait1 \<Rightarrow> map_option (rgoto t R_inc) (wait_lock s)
     | R_inc \<Rightarrow> Some (rgoto t R_test1 (add_readers 1 s))
     | R_test1 \<Rightarrow> Some (rgoto t (if readers s = 1 then R_first else R_post1) s)
     | R_first \<Rightarrow> map_option (rgoto t R_post1) (wait_writelock s)
     | R_post1 \<Rightarrow> Some (rgoto t R_read (post_lock s))
     | _ \<Rightarrow> None)"

text \<open>The comment of the source says that the last reader releases the lock of the writers; the code waits for it.\<close>

definition rwlock_release_readlock :: "nat \<Rightarrow> rwsys \<Rightarrow> rwsys option" where
  "rwlock_release_readlock t s = (case rpcs s t of
       R_wait2 \<Rightarrow> map_option (rgoto t R_dec) (wait_lock s)
     | R_dec \<Rightarrow> Some (rgoto t R_test2 (add_readers (- 1) s))
     | R_test2 \<Rightarrow> Some (rgoto t (if readers s = 0 then R_last else R_post2) s)
     | R_last \<Rightarrow> map_option (rgoto t R_post2) (wait_writelock s)
     | R_post2 \<Rightarrow> Some (rgoto t R_next (post_lock s))
     | _ \<Rightarrow> None)"

definition rwlock_acquire_writelock :: "rwconf \<Rightarrow> nat \<Rightarrow> rwsys \<Rightarrow> rwsys option" where
  "rwlock_acquire_writelock c t s = (case wpcs s t of
       W_show \<Rightarrow> Some (wgoto t W_wait (if announce c then print (Num_readers (readers s)) s else s))
     | W_wait \<Rightarrow> map_option (wgoto t W_read) (wait_writelock s)
     | _ \<Rightarrow> None)"

definition rwlock_release_writelock :: "nat \<Rightarrow> rwsys \<Rightarrow> rwsys option" where
  "rwlock_release_writelock t s = (case wpcs s t of
       W_post \<Rightarrow> Some (wgoto t W_next (post_writelock s))
     | _ \<Rightarrow> None)"

section \<open>The threads\<close>

definition reader :: "rwconf \<Rightarrow> nat \<Rightarrow> rwsys \<Rightarrow> rwsys option" where
  "reader c t s = (case rpcs s t of
       R_new \<Rightarrow> None
     | R_for \<Rightarrow> Some (rgoto t (if ri s t < loops c then R_wait1 else R_done) s)
     | R_read \<Rightarrow> Some (rgoto t R_wait2 (print (Read (val s)) s))
     | R_next \<Rightarrow> Some (rgoto t R_for (s\<lparr>ri := (ri s)(t := ri s t + 1)\<rparr>))
     | R_done \<Rightarrow> None
     | p \<Rightarrow> (if p \<in> {R_wait1, R_inc, R_test1, R_first, R_post1}
            then rwlock_acquire_readlock t s else rwlock_release_readlock t s))"

definition writer :: "rwconf \<Rightarrow> nat \<Rightarrow> rwsys \<Rightarrow> rwsys option" where
  "writer c t s = (case wpcs s t of
       W_new \<Rightarrow> None
     | W_for \<Rightarrow> Some (wgoto t (if wi s t < loops c then W_show else W_done) s)
     | W_read \<Rightarrow> Some (wgoto t W_write (s\<lparr>wreg := (wreg s)(t := val s)\<rparr>))
     | W_write \<Rightarrow>
         if int_ok (wreg s t + 1) then Some (wgoto t W_print (s\<lparr>val := wreg s t + 1\<rparr>))
         else Some (s\<lparr>bad := Some Int_overflow\<rparr>)
     | W_print \<Rightarrow> Some (wgoto t W_post (print (Write (val s)) s))
     | W_post \<Rightarrow> rwlock_release_writelock t s
     | W_next \<Rightarrow> Some (wgoto t W_for (s\<lparr>wi := (wi s)(t := wi s t + 1)\<rparr>))
     | W_done \<Rightarrow> None
     | _ \<Rightarrow> rwlock_acquire_writelock c t s)"

section \<open>main\<close>

text \<open>The arguments: an array of a size that is not positive is undefined behaviour.\<close>

definition rw_setup :: "bool \<Rightarrow> string list \<Rightarrow> stop + rwconf" where
  "rw_setup nostarve argv =
     and_then (assert_that (length argv = 4) ''argc == 4'' ()) (\<lambda>_.
     and_then (atoi_arg (argv ! 1)) (\<lambda>num_readers.
     and_then (atoi_arg (argv ! 2)) (\<lambda>num_writers.
     and_then (atoi_arg (argv ! 3)) (\<lambda>loops.
       if num_readers \<le> 0 \<or> num_writers \<le> 0 then Inl (Fault Bad_size)
       else Inr \<lparr>num_readers = num_readers, num_writers = num_writers, loops = loops, announce = nostarve\<rparr>))))"

definition main_step :: "rwconf \<Rightarrow> rwsys \<Rightarrow> rwsys option" where
  "main_step c s = (case mainpc s of
       M_init \<Rightarrow> Some ((rwlock_init s)\<lparr>mainpc := M_begin\<rparr>)
     | M_begin \<Rightarrow> Some (print Begin s\<lparr>mainpc := M_create_r 0\<rparr>)
     | M_create_r i \<Rightarrow>
         if int i < num_readers c then Some (rgoto i R_for (s\<lparr>mainpc := M_create_r (i + 1)\<rparr>))
         else Some (s\<lparr>mainpc := M_create_w 0\<rparr>)
     | M_create_w i \<Rightarrow>
         if int i < num_writers c then Some (wgoto i W_for (s\<lparr>mainpc := M_create_w (i + 1)\<rparr>))
         else Some (s\<lparr>mainpc := M_join_r 0\<rparr>)
     | M_join_r i \<Rightarrow>
         if int i < num_readers c
         then (if rpcs s i = R_done then Some (s\<lparr>mainpc := M_join_r (i + 1)\<rparr>) else None)
         else Some (s\<lparr>mainpc := M_join_w 0\<rparr>)
     | M_join_w i \<Rightarrow>
         if int i < num_writers c
         then (if wpcs s i = W_done then Some (s\<lparr>mainpc := M_join_w (i + 1)\<rparr>) else None)
         else Some (s\<lparr>mainpc := M_end\<rparr>)
     | M_end \<Rightarrow> Some (print (End_value (val s)) s\<lparr>mainpc := M_exit\<rparr>)
     | M_exit \<Rightarrow> None)"

definition rw_step :: "rwconf \<Rightarrow> tact \<Rightarrow> rwsys \<Rightarrow> rwsys option" where
  "rw_step c a s =
     (if bad s \<noteq> None then None
      else case a of Main \<Rightarrow> main_step c s | Reader t \<Rightarrow> reader c t s | Writer t \<Rightarrow> writer c t s)"

text \<open>The globals are zero before \<open>main\<close>.\<close>

definition rw_initial :: rwsys where
  "rw_initial = \<lparr>lock = 0, writelock = 0, readers = 0, val = 0, rpcs = (\<lambda>_. R_new), ri = (\<lambda>_. 0),
     wpcs = (\<lambda>_. W_new), wi = (\<lambda>_. 0), wreg = (\<lambda>_. 0), mainpc = M_init, printed = [], bad = None\<rparr>"

definition rw_start :: "rwsys \<Rightarrow> bool" where
  "rw_start s \<longleftrightarrow> s = rw_initial"

section \<open>Accesses\<close>

text \<open>
  The variables outside of the semaphores that two threads use, and what the next step of a thread does with them: whether it writes
  the variable, or only reads it. Two threads race when both are about to access the same variable and one is about to write it, which is
  undefined behaviour. A step itself is always one access: the behaviour of a program behind a race is the one with atomic accesses.
\<close>

datatype var = Readers | Value

definition accesses :: "rwconf \<Rightarrow> tact \<Rightarrow> rwsys \<Rightarrow> (var \<times> bool) list" where
  "accesses c a s = (case a of
       Main \<Rightarrow> (case mainpc s of M_init \<Rightarrow> [(Readers, True)] | M_end \<Rightarrow> [(Value, False)] | _ \<Rightarrow> [])
     | Reader t \<Rightarrow>
         (if rpcs s t \<in> {R_inc, R_dec} then [(Readers, True)]
          else if rpcs s t \<in> {R_test1, R_test2} then [(Readers, False)]
          else if rpcs s t = R_read then [(Value, False)] else [])
     | Writer t \<Rightarrow>
         (if wpcs s t = W_show then (if announce c then [(Readers, False)] else [])
          else if wpcs s t \<in> {W_read, W_print} then [(Value, False)]
          else if wpcs s t = W_write then [(Value, True)] else []))"

definition race :: "rwconf \<Rightarrow> rwsys \<Rightarrow> bool" where
  "race c s \<longleftrightarrow> (\<exists>a b v. a \<noteq> b \<and> (v, True) \<in> set (accesses c a s) \<and> v \<in> fst ` set (accesses c b s))"

definition returned :: "rwsys \<Rightarrow> bool" where
  "returned s \<longleftrightarrow> mainpc s = M_exit"

definition stuck :: "rwconf \<Rightarrow> rwsys \<Rightarrow> bool" where
  "stuck c s \<longleftrightarrow> (\<forall>a. rw_step c a s = None)"

end
