(* ===== verification/RWProps.thy ===== *)
theory RWProps
  imports RWLock
begin

text \<open>
  What the reader-writer locks guarantee: readers and writers exclude each other and no increment of \<open>value\<close> is lost. And what they
  do not: the last reader waits for the semaphore it should post, so that with a reader and a round the program never ends. The
  invariant counts the threads at sets of program points.
\<close>

section \<open>Program points\<close>

text \<open>The readers that hold \<open>lock\<close>, those that are counted in \<open>readers\<close>, and those between the wait for \<open>writelock\<close> and the
  end of their release; the writers that hold \<open>writelock\<close>.\<close>

definition in_lock :: "rpc \<Rightarrow> bool" where
  "in_lock p \<longleftrightarrow> p \<in> {R_inc, R_test1, R_first, R_post1, R_dec, R_test2, R_last, R_post2}"

definition counted :: "rpc \<Rightarrow> bool" where
  "counted p \<longleftrightarrow> p \<in> {R_test1, R_first, R_post1, R_read, R_wait2, R_dec}"

definition holding :: "rpc \<Rightarrow> bool" where
  "holding p \<longleftrightarrow> p \<in> {R_post1, R_read, R_wait2, R_dec, R_test2, R_last}"

definition writing :: "wpc \<Rightarrow> bool" where
  "writing p \<longleftrightarrow> p \<in> {W_read, W_write, W_print, W_post}"

definition written :: "wpc \<Rightarrow> bool" where
  "written p \<longleftrightarrow> p \<in> {W_print, W_post, W_next}"

lemmas point_defs = in_lock_def counted_def holding_def writing_def written_def

abbreviation rthreads :: "rwconf \<Rightarrow> nat set" where
  "rthreads c \<equiv> {..<nat (num_readers c)}"

abbreviation wthreads :: "rwconf \<Rightarrow> nat set" where
  "wthreads c \<equiv> {..<nat (num_writers c)}"

definition held :: "rwconf \<Rightarrow> rwsys \<Rightarrow> bool" where
  "held c s \<longleftrightarrow> (\<exists>t\<in>rthreads c. holding (rpcs s t))"

section \<open>The invariant\<close>

definition lock_ok :: "rwconf \<Rightarrow> rwsys \<Rightarrow> bool" where
  "lock_ok c s \<longleftrightarrow>
     int (lock s) + int (count_at (rthreads c) in_lock (rpcs s)) = of_bool (mainpc s \<noteq> M_init) \<and>
     readers s = int (count_at (rthreads c) counted (rpcs s)) \<and>
     int (writelock s) + int (count_at (wthreads c) writing (wpcs s)) + of_bool (held c s) = of_bool (mainpc s \<noteq> M_init)"

definition first_ok :: "rwsys \<Rightarrow> bool" where
  "first_ok s \<longleftrightarrow> (\<forall>t. (rpcs s t = R_first \<longrightarrow> readers s = 1) \<and> (rpcs s t = R_last \<longrightarrow> readers s = 0))"

definition reader_ok :: "rwconf \<Rightarrow> rwsys \<Rightarrow> nat \<Rightarrow> bool" where
  "reader_ok c s t \<longleftrightarrow>
     (rpcs s t \<noteq> R_new \<longrightarrow> t \<in> rthreads c) \<and> 0 \<le> ri s t \<and> (0 < ri s t \<longrightarrow> held c s) \<and>
     ri s t \<le> max 0 (loops c) \<and> (rpcs s t \<notin> {R_new, R_for, R_done} \<longrightarrow> ri s t < loops c) \<and>
     (rpcs s t \<in> {R_post2, R_next} \<longrightarrow> held c s) \<and> (rpcs s t = R_done \<longrightarrow> ri s t = max 0 (loops c))"

definition writer_ok :: "rwconf \<Rightarrow> rwsys \<Rightarrow> nat \<Rightarrow> bool" where
  "writer_ok c s t \<longleftrightarrow>
     (wpcs s t \<noteq> W_new \<longrightarrow> t \<in> wthreads c) \<and> 0 \<le> wi s t \<and>
     wi s t \<le> max 0 (loops c) \<and> (wpcs s t \<notin> {W_new, W_for, W_done} \<longrightarrow> wi s t < loops c) \<and>
     (wpcs s t = W_write \<longrightarrow> wreg s t = val s) \<and> (wpcs s t = W_done \<longrightarrow> wi s t = max 0 (loops c)) \<and>
     (wpcs s t = W_new \<longrightarrow> wi s t = 0)"

definition increments :: "rwsys \<Rightarrow> nat \<Rightarrow> int" where
  "increments s t = wi s t + of_bool (written (wpcs s t))"

definition main_ok :: "rwconf \<Rightarrow> rwsys \<Rightarrow> bool" where
  "main_ok c s \<longleftrightarrow> (case mainpc s of
       M_init \<Rightarrow> (\<forall>t. rpcs s t = R_new) \<and> (\<forall>t. wpcs s t = W_new)
     | M_begin \<Rightarrow> (\<forall>t. rpcs s t = R_new) \<and> (\<forall>t. wpcs s t = W_new)
     | M_create_r i \<Rightarrow> (\<forall>t. rpcs s t \<noteq> R_new \<longleftrightarrow> t < i) \<and> (\<forall>t. wpcs s t = W_new)
     | M_create_w i \<Rightarrow> (\<forall>t\<in>rthreads c. rpcs s t \<noteq> R_new) \<and> (\<forall>t. wpcs s t \<noteq> W_new \<longleftrightarrow> t < i)
     | M_join_r i \<Rightarrow> (\<forall>t\<in>rthreads c. rpcs s t \<noteq> R_new) \<and> (\<forall>t\<in>wthreads c. wpcs s t \<noteq> W_new) \<and>
         (\<forall>t<i. rpcs s t = R_done)
     | M_join_w i \<Rightarrow> (\<forall>t\<in>rthreads c. rpcs s t = R_done) \<and> (\<forall>t\<in>wthreads c. wpcs s t \<noteq> W_new) \<and>
         (\<forall>t<i. wpcs s t = W_done)
     | _ \<Rightarrow> (\<forall>t\<in>rthreads c. rpcs s t = R_done) \<and> (\<forall>t\<in>wthreads c. wpcs s t = W_done))"

definition rw_invar :: "rwconf \<Rightarrow> rwsys \<Rightarrow> bool" where
  "rw_invar c s \<longleftrightarrow> bad s \<noteq> None \<or>
     lock_ok c s \<and> first_ok s \<and> (\<forall>t. reader_ok c s t) \<and> (\<forall>t. writer_ok c s t) \<and> main_ok c s \<and>
     val s = (\<Sum>t\<in>wthreads c. increments s t)"

section \<open>A reader moves\<close>

lemmas rw_defs = rgoto_def wgoto_def print_def wait_lock_def post_lock_def wait_writelock_def post_writelock_def
  add_readers_def

lemma held_upd:
  assumes "t \<in> rthreads c" "rpcs s' = (rpcs s)(t := q)"
  shows "holding q = holding (rpcs s t) \<Longrightarrow> held c s' = held c s"
    "holding q \<Longrightarrow> held c s'"
    "u \<in> rthreads c \<Longrightarrow> u \<noteq> t \<Longrightarrow> holding (rpcs s u) \<Longrightarrow> held c s' \<and> held c s"
  using assms by (auto simp: held_def)

lemma reader_thread: "reader_ok c s t \<Longrightarrow> reader c t s = Some s' \<Longrightarrow> t \<in> rthreads c"
  by (auto simp: reader_ok_def reader_def)

text \<open>Another thread than the holder of \<open>lock\<close> that is counted is between acquire and release.\<close>

lemma other_holding:
  assumes ok: "lock_ok c s" and t: "t \<in> rthreads c" "in_lock (rpcs s t)"
    and more: "of_bool (counted (rpcs s t)) < readers s"
  obtains u where "u \<in> rthreads c" "u \<noteq> t" "holding (rpcs s u)"
proof -
  have "of_bool (counted (rpcs s t)) < count_at (rthreads c) counted (rpcs s)"
    using ok more by (auto simp: lock_ok_def of_bool_def split: if_splits)
  then obtain u where u: "u \<in> rthreads c" "u \<noteq> t" "counted (rpcs s u)"
    by (rule count_at_other [OF finite_lessThan])
  have "\<not> in_lock (rpcs s u)"
  proof
    assume "in_lock (rpcs s u)"
    moreover have "count_at (rthreads c) in_lock (rpcs s) \<le> 1"
      using ok by (auto simp: lock_ok_def of_bool_def split: if_splits)
    ultimately show False using count_at_unique [of "rthreads c" in_lock "rpcs s" t u] t u(1,2) by auto
  qed
  then have "holding (rpcs s u)" using u(3) by (cases "rpcs s u") (simp_all add: point_defs)
  with u that show ?thesis by blast
qed

text \<open>The steps of a reader, by what they change.\<close>

inductive rmove :: "rwconf \<Rightarrow> nat \<Rightarrow> rwsys \<Rightarrow> rwsys \<Rightarrow> bool" for c t s where
  rm_enter: "rpcs s t = R_for \<Longrightarrow> ri s t < loops c \<Longrightarrow> rmove c t s (rgoto t R_wait1 s)"
| rm_leave: "rpcs s t = R_for \<Longrightarrow> \<not> ri s t < loops c \<Longrightarrow> rmove c t s (rgoto t R_done s)"
| rm_read: "rpcs s t = R_read \<Longrightarrow> rmove c t s (rgoto t R_wait2 (s\<lparr>printed := out\<rparr>))"
| rm_next: "rpcs s t = R_next \<Longrightarrow> rmove c t s (rgoto t R_for (s\<lparr>ri := (ri s)(t := ri s t + 1)\<rparr>))"
| rm_lock1: "rpcs s t = R_wait1 \<Longrightarrow> 0 < lock s \<Longrightarrow> rmove c t s (rgoto t R_inc (s\<lparr>lock := lock s - Suc 0\<rparr>))"
| rm_lock2: "rpcs s t = R_wait2 \<Longrightarrow> 0 < lock s \<Longrightarrow> rmove c t s (rgoto t R_dec (s\<lparr>lock := lock s - Suc 0\<rparr>))"
| rm_inc: "rpcs s t = R_inc \<Longrightarrow> rmove c t s (rgoto t R_test1 (s\<lparr>readers := readers s + 1\<rparr>))"
| rm_dec: "rpcs s t = R_dec \<Longrightarrow> rmove c t s (rgoto t R_test2 (s\<lparr>readers := readers s - 1\<rparr>))"
| rm_first: "rpcs s t = R_test1 \<Longrightarrow> readers s = 1 \<Longrightarrow> rmove c t s (rgoto t R_first s)"
| rm_later: "rpcs s t = R_test1 \<Longrightarrow> readers s \<noteq> 1 \<Longrightarrow> rmove c t s (rgoto t R_post1 s)"
| rm_last: "rpcs s t = R_test2 \<Longrightarrow> readers s = 0 \<Longrightarrow> rmove c t s (rgoto t R_last s)"
| rm_earlier: "rpcs s t = R_test2 \<Longrightarrow> readers s \<noteq> 0 \<Longrightarrow> rmove c t s (rgoto t R_post2 s)"
| rm_write1: "rpcs s t = R_first \<Longrightarrow> 0 < writelock s \<Longrightarrow>
    rmove c t s (rgoto t R_post1 (s\<lparr>writelock := writelock s - Suc 0\<rparr>))"
| rm_write2: "rpcs s t = R_last \<Longrightarrow> 0 < writelock s \<Longrightarrow>
    rmove c t s (rgoto t R_post2 (s\<lparr>writelock := writelock s - Suc 0\<rparr>))"
| rm_post1: "rpcs s t = R_post1 \<Longrightarrow> rmove c t s (rgoto t R_read (s\<lparr>lock := Suc (lock s)\<rparr>))"
| rm_post2: "rpcs s t = R_post2 \<Longrightarrow> rmove c t s (rgoto t R_next (s\<lparr>lock := Suc (lock s)\<rparr>))"

lemma reader_rmove: "reader c t s = Some s' \<Longrightarrow> bad s' = None \<Longrightarrow> rmove c t s s'"
  by (cases "rpcs s t")
    (auto simp: reader_def rwlock_acquire_readlock_def rwlock_release_readlock_def wait_lock_def post_lock_def
      wait_writelock_def add_readers_def print_def rgoto_def [of _ _ "_\<lparr>bad := _\<rparr>"] split: if_splits intro: rmove.intros)

lemma rmove_upd: "rmove c t s s' \<Longrightarrow> rpcs s' = (rpcs s)(t := rpcs s' t)"
  by (induction rule: rmove.induct) (simp_all add: rgoto_def)

lemma rmove_frame: "rmove c t s s' \<Longrightarrow> wpcs s' = wpcs s \<and> wi s' = wi s \<and> wreg s' = wreg s \<and> val s' = val s \<and>
    mainpc s' = mainpc s \<and> (\<forall>u. u \<noteq> t \<longrightarrow> ri s' u = ri s u)"
  by (induction rule: rmove.induct) (simp_all add: rgoto_def)

lemma reader_count:
  assumes "t \<in> rthreads c" "rpcs s' = (rpcs s)(t := q)"
  shows "int (count_at (rthreads c) P (rpcs s')) =
    int (count_at (rthreads c) P (rpcs s)) + of_bool (P q) - of_bool (P (rpcs s t))"
  using assms count_at_upd [of "rthreads c" t P "rpcs s" q] by simp

lemma rmove_held:
  assumes "lock_ok c s" "t \<in> rthreads c" "rmove c t s s'"
  shows "(held c s \<longrightarrow> held c s') \<and> (held c s' \<longrightarrow> held c s \<or> rpcs s t = R_first) \<and> (rpcs s' t = R_post2 \<longrightarrow> held c s')"
proof -
  note h = held_upd [OF assms(2) rmove_upd [OF assms(3)]]
  have wl: "\<not> 0 < writelock s" if "rpcs s t = R_last"
  proof -
    have "held c s" using that assms(2) by (auto simp: held_def holding_def)
    then show ?thesis using assms(1) by (auto simp: lock_ok_def of_bool_def split: if_splits)
  qed
  have oth: "held c s' \<and> held c s" if "in_lock (rpcs s t)" "of_bool (counted (rpcs s t)) < readers s"
    using other_holding [OF assms(1,2) that] h(3) by metis
  from assms(3) show ?thesis
  proof cases
    case rm_later
    have "0 < count_at (rthreads c) counted (rpcs s)"
      using count_at_pos [of "rthreads c" t counted "rpcs s"] assms(2) rm_later by (simp add: counted_def)
    then have "1 < readers s" using assms(1) rm_later by (auto simp: lock_ok_def)
    then show ?thesis using oth rm_later by (simp add: point_defs)
  next
    case rm_earlier
    then have "0 < readers s" using assms(1) by (auto simp: lock_ok_def)
    then show ?thesis using oth rm_earlier by (simp add: point_defs)
  next
    case rm_write1
    then show ?thesis using h(2) by (simp add: rgoto_def holding_def)
  next
    case rm_write2
    then show ?thesis using wl by simp
  qed (use h(1) in \<open>simp_all add: rgoto_def holding_def\<close>)
qed

lemma rmove_effect: "rmove c t s s' \<Longrightarrow>
    int (lock s') = int (lock s) + of_bool (in_lock (rpcs s t)) - of_bool (in_lock (rpcs s' t)) \<and>
    readers s' = readers s + of_bool (counted (rpcs s' t)) - of_bool (counted (rpcs s t)) \<and>
    (if rpcs s t \<in> {R_first, R_last}
     then 0 < writelock s \<and> rpcs s' t = (if rpcs s t = R_first then R_post1 else R_post2) \<and> writelock s' = writelock s - Suc 0
     else writelock s' = writelock s)"
  by (induction rule: rmove.induct) (simp_all add: rgoto_def point_defs)

lemma rmove_writelock:
  assumes "lock_ok c s" "t \<in> rthreads c" "rmove c t s s'"
  shows "int (writelock s') + of_bool (held c s') = int (writelock s) + of_bool (held c s)"
proof (cases "rpcs s t \<in> {R_first, R_last}")
  case True
  then have w: "0 < writelock s" "writelock s' = writelock s - Suc 0" using rmove_effect [OF assms(3)] by simp_all
  then have no: "\<not> held c s" using assms(1) by (auto simp: lock_ok_def of_bool_def split: if_splits)
  then have "rpcs s t = R_first" using True assms(2) by (auto simp: held_def holding_def)
  then have "rpcs s' t = R_post1" using rmove_effect [OF assms(3)] by simp
  then show ?thesis using no w held_upd(2) [OF assms(2) rmove_upd [OF assms(3)]] by (simp add: holding_def)
next
  case False
  then have "writelock s' = writelock s" using rmove_effect [OF assms(3)] by simp
  moreover have "held c s' = held c s" using False rmove_held [OF assms] by blast
  ultimately show ?thesis by simp
qed

lemma rmove_first_ok:
  assumes mv: "rmove c t s s'" and ok: "first_ok s"
    and unique: "\<And>u. u \<noteq> t \<Longrightarrow> in_lock (rpcs s t) \<Longrightarrow> rpcs s u \<noteq> R_first \<and> rpcs s u \<noteq> R_last"
  shows "first_ok s'"
  using mv ok unique by (induction rule: rmove.induct) (auto simp: first_ok_def rgoto_def in_lock_def)

lemma rmove_lock_ok:
  assumes ok: "lock_ok c s" "first_ok s" "t \<in> rthreads c" "mainpc s \<noteq> M_init" and mv: "rmove c t s s'"
    and created: "\<And>u. rpcs s u \<noteq> R_new \<Longrightarrow> u \<in> rthreads c"
  shows "lock_ok c s' \<and> first_ok s'"
proof -
  note cnt = reader_count [OF ok(3) rmove_upd [OF mv]]
  have unique: "rpcs s u \<noteq> R_first \<and> rpcs s u \<noteq> R_last" if "u \<noteq> t" "in_lock (rpcs s t)" for u
  proof (rule ccontr)
    assume "\<not> (rpcs s u \<noteq> R_first \<and> rpcs s u \<noteq> R_last)"
    then have u: "in_lock (rpcs s u)" "rpcs s u \<noteq> R_new" by (auto simp: in_lock_def)
    have "count_at (rthreads c) in_lock (rpcs s) \<le> 1"
      using ok(1) by (auto simp: lock_ok_def of_bool_def split: if_splits)
    then show False
      using count_at_unique [of "rthreads c" in_lock "rpcs s" t u] ok(3) that u created [of u] by blast
  qed
  have "wpcs s' = wpcs s" "mainpc s' = mainpc s" using rmove_frame [OF mv] by simp_all
  moreover have "int (lock s') = int (lock s) + of_bool (in_lock (rpcs s t)) - of_bool (in_lock (rpcs s' t))"
    "readers s' = readers s + of_bool (counted (rpcs s' t)) - of_bool (counted (rpcs s t))"
    using rmove_effect [OF mv] by blast+
  ultimately have "lock_ok c s'"
    using ok(1,4) cnt [of in_lock] cnt [of counted] rmove_writelock [OF ok(1,3) mv] by (simp add: lock_ok_def)
  then show ?thesis using rmove_first_ok [OF mv ok(2)] unique by blast
qed

lemma rmove_reader_ok:
  assumes ok: "lock_ok c s" "t \<in> rthreads c" and mv: "rmove c t s s'" and r: "\<And>u. reader_ok c s u"
  shows "reader_ok c s' u"
proof (cases "u = t")
  case False
  then have "rpcs s' u = rpcs s u" "ri s' u = ri s u"
    using rmove_upd [OF mv] rmove_frame [OF mv] by (metis fun_upd_other)+
  then show ?thesis using r [of u] rmove_held [OF ok mv] by (auto simp: reader_ok_def)
next
  case True
  have h: "held c s \<longrightarrow> held c s'" "rpcs s' t = R_post2 \<longrightarrow> held c s'" using rmove_held [OF ok mv] by blast+
  have "reader_ok c s' t"
    using mv r [of t] h
    by (induction rule: rmove.induct) (simp_all add: reader_ok_def rgoto_def max_def split: if_splits)
  then show ?thesis using True by simp
qed

section \<open>A writer moves\<close>

inductive wmove :: "rwconf \<Rightarrow> nat \<Rightarrow> rwsys \<Rightarrow> rwsys \<Rightarrow> bool" for c t s where
  wm_enter: "wpcs s t = W_for \<Longrightarrow> wi s t < loops c \<Longrightarrow> wmove c t s (wgoto t W_show s)"
| wm_leave: "wpcs s t = W_for \<Longrightarrow> \<not> wi s t < loops c \<Longrightarrow> wmove c t s (wgoto t W_done s)"
| wm_show: "wpcs s t = W_show \<Longrightarrow> wmove c t s (wgoto t W_wait (s\<lparr>printed := out\<rparr>))"
| wm_take: "wpcs s t = W_wait \<Longrightarrow> 0 < writelock s \<Longrightarrow>
    wmove c t s (wgoto t W_read (s\<lparr>writelock := writelock s - Suc 0\<rparr>))"
| wm_read: "wpcs s t = W_read \<Longrightarrow> wmove c t s (wgoto t W_write (s\<lparr>wreg := (wreg s)(t := val s)\<rparr>))"
| wm_write: "wpcs s t = W_write \<Longrightarrow> wmove c t s (wgoto t W_print (s\<lparr>val := wreg s t + 1\<rparr>))"
| wm_print: "wpcs s t = W_print \<Longrightarrow> wmove c t s (wgoto t W_post (s\<lparr>printed := out\<rparr>))"
| wm_post: "wpcs s t = W_post \<Longrightarrow> wmove c t s (wgoto t W_next (s\<lparr>writelock := Suc (writelock s)\<rparr>))"
| wm_next: "wpcs s t = W_next \<Longrightarrow> wmove c t s (wgoto t W_for (s\<lparr>wi := (wi s)(t := wi s t + 1)\<rparr>))"

lemma print_same: "s\<lparr>printed := printed s\<rparr> = s"
  by simp

lemma writer_wmove: "writer c t s = Some s' \<Longrightarrow> bad s' = None \<Longrightarrow> wmove c t s s'"
  using wm_show [of s t c "printed s"]
  by (cases "wpcs s t")
    (auto simp: writer_def rwlock_acquire_writelock_def rwlock_release_writelock_def post_writelock_def
      wait_writelock_def print_def split: if_splits intro: wmove.intros)

lemma writer_thread: "writer_ok c s t \<Longrightarrow> writer c t s = Some s' \<Longrightarrow> t \<in> wthreads c"
  by (auto simp: writer_ok_def writer_def)

lemma wmove_upd: "wmove c t s s' \<Longrightarrow> wpcs s' = (wpcs s)(t := wpcs s' t)"
  by (induction rule: wmove.induct) (simp_all add: wgoto_def)

lemma wmove_frame: "wmove c t s s' \<Longrightarrow> rpcs s' = rpcs s \<and> ri s' = ri s \<and> mainpc s' = mainpc s \<and> lock s' = lock s \<and>
    readers s' = readers s \<and> (\<forall>u. u \<noteq> t \<longrightarrow> wi s' u = wi s u \<and> wreg s' u = wreg s u) \<and>
    (wpcs s t \<noteq> W_write \<longrightarrow> val s' = val s)"
  by (induction rule: wmove.induct) (simp_all add: wgoto_def)

lemma wmove_effect: "wmove c t s s' \<Longrightarrow>
    int (writelock s') = int (writelock s) + of_bool (writing (wpcs s t)) - of_bool (writing (wpcs s' t)) \<and>
    ((wpcs s t = W_write \<longrightarrow> wreg s t = val s) \<longrightarrow> val s' - val s = increments s' t - increments s t)"
  by (induction rule: wmove.induct) (simp_all add: wgoto_def point_defs increments_def)

lemma wmove_lock_ok:
  assumes "lock_ok c s" "first_ok s" "t \<in> wthreads c" "wmove c t s s'"
  shows "lock_ok c s' \<and> first_ok s' \<and> held c s' = held c s"
proof -
  have "int (count_at (wthreads c) writing (wpcs s')) =
      int (count_at (wthreads c) writing (wpcs s)) + of_bool (writing (wpcs s' t)) - of_bool (writing (wpcs s t))"
    using count_at_upd [of "wthreads c" t writing "wpcs s" "wpcs s' t"] assms(3) wmove_upd [OF assms(4)] by simp
  moreover have "held c s' = held c s" using wmove_frame [OF assms(4)] by (simp add: held_def)
  ultimately show ?thesis
    using assms(1,2) wmove_frame [OF assms(4)] wmove_effect [OF assms(4)] by (simp add: lock_ok_def first_ok_def)
qed

lemma writing_unique:
  assumes "lock_ok c s" "t \<in> wthreads c" "u \<in> wthreads c" "writing (wpcs s t)" "writing (wpcs s u)"
  shows "t = u"
proof -
  have "count_at (wthreads c) writing (wpcs s) \<le> 1"
    using assms(1) by (auto simp: lock_ok_def of_bool_def split: if_splits)
  then show ?thesis using count_at_unique [of "wthreads c" writing "wpcs s" t u] assms(2-) by simp
qed

lemma wmove_writer_ok:
  assumes ok: "lock_ok c s" "t \<in> wthreads c" and mv: "wmove c t s s'" and w: "\<And>u. writer_ok c s u"
  shows "writer_ok c s' u"
proof (cases "u = t")
  case False
  then have "wpcs s' u = wpcs s u" "wi s' u = wi s u" "wreg s' u = wreg s u"
    using wmove_upd [OF mv] wmove_frame [OF mv] by (metis fun_upd_other)+
  moreover have "val s' = val s" if "wpcs s u = W_write"
  proof -
    have "u \<in> wthreads c" using w [of u] that by (simp add: writer_ok_def)
    then have "\<not> writing (wpcs s t)" using writing_unique [OF ok(1,2)] that False by (auto simp: writing_def)
    then show ?thesis using wmove_frame [OF mv] by (auto simp: writing_def)
  qed
  ultimately show ?thesis using w [of u] by (auto simp: writer_ok_def)
next
  case True
  have "writer_ok c s' t"
    using mv w [of t] by (induction rule: wmove.induct) (simp_all add: writer_ok_def wgoto_def max_def split: if_splits)
  then show ?thesis using True by simp
qed

lemma wmove_sum:
  assumes mv: "wmove c t s s'" and t: "t \<in> wthreads c" and w: "writer_ok c s t"
    and v: "val s = (\<Sum>u\<in>wthreads c. increments s u)"
  shows "val s' = (\<Sum>u\<in>wthreads c. increments s' u)"
proof -
  have "increments s' u = increments s u" if "u \<noteq> t" for u
  proof -
    have "wpcs s' u = wpcs s u" "wi s' u = wi s u"
      using wmove_upd [OF mv] wmove_frame [OF mv] that by (metis fun_upd_other)+
    then show ?thesis by (simp add: increments_def)
  qed
  then have "(\<Sum>u\<in>wthreads c. increments s' u) = (\<Sum>u\<in>wthreads c. increments s u) + (increments s' t - increments s t)"
    using t by (intro sum_change) simp_all
  moreover have "val s' - val s = increments s' t - increments s t"
    using wmove_effect [OF mv] w by (simp add: writer_ok_def)
  ultimately show ?thesis using v by simp
qed

section \<open>The invariant holds\<close>

lemma invar_reader:
  assumes inv: "rw_invar c s" "bad s = None" and r: "reader c t s = Some s'"
  shows "rw_invar c s'"
proof (cases "bad s'")
  case None
  have mv: "rmove c t s s'" using reader_rmove [OF r None] .
  have ok: "lock_ok c s" "first_ok s" "\<And>u. reader_ok c s u" "\<And>u. writer_ok c s u" "main_ok c s"
    "val s = (\<Sum>u\<in>wthreads c. increments s u)"
    using inv by (simp_all add: rw_invar_def)
  have t: "t \<in> rthreads c" using reader_thread [OF ok(3) r] .
  have pt: "rpcs s t \<noteq> R_new" "rpcs s t \<noteq> R_done" "rpcs s' t \<noteq> R_new" using mv by (induction rule: rmove.induct) (simp_all add: rgoto_def)
  have new: "rpcs s' u = R_new \<longleftrightarrow> rpcs s u = R_new" "rpcs s u = R_done \<Longrightarrow> rpcs s' u = R_done" for u
    using rmove_upd [OF mv] pt by (metis fun_upd_apply)+
  have main: "mainpc s \<noteq> M_init" using ok(5) pt by (auto simp: main_ok_def)
  note frame = rmove_frame [OF mv]
  have "lock_ok c s' \<and> first_ok s'"
    using rmove_lock_ok [OF ok(1,2) t main mv] ok(3) by (simp add: reader_ok_def)
  moreover have "reader_ok c s' u" for u using rmove_reader_ok [OF ok(1) t mv ok(3)] .
  moreover have "writer_ok c s' u" for u using ok(4) [of u] frame by (simp add: writer_ok_def)
  moreover have "main_ok c s'" using ok(5) frame new by (cases "mainpc s") (simp_all add: main_ok_def)
  moreover have "val s' = (\<Sum>u\<in>wthreads c. increments s' u)" using ok(6) frame by (simp add: increments_def)
  ultimately show ?thesis by (simp add: rw_invar_def)
qed (simp add: rw_invar_def)

lemma invar_writer:
  assumes inv: "rw_invar c s" "bad s = None" and w: "writer c t s = Some s'"
  shows "rw_invar c s'"
proof (cases "bad s'")
  case None
  have mv: "wmove c t s s'" using writer_wmove [OF w None] .
  have ok: "lock_ok c s" "first_ok s" "\<And>u. reader_ok c s u" "\<And>u. writer_ok c s u" "main_ok c s"
    "val s = (\<Sum>u\<in>wthreads c. increments s u)"
    using inv by (simp_all add: rw_invar_def)
  have t: "t \<in> wthreads c" using writer_thread [OF ok(4) w] .
  have pt: "wpcs s t \<noteq> W_new" "wpcs s t \<noteq> W_done" "wpcs s' t \<noteq> W_new" using mv by (induction rule: wmove.induct) (simp_all add: wgoto_def)
  have new: "wpcs s' u = W_new \<longleftrightarrow> wpcs s u = W_new" "wpcs s u = W_done \<Longrightarrow> wpcs s' u = W_done" for u
    using wmove_upd [OF mv] pt by (metis fun_upd_apply)+
  note frame = wmove_frame [OF mv]
  have lk: "lock_ok c s' \<and> first_ok s' \<and> held c s' = held c s" using wmove_lock_ok [OF ok(1,2) t mv] .
  moreover have "reader_ok c s' u" for u using ok(3) [of u] frame lk by (simp add: reader_ok_def)
  moreover have "writer_ok c s' u" for u using wmove_writer_ok [OF ok(1) t mv ok(4)] .
  moreover have "main_ok c s'" using ok(5) frame new pt by (cases "mainpc s") (auto simp: main_ok_def)
  moreover have "val s' = (\<Sum>u\<in>wthreads c. increments s' u)" using wmove_sum [OF mv t ok(4,6)] .
  ultimately show ?thesis by (simp add: rw_invar_def)
qed (simp add: rw_invar_def)

text \<open>The steps of \<open>main\<close> that create no thread leave the threads alone.\<close>

lemma invar_other:
  assumes "rw_invar c s" "bad s = None" "mainpc s \<noteq> M_init" "m \<noteq> M_init" "main_ok c (s\<lparr>mainpc := m\<rparr>)"
  shows "rw_invar c (s\<lparr>printed := out, mainpc := m\<rparr>)"
proof -
  let ?s' = "s\<lparr>printed := out, mainpc := m\<rparr>"
  have h: "held c ?s' = held c s" by (simp add: held_def)
  have "lock_ok c ?s' = lock_ok c s" using assms(3,4) h by (simp add: lock_ok_def)
  moreover have "first_ok ?s' = first_ok s" by (simp add: first_ok_def)
  moreover have "reader_ok c ?s' u = reader_ok c s u" "writer_ok c ?s' u = writer_ok c s u" for u
    using h by (simp_all add: reader_ok_def writer_ok_def)
  moreover have "main_ok c ?s' = main_ok c (s\<lparr>mainpc := m\<rparr>)" by (simp add: main_ok_def cong: mpc.case_cong)
  moreover have "increments ?s' = increments s" by (simp add: increments_def fun_eq_iff)
  ultimately show ?thesis using assms(1,2,5) by (simp add: rw_invar_def)
qed

lemma main_other:
  assumes "main_step c s = Some s'" "main_ok c s" "mainpc s \<noteq> M_init"
    "\<And>i. mainpc s = M_create_r i \<Longrightarrow> \<not> int i < num_readers c" "\<And>i. mainpc s = M_create_w i \<Longrightarrow> \<not> int i < num_writers c"
  obtains out m where "s' = s\<lparr>printed := out, mainpc := m\<rparr>" "m \<noteq> M_init" "main_ok c (s\<lparr>mainpc := m\<rparr>)"
proof -
  have "s' = s\<lparr>printed := printed s', mainpc := mainpc s'\<rparr> \<and> mainpc s' \<noteq> M_init \<and> main_ok c (s\<lparr>mainpc := mainpc s'\<rparr>)"
    using assms by (cases "mainpc s") (auto simp: main_step_def main_ok_def print_def less_Suc_eq split: if_splits)
  then show ?thesis using that by blast
qed

lemma no_threads:
  assumes "\<And>t. rpcs s t = R_new" "\<And>t. wpcs s t = W_new"
  shows "count_at T in_lock (rpcs s) = 0" "count_at T counted (rpcs s) = 0" "count_at T writing (wpcs s) = 0" "\<not> held c s"
proof -
  show "count_at T in_lock (rpcs s) = 0" "count_at T counted (rpcs s) = 0"
    by (rule count_at_zero, simp add: assms point_defs)+
  show "count_at T writing (wpcs s) = 0" by (rule count_at_zero) (simp add: assms point_defs)
  show "\<not> held c s" by (simp add: held_def assms point_defs)
qed

lemma invar_create_r:
  assumes inv: "rw_invar c s" "bad s = None" and m: "mainpc s = M_create_r i" "int i < num_readers c"
  shows "rw_invar c (rgoto i R_for (s\<lparr>mainpc := M_create_r (i + 1)\<rparr>))" (is "rw_invar c ?s'")
proof -
  have ok: "lock_ok c s" "first_ok s" "\<And>u. reader_ok c s u" "\<And>u. writer_ok c s u" "main_ok c s"
    "val s = (\<Sum>u\<in>wthreads c. increments s u)"
    using inv by (simp_all add: rw_invar_def)
  have i: "i \<in> rthreads c" "rpcs s i = R_new" using m ok(5) by (auto simp: main_ok_def)
  have upd: "rpcs ?s' = (rpcs s)(i := R_for)" by (simp add: rgoto_def)
  have h: "held c ?s' = held c s" using held_upd(1) [OF i(1) upd] i(2) by (simp add: holding_def)
  have "lock_ok c ?s'"
    using ok(1) h reader_count [OF i(1) upd, of in_lock] reader_count [OF i(1) upd, of counted] i(2) m
    by (simp add: lock_ok_def rgoto_def point_defs)
  moreover have "first_ok ?s'" using ok(2) by (auto simp: first_ok_def rgoto_def)
  moreover have "reader_ok c ?s' u" for u using ok(3) [of u] h i by (auto simp: reader_ok_def rgoto_def)
  moreover have "writer_ok c ?s' u" for u using ok(4) [of u] by (simp add: writer_ok_def rgoto_def)
  moreover have "main_ok c ?s'" using ok(5) m i by (auto simp: main_ok_def rgoto_def less_Suc_eq)
  moreover have "val ?s' = (\<Sum>u\<in>wthreads c. increments ?s' u)" using ok(6) by (simp add: rgoto_def increments_def)
  ultimately show ?thesis by (simp add: rw_invar_def)
qed

lemma invar_create_w:
  assumes inv: "rw_invar c s" "bad s = None" and m: "mainpc s = M_create_w i" "int i < num_writers c"
  shows "rw_invar c (wgoto i W_for (s\<lparr>mainpc := M_create_w (i + 1)\<rparr>))" (is "rw_invar c ?s'")
proof -
  have ok: "lock_ok c s" "first_ok s" "\<And>u. reader_ok c s u" "\<And>u. writer_ok c s u" "main_ok c s"
    "val s = (\<Sum>u\<in>wthreads c. increments s u)"
    using inv by (simp_all add: rw_invar_def)
  have i: "i \<in> wthreads c" "wpcs s i = W_new" using m ok(5) by (auto simp: main_ok_def)
  have h: "held c ?s' = held c s" by (simp add: held_def wgoto_def)
  have "lock_ok c ?s'"
    using ok(1) h count_at_upd [of "wthreads c" i writing "wpcs s" W_for] i m
    by (simp add: lock_ok_def wgoto_def point_defs)
  moreover have "first_ok ?s'" using ok(2) by (simp add: first_ok_def wgoto_def)
  moreover have "reader_ok c ?s' u" for u using ok(3) [of u] h by (simp add: reader_ok_def wgoto_def)
  moreover have "writer_ok c ?s' u" for u using ok(4) [of u] i by (auto simp: writer_ok_def wgoto_def)
  moreover have "main_ok c ?s'" using ok(5) m i by (auto simp: main_ok_def wgoto_def less_Suc_eq)
  moreover have "increments ?s' u = increments s u" for u
    using i(2) by (simp add: wgoto_def increments_def written_def)
  ultimately show ?thesis using ok(6) by (simp add: rw_invar_def wgoto_def)
qed

lemma invar_init:
  assumes inv: "rw_invar c s" "bad s = None" and m: "mainpc s = M_init"
  shows "rw_invar c ((rwlock_init s)\<lparr>mainpc := M_begin\<rparr>)" (is "rw_invar c ?s'")
proof -
  have ok: "lock_ok c s" "main_ok c s" using inv by (simp_all add: rw_invar_def)
  have new: "\<And>t. rpcs s t = R_new" "\<And>t. wpcs s t = W_new" using m ok(2) by (simp_all add: main_ok_def)
  have fr: "rpcs ?s' = rpcs s" "wpcs ?s' = wpcs s" "ri ?s' = ri s" "wi ?s' = wi s" "val ?s' = val s"
    by (simp_all add: rwlock_init_def)
  have "held c ?s' = held c s" by (simp add: held_def fr)
  then show ?thesis
    using inv no_threads [OF new] new fr
    by (simp add: rw_invar_def lock_ok_def first_ok_def reader_ok_def writer_ok_def main_ok_def increments_def rwlock_init_def)
qed

lemma invar_main:
  assumes inv: "rw_invar c s" "bad s = None" and m: "main_step c s = Some s'"
  shows "rw_invar c s'"
proof (cases "mainpc s = M_init \<or> (\<exists>i. mainpc s = M_create_r i \<and> int i < num_readers c) \<or>
    (\<exists>i. mainpc s = M_create_w i \<and> int i < num_writers c)")
  case True
  then show ?thesis
    using invar_init [OF inv] invar_create_r [OF inv] invar_create_w [OF inv] m by (auto simp: main_step_def)
next
  case False
  moreover have "main_ok c s" using inv by (simp add: rw_invar_def)
  ultimately obtain out m where "s' = s\<lparr>printed := out, mainpc := m\<rparr>" "m \<noteq> M_init" "main_ok c (s\<lparr>mainpc := m\<rparr>)"
    using main_other [OF m] by blast
  then show ?thesis using invar_other [OF inv] False by blast
qed

lemma rw_invar_start: "rw_start s \<Longrightarrow> rw_invar c s"
  using no_threads [of rw_initial]
  by (simp add: rw_start_def rw_initial_def rw_invar_def lock_ok_def first_ok_def reader_ok_def writer_ok_def main_ok_def
      increments_def written_def)

lemma rw_invar_step: "rw_invar c s \<Longrightarrow> rw_step c a s = Some s' \<Longrightarrow> rw_invar c s'"
proof -
  assume inv: "rw_invar c s" and st: "rw_step c a s = Some s'"
  have ok: "bad s = None" using st by (simp add: rw_step_def split: if_splits)
  show ?thesis
  proof (cases a)
    case Main
    then show ?thesis using invar_main [OF inv ok, of s'] st ok by (simp add: rw_step_def)
  next
    case (Reader t)
    then show ?thesis using invar_reader [OF inv ok, of t s'] st ok by (simp add: rw_step_def)
  next
    case (Writer t)
    then show ?thesis using invar_writer [OF inv ok, of t s'] st ok by (simp add: rw_step_def)
  qed
qed

section \<open>Runs end\<close>

fun rrank :: "rpc \<Rightarrow> nat" where
  "rrank R_new = 14" | "rrank R_for = 13" | "rrank R_wait1 = 12" | "rrank R_inc = 11" | "rrank R_test1 = 10"
| "rrank R_first = 9" | "rrank R_post1 = 8" | "rrank R_read = 7" | "rrank R_wait2 = 6" | "rrank R_dec = 5"
| "rrank R_test2 = 4" | "rrank R_last = 3" | "rrank R_post2 = 2" | "rrank R_next = 1" | "rrank R_done = 0"

fun wrank :: "wpc \<Rightarrow> nat" where
  "wrank W_new = 10" | "wrank W_for = 9" | "wrank W_show = 8" | "wrank W_wait = 7" | "wrank W_read = 6"
| "wrank W_write = 5" | "wrank W_print = 4" | "wrank W_post = 3" | "wrank W_next = 1" | "wrank W_done = 0"

definition mrank :: "rwconf \<Rightarrow> mpc \<Rightarrow> nat" where
  "mrank c m = (let r = nat (num_readers c); w = nat (num_writers c) in case m of
       M_init \<Rightarrow> 7 + 2 * w + 2 * r | M_begin \<Rightarrow> 6 + 2 * w + 2 * r
     | M_create_r i \<Rightarrow> 5 + 2 * w + r + (r - i) | M_create_w i \<Rightarrow> 4 + w + r + (w - i)
     | M_join_r i \<Rightarrow> 3 + w + (r - i) | M_join_w i \<Rightarrow> 2 + (w - i) | M_end \<Rightarrow> 1 | M_exit \<Rightarrow> 0)"

definition reader_rank :: "rwconf \<Rightarrow> rwsys \<Rightarrow> nat \<Rightarrow> nat" where
  "reader_rank c s t = nat (max 0 (loops c) - ri s t) * 14 + rrank (rpcs s t)"

definition writer_rank :: "rwconf \<Rightarrow> rwsys \<Rightarrow> nat \<Rightarrow> nat" where
  "writer_rank c s t = nat (max 0 (loops c) - wi s t) * 10 + wrank (wpcs s t)"

definition rw_rank :: "rwconf \<Rightarrow> rwsys \<Rightarrow> nat" where
  "rw_rank c s =
     (if bad s \<noteq> None then 0
      else 1 + mrank c (mainpc s) + (\<Sum>t\<in>rthreads c. reader_rank c s t) + (\<Sum>t\<in>wthreads c. writer_rank c s t))"

lemma round_rank: "i < n \<Longrightarrow> 0 \<le> i \<Longrightarrow> nat (max 0 n - i) = Suc (nat (max 0 n - (i + 1)))"
  by simp

lemma rmove_rank:
  assumes mv: "rmove c t s s'" and r: "reader_ok c s t"
  shows "reader_rank c s' t < reader_rank c s t"
  using mv r
proof (induction rule: rmove.induct)
  case rm_next
  then have "nat (max 0 (loops c) - ri s t) = Suc (nat (max 0 (loops c) - (ri s t + 1)))"
    by (intro round_rank) (simp_all add: reader_ok_def)
  then show ?case using rm_next by (simp add: reader_rank_def rgoto_def)
qed (simp_all add: reader_rank_def rgoto_def)

lemma wmove_rank:
  assumes mv: "wmove c t s s'" and w: "writer_ok c s t"
  shows "writer_rank c s' t < writer_rank c s t"
  using mv w
proof (induction rule: wmove.induct)
  case wm_next
  then have "nat (max 0 (loops c) - wi s t) = Suc (nat (max 0 (loops c) - (wi s t + 1)))"
    by (intro round_rank) (simp_all add: writer_ok_def)
  then show ?case using wm_next by (simp add: writer_rank_def wgoto_def)
qed (simp_all add: writer_rank_def wgoto_def)

lemma rank_reader:
  assumes inv: "rw_invar c s" "bad s = None" and r: "reader c t s = Some s'"
  shows "rw_rank c s' < rw_rank c s"
proof (cases "bad s'")
  case None
  have mv: "rmove c t s s'" using reader_rmove [OF r None] .
  have ok: "reader_ok c s t" using inv by (simp add: rw_invar_def)
  have "reader_rank c s' u = reader_rank c s u" if "u \<noteq> t" for u
    using rmove_upd [OF mv] rmove_frame [OF mv] that by (metis reader_rank_def fun_upd_other)
  then have "(\<Sum>u\<in>rthreads c. reader_rank c s' u) < (\<Sum>u\<in>rthreads c. reader_rank c s u)"
    using reader_thread [OF ok r] rmove_rank [OF mv ok] by (intro sum_less) simp_all
  moreover have "writer_rank c s' = writer_rank c s" using rmove_frame [OF mv] by (simp add: writer_rank_def fun_eq_iff)
  ultimately show ?thesis using None inv(2) rmove_frame [OF mv] by (simp add: rw_rank_def)
qed (use inv(2) in \<open>simp add: rw_rank_def\<close>)

lemma rank_writer:
  assumes inv: "rw_invar c s" "bad s = None" and w: "writer c t s = Some s'"
  shows "rw_rank c s' < rw_rank c s"
proof (cases "bad s'")
  case None
  have mv: "wmove c t s s'" using writer_wmove [OF w None] .
  have ok: "writer_ok c s t" using inv by (simp add: rw_invar_def)
  have "writer_rank c s' u = writer_rank c s u" if "u \<noteq> t" for u
    using wmove_upd [OF mv] wmove_frame [OF mv] that by (metis writer_rank_def fun_upd_other)
  then have "(\<Sum>u\<in>wthreads c. writer_rank c s' u) < (\<Sum>u\<in>wthreads c. writer_rank c s u)"
    using writer_thread [OF ok w] wmove_rank [OF mv ok] by (intro sum_less) simp_all
  moreover have "reader_rank c s' = reader_rank c s" using wmove_frame [OF mv] by (simp add: reader_rank_def fun_eq_iff)
  ultimately show ?thesis using None inv(2) wmove_frame [OF mv] by (simp add: rw_rank_def)
qed (use inv(2) in \<open>simp add: rw_rank_def\<close>)

lemma rw_rank_main:
  assumes inv: "rw_invar c s" "bad s = None" and m: "main_step c s = Some s'"
  shows "rw_rank c s' < rw_rank c s"
proof -
  have mok: "main_ok c s" using inv by (simp add: rw_invar_def)
  have "reader_rank c s' u \<le> reader_rank c s u \<and> writer_rank c s' u \<le> writer_rank c s u" for u
    using m mok
    by (cases "mainpc s")
      (auto simp: main_step_def main_ok_def reader_rank_def writer_rank_def rgoto_def wgoto_def rwlock_init_def print_def
        split: if_splits)
  then have "(\<Sum>u\<in>rthreads c. reader_rank c s' u) \<le> (\<Sum>u\<in>rthreads c. reader_rank c s u)"
    "(\<Sum>u\<in>wthreads c. writer_rank c s' u) \<le> (\<Sum>u\<in>wthreads c. writer_rank c s u)"
    by (intro sum_mono; simp)+
  moreover have "mrank c (mainpc s') < mrank c (mainpc s) \<and> bad s' = None"
    using m inv(2)
    by (cases "mainpc s")
      (auto simp: main_step_def mrank_def Let_def rgoto_def wgoto_def rwlock_init_def print_def split: if_splits)
  ultimately show ?thesis using inv(2) by (simp add: rw_rank_def)
qed

lemma rw_rank_step: "rw_invar c s \<Longrightarrow> rw_step c a s = Some s' \<Longrightarrow> rw_rank c s' < rw_rank c s"
  using rw_rank_main [of c s s'] rank_reader [of c s _ s'] rank_writer [of c s _ s']
  by (cases a) (simp_all add: rw_step_def split: if_splits)

interpretation rw: terminating_program "rw_step c" rw_start "rw_invar c" "\<lambda>_. True" "stuck c" "rw_rank c" for c
proof
  show "rw_start s \<Longrightarrow> rw_invar c s" for s by (rule rw_invar_start)
  show "rw_invar c s \<Longrightarrow> rw_step c a s = Some s' \<Longrightarrow> rw_invar c s'" for s a s' by (rule rw_invar_step)
  show "\<not> stuck c s \<Longrightarrow> \<exists>a s'. True \<and> rw_step c a s = Some s'" for s by (auto simp: stuck_def)
  show "rw_invar c s \<Longrightarrow> rw_step c a s = Some s' \<Longrightarrow> rw_rank c s' < rw_rank c s" for s a s' by (rule rw_rank_step)
qed

section \<open>No fault\<close>

definition in_range :: "rwconf \<Rightarrow> bool" where
  "in_range c \<longleftrightarrow> num_readers c < 2 ^ 31 \<and> num_writers c * loops c < 2 ^ 31"

lemma reader_no_fault:
  assumes inv: "rw_invar c s" "bad s = None" and r: "reader c t s = Some s'" and rng: "in_range c"
  shows "bad s' = None"
proof -
  have ok: "lock_ok c s" "reader_ok c s t" using inv by (simp_all add: rw_invar_def)
  have t: "t \<in> rthreads c" using reader_thread [OF ok(2) r] .
  have n: "readers s = int (count_at (rthreads c) counted (rpcs s))" using ok(1) by (simp add: lock_ok_def)
  have "int_ok (readers s + 1)" if "rpcs s t = R_inc"
  proof -
    have "count_at (rthreads c) counted (rpcs s) < nat (num_readers c)"
      using count_at_less [of "rthreads c" t counted "rpcs s"] t that by (simp add: counted_def)
    then show ?thesis using n rng by (auto simp: int_ok_def in_range_def)
  qed
  moreover have "int_ok (readers s + - 1)" if "rpcs s t = R_dec"
  proof -
    have "count_at (rthreads c) counted (rpcs s) \<le> nat (num_readers c)"
      using count_at_le [of "rthreads c" counted "rpcs s"] by simp
    then show ?thesis using n rng by (auto simp: int_ok_def in_range_def)
  qed
  ultimately show ?thesis
    using r inv(2)
    by (cases "rpcs s t")
      (auto simp: reader_def rwlock_acquire_readlock_def rwlock_release_readlock_def rw_defs split: if_splits)
qed

lemma increments_le: "writer_ok c s u \<Longrightarrow> increments s u \<le> max 0 (loops c)"
  by (auto simp: writer_ok_def increments_def written_def)

lemma writer_no_fault:
  assumes inv: "rw_invar c s" "bad s = None" and w: "writer c t s = Some s'" and rng: "in_range c"
  shows "bad s' = None"
proof -
  have ok: "writer_ok c s u" for u using inv by (simp add: rw_invar_def)
  have v: "val s = (\<Sum>u\<in>wthreads c. increments s u)" using inv by (simp add: rw_invar_def)
  have t: "t \<in> wthreads c" using writer_thread [OF ok w] .
  have "int_ok (wreg s t + 1)" if "wpcs s t = W_write"
  proof -
    have l: "increments s t < loops c" "wreg s t = val s" "0 < loops c"
      using ok [of t] that by (auto simp: writer_ok_def increments_def written_def)
    have nw: "0 \<le> num_writers c" using t by auto
    have "val s < (\<Sum>u\<in>wthreads c. loops c)"
      unfolding v
    proof (rule sum_strict_mono_ex1)
      show "\<forall>u\<in>wthreads c. increments s u \<le> loops c" using increments_le [OF ok] l(3) by (metis max.absorb2 less_imp_le)
    qed (use t l in auto)
    moreover have "(\<Sum>u\<in>wthreads c. loops c) = num_writers c * loops c" using nw by simp
    moreover have "0 \<le> val s" unfolding v by (rule sum_nonneg) (use ok in \<open>simp add: writer_ok_def increments_def\<close>)
    ultimately show ?thesis using rng l(2) unfolding int_ok_def in_range_def by linarith
  qed
  then show ?thesis
    using w inv(2)
    by (cases "wpcs s t")
      (auto simp: writer_def rwlock_acquire_writelock_def rwlock_release_writelock_def rw_defs split: if_splits)
qed

lemma no_fault:
  assumes "reach (rw_step c) rw_start s" "in_range c"
  shows "bad s = None"
  using assms(1)
proof induction
  case (reach_start s)
  then show ?case by (simp add: rw_start_def rw_initial_def)
next
  case (reach_step s a s')
  have inv: "rw_invar c s" using rw.invar_reach [OF reach_step.hyps(1)] .
  show ?case
  proof (cases a)
    case Main
    then have "main_step c s = Some s'" using reach_step by (simp add: rw_step_def)
    then show ?thesis using reach_step.IH
      by (cases "mainpc s") (auto simp: main_step_def rw_defs rwlock_init_def split: if_splits)
  next
    case (Reader t)
    then show ?thesis using reader_no_fault [OF inv reach_step.IH _ assms(2)] reach_step by (simp add: rw_step_def)
  next
    case (Writer t)
    then show ?thesis using writer_no_fault [OF inv reach_step.IH _ assms(2)] reach_step by (simp add: rw_step_def)
  qed
qed

section \<open>The last reader\<close>

lemma not_all_done:
  assumes inv: "rw_invar c s" "bad s = None" and pos: "0 < num_readers c" "0 < loops c"
  shows "\<exists>t\<in>rthreads c. rpcs s t \<noteq> R_done"
proof (rule ccontr)
  assume "\<not> ?thesis"
  then have all: "\<And>t. t \<in> rthreads c \<Longrightarrow> rpcs s t = R_done" by blast
  have zero: "0 \<in> rthreads c" using pos by simp
  have "reader_ok c s 0" using inv by (simp add: rw_invar_def)
  then have "held c s" using all [OF zero] pos by (simp add: reader_ok_def)
  then show False using all by (auto simp: held_def holding_def)
qed

lemma stuck_main:
  assumes "stuck c s" "bad s = None" "rw_invar c s"
  shows "returned s \<or> (\<forall>t\<in>rthreads c. rpcs s t \<noteq> R_new) \<and> (\<forall>t\<in>wthreads c. wpcs s t \<noteq> W_new)"
proof -
  have "rw_step c Main s = None" using assms(1) by (simp add: stuck_def)
  moreover have "main_ok c s" using assms by (simp add: rw_invar_def)
  ultimately show ?thesis
    using assms(2)
    by (cases "mainpc s") (auto simp: rw_step_def main_step_def main_ok_def returned_def split: if_splits)
qed

lemma stuck_reader:
  assumes "stuck c s" "bad s = None"
  shows "rpcs s t \<in> {R_new, R_done, R_last} \<or> rpcs s t = R_first \<and> writelock s = 0 \<or> rpcs s t \<in> {R_wait1, R_wait2} \<and> lock s = 0"
proof -
  have "rw_step c (Reader t) s = None" using assms(1) by (simp add: stuck_def)
  then show ?thesis
    using assms(2)
    by (cases "rpcs s t")
      (simp_all add: rw_step_def reader_def rwlock_acquire_readlock_def rwlock_release_readlock_def wait_lock_def
        wait_writelock_def split: if_splits)
qed

lemma stuck_writer:
  assumes "stuck c s" "bad s = None"
  shows "wpcs s t \<in> {W_new, W_done} \<or> wpcs s t = W_wait \<and> writelock s = 0"
proof -
  have "rw_step c (Writer t) s = None" using assms(1) by (simp add: stuck_def)
  then show ?thesis
    using assms(2)
    by (cases "wpcs s t")
      (simp_all add: rw_step_def writer_def rwlock_acquire_writelock_def rwlock_release_writelock_def wait_writelock_def
        split: if_splits)
qed

lemma stuck_has_last:
  assumes inv: "rw_invar c s" "bad s = None" and pos: "0 < num_readers c" "0 < loops c" and st: "stuck c s"
  shows "\<exists>t\<in>rthreads c. rpcs s t = R_last"
proof (rule ccontr)
  assume "\<not> ?thesis"
  then have no: "\<And>t. t \<in> rthreads c \<Longrightarrow> rpcs s t \<noteq> R_last" by blast
  have ok: "lock_ok c s" "first_ok s" "\<And>u. reader_ok c s u" "main_ok c s" using inv by (simp_all add: rw_invar_def)
  obtain t0 where t0: "t0 \<in> rthreads c" "rpcs s t0 \<noteq> R_done" using not_all_done [OF inv pos] by blast
  have "\<not> returned s" using ok(4) t0 by (auto simp: main_ok_def returned_def)
  then have created: "\<And>t. t \<in> rthreads c \<Longrightarrow> rpcs s t \<noteq> R_new" and main: "mainpc s \<noteq> M_init"
    using stuck_main [OF st inv(2,1)] ok(4) t0 by (auto simp: main_ok_def)
  have first: "rpcs s t \<noteq> R_first" if "t \<in> rthreads c" for t
  proof
    assume f: "rpcs s t = R_first"
    then have one: "readers s = 1" "writelock s = 0" using ok(2) stuck_reader [OF st inv(2), of t] by (auto simp: first_ok_def)
    have "count_at (wthreads c) writing (wpcs s) = 0"
    proof (rule count_at_zero)
      show "\<not> writing (wpcs s u)" for u using stuck_writer [OF st inv(2), of u] by (auto simp: writing_def)
    qed
    then have "held c s" using ok(1) one main by (auto simp: lock_ok_def of_bool_def split: if_splits)
    then obtain u where u: "u \<in> rthreads c" "holding (rpcs s u)" by (auto simp: held_def)
    then have "rpcs s u = R_wait2" using stuck_reader [OF st inv(2), of u] no [of u] by (auto simp: holding_def)
    then have "counted (rpcs s u)" "counted (rpcs s t)" "t \<noteq> u" using f by (auto simp: counted_def)
    moreover have "count_at (rthreads c) counted (rpcs s) \<le> 1" using ok(1) one by (simp add: lock_ok_def)
    ultimately show False using count_at_unique [of "rthreads c" counted "rpcs s" t u] u that by blast
  qed
  have "lock s = 1"
  proof -
    have "count_at (rthreads c) in_lock (rpcs s) = 0"
    proof (rule count_at_zero)
      show "\<not> in_lock (rpcs s u)" if "u \<in> rthreads c" for u
        using stuck_reader [OF st inv(2), of u] no [OF that] first [OF that] by (auto simp: in_lock_def)
    qed
    then show ?thesis using ok(1) main by (simp add: lock_ok_def)
  qed
  then have "rpcs s t0 = R_done"
    using stuck_reader [OF st inv(2), of t0] no [OF t0(1)] first [OF t0(1)] created [OF t0(1)] by auto
  then show False using t0(2) by simp
qed

lemma last_reader_state:
  assumes inv: "rw_invar c s" "bad s = None" and t: "t \<in> rthreads c" "rpcs s t = R_last"
  shows "lock s = 0 \<and> writelock s = 0 \<and> readers s = 0"
proof -
  have ok: "lock_ok c s" "first_ok s" using inv by (simp_all add: rw_invar_def)
  have "0 < count_at (rthreads c) in_lock (rpcs s)"
    using count_at_pos [of "rthreads c" t in_lock "rpcs s"] t by (simp add: in_lock_def)
  moreover have "held c s" using t by (auto simp: held_def holding_def)
  ultimately show ?thesis using ok t(2) by (auto simp: lock_ok_def first_ok_def of_bool_def split: if_splits)
qed

lemma stuck_without_rounds:
  assumes inv: "rw_invar c s" "bad s = None" and none: "loops c \<le> 0" and st: "stuck c s"
  shows "returned s \<and> val s = 0"
proof -
  have ok: "\<And>u. reader_ok c s u" "\<And>u. writer_ok c s u" "main_ok c s" "val s = (\<Sum>u\<in>wthreads c. increments s u)"
    using inv by (simp_all add: rw_invar_def)
  have r: "rpcs s t \<in> {R_new, R_done}" for t
    using ok(1) [of t] stuck_reader [OF st inv(2), of t] none by (auto simp: reader_ok_def)
  have w: "wpcs s t \<in> {W_new, W_done}" for t
    using ok(2) [of t] stuck_writer [OF st inv(2), of t] none by (auto simp: writer_ok_def)
  have "returned s"
  proof (rule ccontr)
    assume n: "\<not> returned s"
    then have all: "\<And>t. t \<in> rthreads c \<Longrightarrow> rpcs s t = R_done" "\<And>t. t \<in> wthreads c \<Longrightarrow> wpcs s t = W_done"
      using stuck_main [OF st inv(2,1)] r w by blast+
    moreover have "rw_step c Main s = None" using st by (simp add: stuck_def)
    ultimately show False
      using n inv(2) by (cases "mainpc s") (auto simp: rw_step_def main_step_def returned_def split: if_splits)
  qed
  moreover have "increments s u = 0" for u
    using w [of u] ok(2) [of u] none by (auto simp: increments_def writer_ok_def written_def)
  ultimately show ?thesis using ok(4) by simp
qed

section \<open>The arguments\<close>

lemma atoi_arg_int: "atoi_arg x = Inr v \<Longrightarrow> int_ok v"
  by (simp add: atoi_arg_def atoi_def Let_def split: if_splits)

lemma rw_setup_range:
  assumes "rw_setup nostarve argv = Inr c"
  shows "0 < num_readers c \<and> 0 < num_writers c \<and> num_readers c < 2 ^ 31 \<and> announce c = nostarve"
proof -
  obtain r w l where "atoi_arg (argv ! 1) = Inr r" "0 < r" "0 < w"
      "c = \<lparr>num_readers = r, num_writers = w, loops = l, announce = nostarve\<rparr>"
    using assms by (auto simp: rw_setup_def and_then_Inr_iff split: if_splits)
  then show ?thesis using atoi_arg_int [of "argv ! 1" r] by (simp add: int_ok_def)
qed

section \<open>Races\<close>

lemma excluded:
  assumes "reach (rw_step c) rw_start s" "in_range c"
  shows "writing (wpcs s t) \<Longrightarrow> writing (wpcs s u) \<Longrightarrow> t = u"
    "writing (wpcs s t) \<Longrightarrow> \<not> holding (rpcs s v)"
    "in_lock (rpcs s v) \<Longrightarrow> in_lock (rpcs s w) \<Longrightarrow> v = w"
proof -
  have inv: "rw_invar c s" and ok: "bad s = None" using rw.invar_reach [OF assms(1)] no_fault [OF assms] by simp_all
  then have lk: "lock_ok c s" "\<And>t. reader_ok c s t" "\<And>t. writer_ok c s t" by (simp_all add: rw_invar_def)
  have w: "t \<in> wthreads c" if "writing (wpcs s t)" for t using lk(3) [of t] that by (auto simp: writer_ok_def writing_def)
  have rt: "u \<in> rthreads c" if "rpcs s u \<noteq> R_new" for u using lk(2) [of u] that by (simp add: reader_ok_def)
  show "writing (wpcs s t) \<Longrightarrow> writing (wpcs s u) \<Longrightarrow> t = u" using writing_unique [OF lk(1)] w by blast
  show "\<not> holding (rpcs s v)" if "writing (wpcs s t)"
  proof
    assume "holding (rpcs s v)"
    then have "held c s" using rt [of v] by (auto simp: held_def holding_def)
    moreover have "0 < count_at (wthreads c) writing (wpcs s)"
      using count_at_pos [of "wthreads c" t writing "wpcs s"] w that by simp
    ultimately show False using lk(1) by (auto simp: lock_ok_def of_bool_def split: if_splits)
  qed
  show "v = w" if "in_lock (rpcs s v)" "in_lock (rpcs s w)"
  proof -
    have "count_at (rthreads c) in_lock (rpcs s) \<le> 1"
      using lk(1) by (auto simp: lock_ok_def of_bool_def split: if_splits)
    moreover have "v \<in> rthreads c" "w \<in> rthreads c" using rt that by (auto simp: in_lock_def)
    ultimately show ?thesis using count_at_unique [of "rthreads c" in_lock "rpcs s" v w] that by blast
  qed
qed

text \<open>When \<open>main\<close> accesses a variable, no other thread can.\<close>

lemma main_alone:
  assumes "rw_invar c s" "bad s = None" "accesses c Main s \<noteq> []"
  shows "accesses c (Reader t) s = [] \<and> accesses c (Writer t) s = []"
proof -
  have ok: "main_ok c s" "reader_ok c s t" "writer_ok c s t" using assms(1,2) by (simp_all add: rw_invar_def)
  have new: "t \<in> rthreads c \<or> rpcs s t = R_new" using ok(2) unfolding reader_ok_def by blast
  have wnew: "t \<in> wthreads c \<or> wpcs s t = W_new" using ok(3) unfolding writer_ok_def by blast
  have "mainpc s = M_init \<or> mainpc s = M_end" using assms(3) by (simp add: accesses_def split: mpc.splits)
  then have "rpcs s t = R_new \<or> rpcs s t = R_done" "wpcs s t = W_new \<or> wpcs s t = W_done"
    using ok(1) new wnew unfolding main_ok_def by (auto simp del: lessThan_iff)
  then show ?thesis by (elim disjE) (simp_all add: accesses_def)
qed

lemma race_where:
  assumes "reach (rw_step c) rw_start s" "in_range c" "race c s"
  shows "announce c \<and> (\<exists>t u. wpcs s t = W_show \<and> rpcs s u \<in> {R_inc, R_dec})"
proof -
  note ex = excluded [OF assms(1,2)]
  have inv: "rw_invar c s" "bad s = None" using rw.invar_reach [OF assms(1)] no_fault [OF assms(1,2)] by simp_all
  obtain a b v where ab: "a \<noteq> b" "(v, True) \<in> set (accesses c a s)" "v \<in> fst ` set (accesses c b s)"
    using assms(3) by (auto simp: race_def)
  have ne: "accesses c a s \<noteq> []" "accesses c b s \<noteq> []" using ab(2,3) by auto
  have "b = Main" if "a = Main" using main_alone [OF inv] ne that by (cases b) auto
  moreover have "a = Main" if "b = Main" using main_alone [OF inv] ne that by (cases a) auto
  ultimately have "a \<noteq> Main" "b \<noteq> Main" using ab(1) by auto
  then consider (rr) t u where "a = Reader t" "b = Reader u" | (rw) t u where "a = Reader t" "b = Writer u"
    | (wr) t u where "a = Writer t" "b = Reader u" | (ww) t u where "a = Writer t" "b = Writer u"
    by (cases a; cases b) auto
  then show ?thesis
  proof cases
    case rr
    then show ?thesis using ab ex(3) [of t u] by (auto simp: accesses_def in_lock_def split: if_splits)
  next
    case rw
    then show ?thesis using ab by (auto simp: accesses_def split: if_splits)
  next
    case wr
    then show ?thesis using ab ex(2) [of t u] by (auto simp: accesses_def writing_def holding_def split: if_splits)
  next
    case ww
    then show ?thesis using ab ex(1) [of t u] by (auto simp: accesses_def writing_def split: if_splits)
  qed
qed

text \<open>The race of \<open>reader-writer-nostarve.c\<close>: \<open>main\<close> has created the readers and a writer.\<close>

definition before_race :: "rwconf \<Rightarrow> tact list" where
  "before_race c = replicate (Suc (Suc (nat (num_readers c)))) Main @ [Main, Main, Writer 0, Reader 0, Reader 0]"

lemma create_readers:
  "int n \<le> num_readers c \<Longrightarrow> \<exists>s. run (rw_step c) (replicate (Suc (Suc n)) Main) rw_initial = Some s \<and>
    mainpc s = M_create_r n \<and> (0 < n \<longrightarrow> rpcs s 0 = R_for) \<and> lock s = 1 \<and> ri s = (\<lambda>_. 0) \<and> wi s = (\<lambda>_. 0) \<and> bad s = None"
proof (induction n)
  case 0
  then show ?case by (simp add: rw_step_def main_step_def rw_initial_def rwlock_init_def print_def)
next
  case (Suc n)
  then obtain s where s: "run (rw_step c) (replicate (Suc (Suc n)) Main) rw_initial = Some s" "mainpc s = M_create_r n"
      "0 < n \<longrightarrow> rpcs s 0 = R_for" "lock s = 1" "ri s = (\<lambda>_. 0)" "wi s = (\<lambda>_. 0)" "bad s = None" by auto
  have "replicate (Suc (Suc (Suc n))) Main = replicate (Suc (Suc n)) Main @ [Main]"
    by (simp add: replicate_append_same)
  moreover have "rw_step c Main s = Some (rgoto n R_for (s\<lparr>mainpc := M_create_r (Suc n)\<rparr>))"
    using s Suc.prems by (simp add: rw_step_def main_step_def)
  ultimately have "run (rw_step c) (replicate (Suc (Suc (Suc n))) Main) rw_initial =
      Some (rgoto n R_for (s\<lparr>mainpc := M_create_r (Suc n)\<rparr>))"
    using s(1) by (simp only: run_append) simp
  then show ?case using s by (simp add: rgoto_def)
qed

lemma race_reachable:
  assumes "announce c" "1 \<le> loops c" "1 \<le> num_readers c" "1 \<le> num_writers c"
  shows "\<exists>s. reach (rw_step c) rw_start s \<and> race c s"
proof -
  obtain s where s: "run (rw_step c) (replicate (Suc (Suc (nat (num_readers c)))) Main) rw_initial = Some s"
      "mainpc s = M_create_r (nat (num_readers c))" "rpcs s 0 = R_for" "lock s = 1" "ri s = (\<lambda>_. 0)" "wi s = (\<lambda>_. 0)" "bad s = None"
    using create_readers [of "nat (num_readers c)" c] assms(3) by auto
  have "\<exists>s'. run (rw_step c) [Main, Main, Writer 0, Reader 0, Reader 0] s = Some s' \<and> wpcs s' 0 = W_show \<and> rpcs s' 0 = R_inc"
    using s assms
    by (simp add: rw_step_def main_step_def writer_def reader_def rwlock_acquire_readlock_def rw_defs)
  then obtain s' where s': "run (rw_step c) (before_race c) rw_initial = Some s'" "wpcs s' 0 = W_show" "rpcs s' 0 = R_inc"
    using s(1) by (auto simp: before_race_def run_append simp del: replicate_Suc)
  have "race c s'"
    unfolding race_def
    using s' assms(1) by (intro exI [of _ "Reader 0"] exI [of _ "Writer 0"] exI [of _ Readers]) (simp add: accesses_def)
  moreover have "reach (rw_step c) rw_start s'" by (rule reach_run [OF _ s'(1)]) (simp add: rw_start_def)
  ultimately show ?thesis by blast
qed

section \<open>Properties\<close>

text \<open>
  Property C5. At most one writer is between the acquisition and the release of the lock, no reader is between its acquisition and its
  release while a writer is, and \<open>value\<close> is at every moment the number of increments that the writers have completed: no
  increment is lost. As long as the numbers of readers and of increments fit an \<open>int\<close>, no \<open>int\<close> overflows. The threads of
  \<open>reader-writer.c\<close> never race. Those of \<open>reader-writer-nostarve.c\<close> do, which is undefined behaviour, but in one way only: a
  writer that prints the number of readers without the lock while a reader changes it, and with a reader, a writer and a round
  that happens in some run. (The other results are about its runs with atomic accesses, then.)
\<close>

theorem rw_excludes:
  assumes "reach (rw_step c) rw_start s" "in_range c"
  shows "bad s = None \<and>
    (\<forall>t u. writing (wpcs s t) \<and> writing (wpcs s u) \<longrightarrow> t = u) \<and>
    (\<forall>t u. writing (wpcs s t) \<longrightarrow> \<not> holding (rpcs s u)) \<and>
    val s = (\<Sum>t<nat (num_writers c). wi s t + of_bool (wpcs s t \<in> {W_print, W_post, W_next})) \<and>
    (race c s \<longrightarrow> announce c \<and> (\<exists>t u. wpcs s t = W_show \<and> rpcs s u \<in> {R_inc, R_dec})) \<and>
    (announce c \<and> 1 \<le> loops c \<and> 1 \<le> num_readers c \<and> 1 \<le> num_writers c \<longrightarrow>
      (\<exists>s'. reach (rw_step c) rw_start s' \<and> race c s'))"
proof -
  have ok: "bad s = None" using no_fault [OF assms] .
  moreover have "rw_invar c s" using rw.invar_reach [OF assms(1)] .
  ultimately have "val s = (\<Sum>u\<in>wthreads c. increments s u)" by (simp add: rw_invar_def)
  then show ?thesis
    using ok excluded(1,2) [OF assms] race_where [OF assms] race_reachable [of c] by (auto simp: increments_def written_def)
qed

text \<open>One reader and one writer: the writer is in, the reader waits at \<open>writelock\<close>.\<close>

definition one_each :: rwconf where
  "one_each = \<lparr>num_readers = 1, num_writers = 1, loops = 1, announce = True\<rparr>"

definition writer_first :: "tact list" where
  "writer_first = replicate 6 Main @ replicate 5 (Writer 0) @ replicate 4 (Reader 0)"

lemma writer_first_run:
  "\<exists>s. run (rw_step one_each) writer_first rw_initial = Some s \<and> wpcs s 0 = W_print \<and> rpcs s 0 = R_first \<and> val s = 1"
  by (simp add: writer_first_def one_each_def numeral_eq_Suc rw_step_def rw_initial_def main_step_def rwlock_init_def
      writer_def reader_def rwlock_acquire_readlock_def rwlock_acquire_writelock_def rw_defs int_ok_def)

theorem rw_excludes_witness:
  "\<exists>s. reach (rw_step one_each) rw_start s \<and> writing (wpcs s 0) \<and> rpcs s 0 = R_first \<and> bad s = None \<and>
    (\<forall>u. \<not> holding (rpcs s u)) \<and> val s = 1"
proof -
  obtain s where s: "run (rw_step one_each) writer_first rw_initial = Some s" "wpcs s 0 = W_print" "rpcs s 0 = R_first" "val s = 1"
    using writer_first_run by blast
  have r: "reach (rw_step one_each) rw_start s" by (rule reach_run [OF _ s(1)]) (simp add: rw_start_def)
  have "in_range one_each" by (simp add: in_range_def one_each_def)
  moreover have "writing (wpcs s 0)" using s(2) by (simp add: writing_def)
  ultimately show ?thesis using rw_excludes [OF r] r s by blast
qed

text \<open>
  Property C7. With at least one round, \<open>main\<close> never returns: every run is finite, as long as the sum below at most, and can only end in
  a deadlock in which the last reader holds \<open>lock\<close> and waits for the semaphore \<open>writelock\<close> that it should post. With no round, every run
  can only end with the return of \<open>main\<close>.
\<close>

theorem rw_deadlocks:
  assumes "rw_setup nostarve argv = Inr c" "num_writers c * loops c < 2 ^ 31" "reach (rw_step c) rw_start s"
  shows "(1 \<le> loops c \<longrightarrow> \<not> returned s) \<and>
    (stuck c s \<longrightarrow>
      (if 1 \<le> loops c
       then (\<exists>t<nat (num_readers c). rpcs s t = R_last) \<and> lock s = 0 \<and> writelock s = 0 \<and> readers s = 0
       else returned s \<and> val s = 0)) \<and>
    (\<exists>as s'. run (rw_step c) as s = Some s' \<and> stuck c s') \<and>
    (\<forall>as s'. run (rw_step c) as rw_initial = Some s' \<longrightarrow>
      length as \<le> 8 + 16 * nat (num_readers c) + 12 * nat (num_writers c) +
        nat (loops c) * (14 * nat (num_readers c) + 10 * nat (num_writers c)))"
proof -
  have pos: "0 < num_readers c" and rng: "in_range c"
    using rw_setup_range [OF assms(1)] assms(2) by (simp_all add: in_range_def)
  have inv: "rw_invar c s" and ok: "bad s = None"
    using rw.invar_reach [OF assms(3)] no_fault [OF assms(3) rng] by simp_all
  have "\<not> returned s" if "1 \<le> loops c"
    using not_all_done [OF inv ok pos] that inv ok by (auto simp: returned_def rw_invar_def main_ok_def)
  moreover have "(\<exists>t<nat (num_readers c). rpcs s t = R_last) \<and> lock s = 0 \<and> writelock s = 0 \<and> readers s = 0"
    if l: "1 \<le> loops c" and st: "stuck c s"
  proof -
    obtain t where "t \<in> rthreads c" "rpcs s t = R_last" using stuck_has_last [OF inv ok pos _ st] l by auto
    then show ?thesis using last_reader_state [OF inv ok] by auto
  qed
  moreover have "returned s \<and> val s = 0" if "\<not> 1 \<le> loops c" "stuck c s"
    using stuck_without_rounds [OF inv ok] that by simp
  moreover have "\<exists>as s'. run (rw_step c) as s = Some s' \<and> stuck c s'" using rw.can_finish [OF assms(3)] by blast
  moreover have "length as \<le> 8 + 16 * nat (num_readers c) + 12 * nat (num_writers c) +
      nat (loops c) * (14 * nat (num_readers c) + 10 * nat (num_writers c))"
    if "run (rw_step c) as rw_initial = Some s'" for as s'
  proof -
    have "length as \<le> rw_rank c rw_initial"
      using rw.run_length [where c = c and s = rw_initial and as = as and t = s', OF reach_start] that by (simp add: rw_start_def list_all_iff)
    moreover have "nat (max 0 (loops c)) = nat (loops c)" by simp
    ultimately show ?thesis
      by (simp add: rw_rank_def rw_initial_def mrank_def Let_def reader_rank_def writer_rank_def algebra_simps)
  qed
  ultimately show ?thesis by auto
qed

theorem rw_deadlocks_witness:
  "\<exists>c s. rw_setup False [''reader-writer'', ''2'', ''1'', ''3''] = Inr c \<and> reach (rw_step c) rw_start s \<and> stuck c s \<and>
    \<not> returned s \<and> lock s = 0 \<and> (\<exists>t<2. rpcs s t = R_last)"
proof -
  define c where "c = \<lparr>num_readers = 2, num_writers = 1, loops = 3, announce = False\<rparr>"
  have su: "rw_setup False [''reader-writer'', ''2'', ''1'', ''3''] = Inr c"
    by (simp add: rw_setup_def c_def assert_that_def atoi_arg_def atoi_def isspace_def isdigit_def digit_val_def int_ok_def
        of_char_def)
  have rng: "num_writers c * loops c < 2 ^ 31" by (simp add: c_def)
  have r0: "reach (rw_step c) rw_start rw_initial" by (rule reach_start) (simp add: rw_start_def)
  obtain as s where s: "run (rw_step c) as rw_initial = Some s" "stuck c s" using rw_deadlocks [OF su rng r0] by blast
  have r: "reach (rw_step c) rw_start s" by (rule reach_run [OF _ s(1)]) (simp add: rw_start_def)
  have "1 \<le> loops c" "nat (num_readers c) = 2" by (simp_all add: c_def)
  then show ?thesis using rw_deadlocks [OF su rng r] su r s(2) by metis
qed

end
