(* ===== verification/Barrier.thy ===== *)
theory Barrier
  imports Prelude Ctext
begin

text \<open>
  \<open>src/concurrency/threads-sema/barrier.c\<close>: children that print, go through a barrier and print again. The barrier is built like the
  reader-writer lock, on a counter \<open>players\<close> that \<open>barrier_init\<close> leaves at the 0 of a global and that counts down. Every
  thread is at a program point, as in the model of the locks. The invariant shows what the counter is, what a thread can
  wait for, and when \<open>main\<close> returns; two schedules show that the barrier does not hold threads back, and that it can block them for ever.
\<close>

section \<open>Data\<close>

record barrier_t =
  lock :: nat
  playlock :: nat
  players :: int
  threads :: int

datatype line = Parent_begin | Before nat | After nat | Parent_end

datatype bpc =
    B_new | B_before
  | B_wait1 | B_dec | B_test1 | B_first | B_post1   \<comment> \<open>\<open>acquire_playlock\<close>\<close>
  | B_sleep
  | B_wait2 | B_inc | B_test2 | B_last | B_post2    \<comment> \<open>\<open>release_playlock\<close>\<close>
  | B_after | B_done

datatype mpc = M_begin | M_init | M_create nat | M_join nat | M_end | M_exit

record bsys = barrier_t +
  bpcs :: "nat \<Rightarrow> bpc"
  mainpc :: mpc
  printed :: "line list"
  bad :: "fault option"

datatype tact = Main | Child nat

definition goto :: "nat \<Rightarrow> bpc \<Rightarrow> bsys \<Rightarrow> bsys" where
  "goto t p s = s\<lparr>bpcs := (bpcs s)(t := p)\<rparr>"

definition print :: "line \<Rightarrow> bsys \<Rightarrow> bsys" where
  "print l s = s\<lparr>printed := printed s @ [l]\<rparr>"

section \<open>The barrier\<close>

definition barrier_init :: "int \<Rightarrow> 'a barrier_t_scheme \<Rightarrow> 'a barrier_t_scheme" where
  "barrier_init num_threads b = b\<lparr>threads := num_threads, lock := 1, playlock := 1\<rparr>"

definition wait_lock :: "bsys \<Rightarrow> bsys option" where
  "wait_lock s = (if 0 < lock s then Some (s\<lparr>lock := lock s - 1\<rparr>) else None)"

definition post_lock :: "bsys \<Rightarrow> bsys" where
  "post_lock s = s\<lparr>lock := lock s + 1\<rparr>"

definition wait_playlock :: "bsys \<Rightarrow> bsys option" where
  "wait_playlock s = (if 0 < playlock s then Some (s\<lparr>playlock := playlock s - 1\<rparr>) else None)"

definition add_players :: "int \<Rightarrow> bsys \<Rightarrow> bsys" where
  "add_players d s =
     (if int_ok (players s + d) then s\<lparr>players := players s + d\<rparr> else s\<lparr>bad := Some Int_overflow\<rparr>)"

definition acquire_playlock :: "nat \<Rightarrow> bsys \<Rightarrow> bsys option" where
  "acquire_playlock t s = (case bpcs s t of
       B_wait1 \<Rightarrow> map_option (goto t B_dec) (wait_lock s)
     | B_dec \<Rightarrow> Some (goto t B_test1 (add_players (- 1) s))
     | B_test1 \<Rightarrow> Some (goto t (if players s = 1 then B_first else B_post1) s)
     | B_first \<Rightarrow> map_option (goto t B_post1) (wait_playlock s)
     | B_post1 \<Rightarrow> Some (goto t B_sleep (post_lock s))
     | _ \<Rightarrow> None)"

definition release_playlock :: "nat \<Rightarrow> bsys \<Rightarrow> bsys option" where
  "release_playlock t s = (case bpcs s t of
       B_wait2 \<Rightarrow> map_option (goto t B_inc) (wait_lock s)
     | B_inc \<Rightarrow> Some (goto t B_test2 (add_players 1 s))
     | B_test2 \<Rightarrow> Some (goto t (if players s = 0 then B_last else B_post2) s)
     | B_last \<Rightarrow> map_option (goto t B_post2) (wait_playlock s)
     | B_post2 \<Rightarrow> Some (goto t B_after (post_lock s))
     | _ \<Rightarrow> None)"

text \<open>The second that a thread sleeps is a step of its own: any number of steps of the others can come before it.\<close>

definition barrier :: "nat \<Rightarrow> bsys \<Rightarrow> bsys option" where
  "barrier t s =
     (if bpcs s t \<in> {B_wait1, B_dec, B_test1, B_first, B_post1} then acquire_playlock t s
      else if bpcs s t = B_sleep then Some (goto t B_wait2 s)
      else release_playlock t s)"

section \<open>The threads and main\<close>

definition child :: "nat \<Rightarrow> bsys \<Rightarrow> bsys option" where
  "child t s = (case bpcs s t of
       B_new \<Rightarrow> None
     | B_before \<Rightarrow> Some (goto t B_wait1 (print (Before t) s))
     | B_after \<Rightarrow> Some (goto t B_done (print (After t) s))
     | B_done \<Rightarrow> None
     | _ \<Rightarrow> barrier t s)"

definition barrier_setup :: "string list \<Rightarrow> stop + int" where
  "barrier_setup argv =
     and_then (assert_that (length argv = 2) ''argc == 2'' ()) (\<lambda>_.
     and_then (atoi_arg (argv ! 1)) (\<lambda>num_threads.
       assert_that (0 < num_threads) ''num_threads > 0'' num_threads))"

definition main_step :: "int \<Rightarrow> bsys \<Rightarrow> bsys option" where
  "main_step n s = (case mainpc s of
       M_begin \<Rightarrow> Some (print Parent_begin s\<lparr>mainpc := M_init\<rparr>)
     | M_init \<Rightarrow> Some ((barrier_init n s)\<lparr>mainpc := M_create 0\<rparr>)
     | M_create i \<Rightarrow>
         if int i < n then Some (goto i B_before (s\<lparr>mainpc := M_create (i + 1)\<rparr>)) else Some (s\<lparr>mainpc := M_join 0\<rparr>)
     | M_join i \<Rightarrow>
         if int i < n then (if bpcs s i = B_done then Some (s\<lparr>mainpc := M_join (i + 1)\<rparr>) else None)
         else Some (s\<lparr>mainpc := M_end\<rparr>)
     | M_end \<Rightarrow> Some (print Parent_end s\<lparr>mainpc := M_exit\<rparr>)
     | M_exit \<Rightarrow> None)"

definition barrier_step :: "int \<Rightarrow> tact \<Rightarrow> bsys \<Rightarrow> bsys option" where
  "barrier_step n a s =
     (if bad s \<noteq> None then None else case a of Main \<Rightarrow> main_step n s | Child t \<Rightarrow> child t s)"

definition barrier_initial :: bsys where
  "barrier_initial = \<lparr>lock = 0, playlock = 0, players = 0, threads = 0, bpcs = (\<lambda>_. B_new), mainpc = M_begin,
     printed = [], bad = None\<rparr>"

text \<open>The numbers of threads that the arguments can give.\<close>

definition barrier_start :: "int \<Rightarrow> bsys \<Rightarrow> bool" where
  "barrier_start n s \<longleftrightarrow> 0 < n \<and> int_ok n \<and> s = barrier_initial"

definition returned :: "bsys \<Rightarrow> bool" where
  "returned s \<longleftrightarrow> mainpc s = M_exit"

definition stuck :: "int \<Rightarrow> bsys \<Rightarrow> bool" where
  "stuck n s \<longleftrightarrow> (\<forall>a. barrier_step n a s = None)"

lemmas barrier_defs = barrier_step_def main_step_def child_def barrier_def acquire_playlock_def release_playlock_def
  wait_lock_def post_lock_def wait_playlock_def add_players_def goto_def print_def barrier_init_def

section \<open>The invariant\<close>

text \<open>The children that hold \<open>lock\<close>, and those between the two changes of \<open>players\<close>.\<close>

definition in_lock :: "bpc \<Rightarrow> bool" where
  "in_lock p \<longleftrightarrow> p \<in> {B_dec, B_test1, B_first, B_post1, B_inc, B_test2, B_last, B_post2}"

definition inside :: "bpc \<Rightarrow> bool" where
  "inside p \<longleftrightarrow> p \<in> {B_test1, B_post1, B_sleep, B_wait2, B_inc}"

definition past :: "bpc \<Rightarrow> bool" where
  "past p \<longleftrightarrow> p \<in> {B_post2, B_after, B_done}"

lemmas point_defs = in_lock_def inside_def past_def

definition sem_ok :: "int \<Rightarrow> bsys \<Rightarrow> bool" where
  "sem_ok n s \<longleftrightarrow>
     int (lock s) + int (count_at {..<nat n} in_lock (bpcs s)) = of_bool (mainpc s \<notin> {M_begin, M_init}) \<and>
     players s = - int (count_at {..<nat n} inside (bpcs s)) \<and> playlock s \<le> 1"

text \<open>Nobody has waited for \<open>playlock\<close> before a child is past its wait.\<close>

definition idle_ok :: "bsys \<Rightarrow> bool" where
  "idle_ok s \<longleftrightarrow> playlock s = 1 \<or> (\<exists>t. past (bpcs s t)) \<or> mainpc s \<in> {M_begin, M_init}"

definition child_ok :: "int \<Rightarrow> bsys \<Rightarrow> nat \<Rightarrow> bool" where
  "child_ok n s t \<longleftrightarrow>
     bpcs s t \<noteq> B_first \<and> (bpcs s t \<noteq> B_new \<longrightarrow> t < nat n) \<and> (bpcs s t = B_last \<longrightarrow> players s = 0)"

definition main_ok :: "int \<Rightarrow> bsys \<Rightarrow> bool" where
  "main_ok n s \<longleftrightarrow> (case mainpc s of
       M_begin \<Rightarrow> (\<forall>t. bpcs s t = B_new)
     | M_init \<Rightarrow> (\<forall>t. bpcs s t = B_new)
     | M_create i \<Rightarrow> (\<forall>t. bpcs s t \<noteq> B_new \<longleftrightarrow> t < i)
     | M_join i \<Rightarrow> (\<forall>t<nat n. bpcs s t \<noteq> B_new) \<and> (\<forall>t<i. bpcs s t = B_done)
     | _ \<Rightarrow> (\<forall>t<nat n. bpcs s t = B_done))"

definition barrier_invar :: "int \<Rightarrow> bsys \<Rightarrow> bool" where
  "barrier_invar n s \<longleftrightarrow>
     sem_ok n s \<and> idle_ok s \<and> (\<forall>t. child_ok n s t) \<and> main_ok n s \<and> bad s = None \<and> 0 < n \<and> int_ok n"

text \<open>The steps of a child, by what they change.\<close>

inductive bmove :: "nat \<Rightarrow> bsys \<Rightarrow> bsys \<Rightarrow> bool" for t s where
  bm_before: "bpcs s t = B_before \<Longrightarrow> bmove t s (goto t B_wait1 (s\<lparr>printed := out\<rparr>))"
| bm_lock1: "bpcs s t = B_wait1 \<Longrightarrow> 0 < lock s \<Longrightarrow> bmove t s (goto t B_dec (s\<lparr>lock := lock s - Suc 0\<rparr>))"
| bm_dec: "bpcs s t = B_dec \<Longrightarrow> bmove t s (goto t B_test1 (s\<lparr>players := players s - 1\<rparr>))"
| bm_later: "bpcs s t = B_test1 \<Longrightarrow> players s \<noteq> 1 \<Longrightarrow> bmove t s (goto t B_post1 s)"
| bm_post1: "bpcs s t = B_post1 \<Longrightarrow> bmove t s (goto t B_sleep (s\<lparr>lock := Suc (lock s)\<rparr>))"
| bm_sleep: "bpcs s t = B_sleep \<Longrightarrow> bmove t s (goto t B_wait2 s)"
| bm_lock2: "bpcs s t = B_wait2 \<Longrightarrow> 0 < lock s \<Longrightarrow> bmove t s (goto t B_inc (s\<lparr>lock := lock s - Suc 0\<rparr>))"
| bm_inc: "bpcs s t = B_inc \<Longrightarrow> bmove t s (goto t B_test2 (s\<lparr>players := players s + 1\<rparr>))"
| bm_last: "bpcs s t = B_test2 \<Longrightarrow> players s = 0 \<Longrightarrow> bmove t s (goto t B_last s)"
| bm_earlier: "bpcs s t = B_test2 \<Longrightarrow> players s \<noteq> 0 \<Longrightarrow> bmove t s (goto t B_post2 s)"
| bm_take: "bpcs s t = B_last \<Longrightarrow> 0 < playlock s \<Longrightarrow> bmove t s (goto t B_post2 (s\<lparr>playlock := playlock s - Suc 0\<rparr>))"
| bm_post2: "bpcs s t = B_post2 \<Longrightarrow> bmove t s (goto t B_after (s\<lparr>lock := Suc (lock s)\<rparr>))"
| bm_after: "bpcs s t = B_after \<Longrightarrow> bmove t s (goto t B_done (s\<lparr>printed := out\<rparr>))"

lemma players_bounds:
  assumes inv: "barrier_invar n s"
  shows "players s \<le> 0" "bpcs s t = B_dec \<Longrightarrow> - n < players s" "bpcs s t = B_test1 \<Longrightarrow> players s \<noteq> 1" "- n \<le> players s"
proof -
  have p: "players s = - int (count_at {..<nat n} inside (bpcs s))" and n: "0 < n" using inv by (simp_all add: barrier_invar_def sem_ok_def)
  show "players s \<le> 0" using p by simp
  then show "bpcs s t = B_test1 \<Longrightarrow> players s \<noteq> 1" by simp
  have "count_at {..<nat n} inside (bpcs s) \<le> nat n" using count_at_le [of "{..<nat n}" inside "bpcs s"] by simp
  then show "- n \<le> players s" using p n by simp
  assume d: "bpcs s t = B_dec"
  then have "t \<in> {..<nat n}" using inv by (auto simp: barrier_invar_def child_ok_def)
  then have "count_at {..<nat n} inside (bpcs s) < nat n"
    using count_at_less [of "{..<nat n}" t inside "bpcs s"] d by (simp add: inside_def)
  then show "- n < players s" using p n by simp
qed

lemma child_bmove:
  assumes inv: "barrier_invar n s" and c: "child t s = Some s'"
  shows "bmove t s s'"
proof -
  have r: "int_ok n" "bpcs s t \<noteq> B_first" using inv by (simp_all add: barrier_invar_def child_ok_def)
  have "int_ok (players s - 1)" if "bpcs s t = B_dec"
    using players_bounds(1,2) [OF inv] that r by (force simp: int_ok_def)
  moreover have "int_ok (players s + 1)" using players_bounds(1,4) [OF inv] r by (force simp: int_ok_def)
  ultimately show ?thesis
    using c r(2) players_bounds(3) [OF inv, of t]
    by (cases "bpcs s t")
      (auto simp: child_def barrier_def acquire_playlock_def release_playlock_def wait_lock_def post_lock_def
        wait_playlock_def add_players_def print_def split: if_splits intro: bmove.intros)
qed

lemma bmove_upd: "bmove t s s' \<Longrightarrow> bpcs s' = (bpcs s)(t := bpcs s' t)"
  by (induction rule: bmove.induct) (simp_all add: goto_def)

lemma bmove_effect: "bmove t s s' \<Longrightarrow>
    int (lock s') = int (lock s) + of_bool (in_lock (bpcs s t)) - of_bool (in_lock (bpcs s' t)) \<and>
    players s' = players s + of_bool (inside (bpcs s t)) - of_bool (inside (bpcs s' t)) \<and>
    playlock s' \<le> playlock s \<and> (\<not> past (bpcs s' t) \<longrightarrow> playlock s' = playlock s) \<and> (past (bpcs s t) \<longrightarrow> past (bpcs s' t)) \<and>
    mainpc s' = mainpc s \<and> bad s' = bad s \<and> bpcs s t \<notin> {B_new, B_done} \<and> bpcs s' t \<notin> {B_new, B_first} \<and>
    (bpcs s' t = B_last \<longrightarrow> players s' = 0) \<and> (players s' \<noteq> players s \<longrightarrow> in_lock (bpcs s t))"
  by (induction rule: bmove.induct) (simp_all add: goto_def point_defs)

lemma in_lock_unique:
  assumes "sem_ok n s" "child_ok n s t" "child_ok n s u" "in_lock (bpcs s t)" "in_lock (bpcs s u)"
  shows "t = u"
proof -
  have "count_at {..<nat n} in_lock (bpcs s) \<le> 1"
    using assms(1) by (auto simp: sem_ok_def of_bool_def split: if_splits)
  moreover have "t \<in> {..<nat n}" "u \<in> {..<nat n}"
    using assms(2-5) by (auto simp: child_ok_def in_lock_def)
  ultimately show ?thesis using count_at_unique [of "{..<nat n}" in_lock "bpcs s" t u] assms(4,5) by simp
qed

lemma bmove_sem_ok:
  assumes ok: "sem_ok n s" and t: "t < nat n" and mv: "bmove t s s'"
  shows "sem_ok n s'"
proof -
  have cnt: "int (count_at {..<nat n} P (bpcs s')) =
      int (count_at {..<nat n} P (bpcs s)) + of_bool (P (bpcs s' t)) - of_bool (P (bpcs s t))" for P
    using count_at_upd [of "{..<nat n}" t P "bpcs s" "bpcs s' t"] t bmove_upd [OF mv] by simp
  show ?thesis using ok bmove_effect [OF mv] cnt [of in_lock] cnt [of inside] by (simp add: sem_ok_def)
qed

lemma bmove_idle_ok:
  assumes ok: "idle_ok s" and mv: "bmove t s s'"
  shows "idle_ok s'"
proof (cases "past (bpcs s' t)")
  case False
  then have same: "playlock s' = playlock s" "mainpc s' = mainpc s" "\<not> past (bpcs s t)" using bmove_effect [OF mv] by simp_all
  have "past (bpcs s' u)" if "past (bpcs s u)" for u
    using that same(3) bmove_upd [OF mv] by (metis fun_upd_other)
  then show ?thesis using ok same by (auto simp: idle_ok_def)
qed (auto simp: idle_ok_def)

lemma bmove_child_ok:
  assumes ok: "sem_ok n s" "\<And>u. child_ok n s u" and mv: "bmove t s s'"
  shows "child_ok n s' u"
proof (cases "u = t")
  case True
  have "bpcs s t \<noteq> B_new" "bpcs s' t \<noteq> B_first" "bpcs s' t = B_last \<longrightarrow> players s' = 0"
    using bmove_effect [OF mv] by blast+
  then show ?thesis using ok(2) [of t] True by (simp add: child_ok_def)
next
  case False
  have "players s' = players s" if "bpcs s u = B_last"
  proof (rule ccontr)
    assume "players s' \<noteq> players s"
    then have "in_lock (bpcs s t)" using bmove_effect [OF mv] by blast
    then show False using in_lock_unique [OF ok(1) ok(2) ok(2), of t u] that False by (simp add: in_lock_def)
  qed
  moreover have "bpcs s' u = bpcs s u" using bmove_upd [OF mv] False by (metis fun_upd_other)
  ultimately show ?thesis using ok(2) [of u] by (simp add: child_ok_def)
qed

lemma bmove_main_ok:
  assumes ok: "main_ok n s" and mv: "bmove t s s'"
  shows "main_ok n s'"
proof -
  have pt: "bpcs s t \<noteq> B_new" "bpcs s t \<noteq> B_done" "bpcs s' t \<noteq> B_new" and m: "mainpc s' = mainpc s"
    using bmove_effect [OF mv] by blast+
  have "bpcs s' u = B_new \<longleftrightarrow> bpcs s u = B_new" "bpcs s u = B_done \<Longrightarrow> bpcs s' u = B_done" for u
    using bmove_upd [OF mv] pt by (metis fun_upd_apply)+
  then show ?thesis using ok m by (cases "mainpc s") (simp_all add: main_ok_def)
qed

lemma bmove_invar:
  assumes inv: "barrier_invar n s" and mv: "bmove t s s'"
  shows "barrier_invar n s'"
proof -
  have "bpcs s t \<noteq> B_new" "bad s' = bad s" using bmove_effect [OF mv] by blast+
  moreover have "t < nat n" using inv calculation by (simp add: barrier_invar_def child_ok_def)
  ultimately show ?thesis
    using inv bmove_sem_ok [OF _ _ mv] bmove_idle_ok [OF _ mv] bmove_child_ok [OF _ _ mv] bmove_main_ok [OF _ mv]
    by (simp add: barrier_invar_def)
qed

lemma barrier_invar_start: "barrier_start n s \<Longrightarrow> barrier_invar n s"
proof -
  assume st: "barrier_start n s"
  have "count_at {..<nat n} in_lock (\<lambda>_. B_new) = 0" "count_at {..<nat n} inside (\<lambda>_. B_new) = 0"
    by (rule count_at_zero, simp add: point_defs)+
  then show ?thesis
    using st by (simp add: barrier_start_def barrier_initial_def barrier_invar_def sem_ok_def idle_ok_def child_ok_def main_ok_def)
qed

lemma barrier_main_other:
  assumes m: "main_step n s = Some s'" "main_ok n s" "mainpc s \<noteq> M_init" and last: "\<And>i. mainpc s = M_create i \<Longrightarrow> \<not> int i < n"
  obtains out m where "s' = s\<lparr>printed := out, mainpc := m\<rparr>" "m \<in> {M_begin, M_init} \<longleftrightarrow> mainpc s \<in> {M_begin, M_init}"
    "main_ok n s'"
proof -
  have "s' = s\<lparr>printed := printed s', mainpc := mainpc s'\<rparr> \<and>
      (mainpc s' \<in> {M_begin, M_init} \<longleftrightarrow> mainpc s \<in> {M_begin, M_init}) \<and> main_ok n s'"
  proof (cases "mainpc s")
    case (M_create i)
    then have "s' = s\<lparr>mainpc := M_join 0\<rparr>" "nat n \<le> i" using m(1) last [OF M_create] by (simp_all add: main_step_def)
    then show ?thesis using m(2) M_create by (auto simp: main_ok_def)
  next
    case (M_join i)
    then show ?thesis using m(1,2) by (auto simp: main_step_def main_ok_def less_Suc_eq split: if_splits)
  qed (use m in \<open>auto simp: main_step_def main_ok_def print_def\<close>)
  then show ?thesis using that by blast
qed

lemma main_invar:
  assumes inv: "barrier_invar n s" and m: "main_step n s = Some s'"
  shows "barrier_invar n s'"
proof -
  have ok: "sem_ok n s" "idle_ok s" "\<And>t. child_ok n s t" "main_ok n s" "bad s = None" "0 < n" "int_ok n"
    using inv by (simp_all add: barrier_invar_def)
  consider (init) "mainpc s = M_init" | (create) i where "mainpc s = M_create i" "int i < n"
    | (other) "mainpc s \<noteq> M_init" "\<And>i. mainpc s = M_create i \<Longrightarrow> \<not> int i < n"
    by blast
  then show ?thesis
  proof cases
    case init
    then have new: "\<And>t. bpcs s t = B_new" using ok(4) by (simp add: main_ok_def)
    then have "count_at {..<nat n} in_lock (bpcs s) = 0" by (intro count_at_zero) (simp add: in_lock_def)
    moreover have "s' = (barrier_init n s)\<lparr>mainpc := M_create 0\<rparr>" using m init by (simp add: main_step_def)
    ultimately show ?thesis
      using ok new init
      by (simp add: barrier_init_def barrier_invar_def sem_ok_def idle_ok_def child_ok_def main_ok_def)
  next
    case (create i)
    then have i: "i < nat n" "bpcs s i = B_new" using ok(4) by (auto simp: main_ok_def)
    have s': "s' = goto i B_before (s\<lparr>mainpc := M_create (Suc i)\<rparr>)" using m create by (simp add: main_step_def)
    have cnt: "count_at {..<nat n} P ((bpcs s)(i := B_before)) = count_at {..<nat n} P (bpcs s)" if "P B_before = P B_new" for P
      using count_at_upd_same [of i "{..<nat n}" P B_before "bpcs s"] i that by simp
    have "sem_ok n s'"
      using ok(1) create cnt [of in_lock] cnt [of inside] by (simp add: s' sem_ok_def goto_def point_defs)
    moreover have "past (bpcs s' t) = past (bpcs s t)" for t using i(2) by (simp add: s' goto_def past_def)
    then have "idle_ok s'" using ok(2) create by (simp add: s' idle_ok_def goto_def)
    moreover have "child_ok n s' t" for t using ok(3) [of t] i by (auto simp: s' child_ok_def goto_def)
    moreover have "main_ok n s'" using ok(4) create i by (auto simp: s' main_ok_def goto_def less_Suc_eq)
    ultimately show ?thesis using ok by (simp add: s' barrier_invar_def goto_def)
  next
    case other
    then obtain out mp where s': "s' = s\<lparr>printed := out, mainpc := mp\<rparr>"
        "mp \<in> {M_begin, M_init} \<longleftrightarrow> mainpc s \<in> {M_begin, M_init}" "main_ok n s'"
      using barrier_main_other [OF m ok(4)] by blast
    have "sem_ok n s'" using ok(1) s'(2) unfolding s'(1) sem_ok_def by simp
    moreover have "idle_ok s'" using ok(2) s'(2) unfolding s'(1) idle_ok_def by auto
    moreover have "child_ok n s' t" for t using ok(3) [of t] by (simp add: s'(1) child_ok_def)
    ultimately show ?thesis using ok s' by (simp add: barrier_invar_def)
  qed
qed

lemma barrier_invar_step: "barrier_invar n s \<Longrightarrow> barrier_step n a s = Some s' \<Longrightarrow> barrier_invar n s'"
  using main_invar [of n s s'] bmove_invar [OF _ child_bmove, where n = n and s = s and s' = s']
  by (cases a) (simp_all add: barrier_step_def split: if_splits)

section \<open>Runs end\<close>

fun brank :: "bpc \<Rightarrow> nat" where
  "brank B_new = 15" | "brank B_before = 14" | "brank B_wait1 = 13" | "brank B_dec = 12" | "brank B_test1 = 11"
| "brank B_first = 10" | "brank B_post1 = 9" | "brank B_sleep = 8" | "brank B_wait2 = 7" | "brank B_inc = 6"
| "brank B_test2 = 5" | "brank B_last = 4" | "brank B_post2 = 3" | "brank B_after = 2" | "brank B_done = 0"

definition mrank :: "int \<Rightarrow> mpc \<Rightarrow> nat" where
  "mrank n m = (case m of
       M_begin \<Rightarrow> 5 + 2 * nat n | M_init \<Rightarrow> 4 + 2 * nat n | M_create i \<Rightarrow> 3 + nat n + (nat n - i)
     | M_join i \<Rightarrow> 2 + (nat n - i) | M_end \<Rightarrow> 1 | M_exit \<Rightarrow> 0)"

definition barrier_rank :: "int \<Rightarrow> bsys \<Rightarrow> nat" where
  "barrier_rank n s = mrank n (mainpc s) + (\<Sum>t<nat n. brank (bpcs s t))"

lemma bmove_rank: "bmove t s s' \<Longrightarrow> brank (bpcs s' t) < brank (bpcs s t)"
  by (induction rule: bmove.induct) (simp_all add: goto_def)

lemma barrier_rank_step:
  assumes inv: "barrier_invar n s" and st: "barrier_step n a s = Some s'"
  shows "barrier_rank n s' < barrier_rank n s"
proof (cases a)
  case (Child t)
  then have mv: "bmove t s s'" using child_bmove [OF inv] st by (simp add: barrier_step_def split: if_splits)
  have t: "t < nat n" using inv bmove_effect [OF mv] by (simp add: barrier_invar_def child_ok_def)
  have "(\<Sum>u<nat n. brank (bpcs s' u)) < (\<Sum>u<nat n. brank (bpcs s u))"
  proof (rule sum_strict_mono_ex1)
    show "\<forall>u\<in>{..<nat n}. brank (bpcs s' u) \<le> brank (bpcs s u)"
      using bmove_rank [OF mv] bmove_upd [OF mv] by (metis fun_upd_other less_imp_le order_refl)
    show "\<exists>u\<in>{..<nat n}. brank (bpcs s' u) < brank (bpcs s u)" using t bmove_rank [OF mv] by auto
  qed simp
  then show ?thesis using bmove_effect [OF mv] by (simp add: barrier_rank_def)
next
  case Main
  then have m: "main_step n s = Some s'" using st by (simp add: barrier_step_def split: if_splits)
  have mok: "main_ok n s" using inv by (simp add: barrier_invar_def)
  have "brank (bpcs s' u) \<le> brank (bpcs s u)" for u
  proof (cases "mainpc s")
    case (M_create i)
    then have "bpcs s i = B_new" using mok less_irrefl [of i] by (auto simp: main_ok_def)
    then show ?thesis using m M_create by (auto simp: main_step_def goto_def split: if_splits)
  qed (use m in \<open>auto simp: main_step_def barrier_init_def print_def split: if_splits\<close>)
  then have "(\<Sum>u<nat n. brank (bpcs s' u)) \<le> (\<Sum>u<nat n. brank (bpcs s u))" by (intro sum_mono) simp
  moreover have "mrank n (mainpc s') < mrank n (mainpc s)"
    using m by (cases "mainpc s") (auto simp: main_step_def mrank_def goto_def barrier_init_def print_def split: if_splits)
  ultimately show ?thesis by (simp add: barrier_rank_def)
qed

interpretation ba: terminating_program "barrier_step n" "barrier_start n" "barrier_invar n" "\<lambda>_. True" "stuck n"
    "barrier_rank n" for n
proof
  show "barrier_start n s \<Longrightarrow> barrier_invar n s" for s by (rule barrier_invar_start)
  show "barrier_invar n s \<Longrightarrow> barrier_step n a s = Some s' \<Longrightarrow> barrier_invar n s'" for s a s' by (rule barrier_invar_step)
  show "\<not> stuck n s \<Longrightarrow> \<exists>a s'. True \<and> barrier_step n a s = Some s'" for s by (auto simp: stuck_def)
  show "barrier_invar n s \<Longrightarrow> barrier_step n a s = Some s' \<Longrightarrow> barrier_rank n s' < barrier_rank n s" for s a s'
    by (rule barrier_rank_step)
qed

section \<open>Where runs end\<close>

lemma stuck_child:
  assumes "stuck n s" "barrier_invar n s"
  shows "bpcs s t \<in> {B_new, B_done} \<or> bpcs s t = B_last \<and> playlock s = 0 \<or> bpcs s t \<in> {B_wait1, B_wait2} \<and> lock s = 0"
proof -
  have "barrier_step n (Child t) s = None" "bad s = None" "bpcs s t \<noteq> B_first"
    using assms by (simp_all add: stuck_def barrier_invar_def child_ok_def)
  then show ?thesis
    by (cases "bpcs s t")
      (simp_all add: barrier_step_def child_def barrier_def acquire_playlock_def release_playlock_def wait_lock_def
        wait_playlock_def split: if_splits)
qed

lemma stuck_end:
  assumes inv: "barrier_invar n s" and st: "stuck n s" and run: "\<not> returned s"
  shows "2 \<le> n \<and> (\<exists>t<nat n. bpcs s t = B_last) \<and> lock s = 0 \<and> playlock s = 0"
proof -
  have ok: "sem_ok n s" "idle_ok s" "\<And>t. child_ok n s t" "main_ok n s" "bad s = None" "0 < n"
    using inv by (simp_all add: barrier_invar_def)
  have "barrier_step n Main s = None" using st by (simp add: stuck_def)
  then obtain i where i: "mainpc s = M_join i" "i < nat n" "bpcs s i \<noteq> B_done"
    using ok(5) run by (cases "mainpc s") (auto simp: barrier_step_def main_step_def returned_def split: if_splits)
  then have new: "bpcs s i \<noteq> B_new" using ok(4) by (simp add: main_ok_def)
  have "\<exists>t<nat n. bpcs s t = B_last"
  proof (rule ccontr)
    assume no: "\<not> ?thesis"
    then have "\<not> in_lock (bpcs s t)" if "t \<in> {..<nat n}" for t
      using stuck_child [OF st inv, of t] that by (auto simp: in_lock_def)
    then have "count_at {..<nat n} in_lock (bpcs s) = 0" by (rule count_at_zero)
    then have "lock s = 1" using ok(1) i by (simp add: sem_ok_def)
    then show False using stuck_child [OF st inv, of i] i new no by auto
  qed
  then obtain t where t: "t < nat n" "bpcs s t = B_last" by blast
  then have "0 < count_at {..<nat n} in_lock (bpcs s)"
    using count_at_pos [of "{..<nat n}" t in_lock "bpcs s"] by (simp add: in_lock_def)
  then have "lock s = 0" using ok(1) by (auto simp: sem_ok_def of_bool_def split: if_splits)
  moreover have p: "playlock s = 0" using stuck_child [OF st inv, of t] t by simp
  moreover have "2 \<le> n"
  proof -
    obtain u where u: "past (bpcs s u)" using ok(2) p i by (auto simp: idle_ok_def)
    then have "u < nat n" using ok(3) [of u] by (auto simp: child_ok_def past_def)
    moreover have "u \<noteq> t" using u t by (auto simp: past_def)
    ultimately show ?thesis using t by linarith
  qed
  ultimately show ?thesis using t by blast
qed

section \<open>Properties\<close>

lemma barrier_setup_start: "barrier_setup argv = Inr n \<Longrightarrow> barrier_start n barrier_initial"
  by (auto simp: barrier_setup_def barrier_start_def and_then_Inr_iff assert_that_def atoi_arg_def atoi_def Let_def
      split: if_splits)

lemma barrier_reach_initial: "barrier_setup argv = Inr n \<Longrightarrow> reach (barrier_step n) (barrier_start n) barrier_initial"
  by (rule reach_start) (rule barrier_setup_start)

text \<open>
  Property C29. In \<open>barrier.c\<close> the counter of players is at every moment minus the number of children between its two changes, so that
  \<open>acquire_playlock\<close> never waits for \<open>playlock\<close>. Every run is finite, and where it ends \<open>main\<close> has returned, or there are two
  children at least and one of them holds \<open>lock\<close> and waits for \<open>playlock\<close> for ever: a single child always gets through.
\<close>

theorem barrier_ends:
  assumes "barrier_setup argv = Inr n" "reach (barrier_step n) (barrier_start n) s"
  shows "bad s = None \<and>
    players s = - int (card {t. t < nat n \<and> bpcs s t \<in> {B_test1, B_post1, B_sleep, B_wait2, B_inc}}) \<and>
    (\<forall>t. bpcs s t \<noteq> B_first) \<and>
    (stuck n s \<longrightarrow> returned s \<or> 2 \<le> n \<and> (\<exists>t<nat n. bpcs s t = B_last) \<and> lock s = 0 \<and> playlock s = 0) \<and>
    (\<exists>as s'. run (barrier_step n) as s = Some s' \<and> stuck n s') \<and>
    (\<forall>as s'. run (barrier_step n) as barrier_initial = Some s' \<longrightarrow> length as \<le> 5 + 17 * nat n)"
proof -
  have inv: "barrier_invar n s" using ba.invar_reach [OF assms(2)] .
  have "length as \<le> 5 + 17 * nat n" if "run (barrier_step n) as barrier_initial = Some s'" for as s'
    using ba.run_length [where n = n and s = barrier_initial and as = as and t = s',
        OF barrier_reach_initial [OF assms(1)]] that
    by (simp add: list_all_iff barrier_rank_def barrier_initial_def mrank_def)
  moreover have "\<exists>as s'. run (barrier_step n) as s = Some s' \<and> stuck n s'" using ba.can_finish [OF assms(2)] by blast
  moreover have "players s = - int (card {t. t < nat n \<and> bpcs s t \<in> {B_test1, B_post1, B_sleep, B_wait2, B_inc}})"
    using inv by (simp add: barrier_invar_def sem_ok_def count_at_def inside_def)
  ultimately show ?thesis using inv stuck_end [OF inv] by (auto simp: barrier_invar_def child_ok_def)
qed

theorem barrier_ends_witness:
  "\<exists>s. reach (barrier_step 1) (barrier_start 1) s \<and> stuck 1 s \<and> returned s \<and> players s = 0"
proof -
  have su: "barrier_setup [''barrier'', ''1''] = Inr 1"
    by (simp add: barrier_setup_def assert_that_def atoi_arg_def atoi_def isspace_def isdigit_def digit_val_def int_ok_def
        of_char_def)
  have r0: "reach (barrier_step 1) (barrier_start 1) barrier_initial" by (rule barrier_reach_initial [OF su])
  obtain as s where s: "run (barrier_step 1) as barrier_initial = Some s" "stuck 1 s"
    using barrier_ends [OF su r0] by blast
  have r: "reach (barrier_step 1) (barrier_start 1) s" by (rule reach_run_extend [OF r0 s(1)])
  have e: "returned s" using barrier_ends [OF su r] s(2) by simp
  moreover have "bpcs s t = B_done" if "t < 1" for t
    using ba.invar_reach [OF r] e that by (simp add: barrier_invar_def main_ok_def returned_def)
  then have "{t. t < nat 1 \<and> bpcs s t \<in> {B_test1, B_post1, B_sleep, B_wait2, B_inc}} = {}" by auto
  then have "players s = 0" using barrier_ends [OF su r] by simp
  ultimately show ?thesis using r s(2) by blast
qed

text \<open>The schedules: the steps of a child up to the sleep, from the sleep to the end, and the start of \<open>main\<close>.\<close>

definition enter :: "nat \<Rightarrow> tact list" where
  "enter t = replicate 5 (Child t)"

definition leave :: "nat \<Rightarrow> nat \<Rightarrow> tact list" where
  "leave k t = replicate k (Child t)"

definition overtaking :: "tact list" where
  "overtaking = replicate 6 Main @ enter 0 @ enter 1 @ leave 6 0 @ enter 2 @ leave 6 1 @ leave 7 2 @ replicate 5 Main"

definition one_by_one :: "tact list" where
  "one_by_one = replicate 5 Main @ enter 0 @ leave 7 0 @ enter 1 @ leave 4 1 @ [Main]"

text \<open>
  The barrier does not hold its threads back: with three children, \<open>main\<close> can return although a child has printed its
  second line before another has printed its first; and with two children that come one after the other, the second waits for ever
  with \<open>lock\<close> in its hands.
\<close>

theorem barrier_fails:
  "(\<exists>s. run (barrier_step 3) overtaking barrier_initial = Some s \<and> returned s \<and>
      printed s = [Parent_begin, Before 0, Before 1, After 0, Before 2, After 1, After 2, Parent_end]) \<and>
   (\<exists>s. run (barrier_step 2) one_by_one barrier_initial = Some s \<and> stuck 2 s \<and> \<not> returned s \<and>
      printed s = [Parent_begin, Before 0, After 0, Before 1])"
proof
  show "\<exists>s. run (barrier_step 3) overtaking barrier_initial = Some s \<and> returned s \<and>
      printed s = [Parent_begin, Before 0, Before 1, After 0, Before 2, After 1, After 2, Parent_end]"
    by (simp add: overtaking_def enter_def leave_def numeral_eq_Suc barrier_defs barrier_initial_def int_ok_def returned_def)
  have "\<exists>s. run (barrier_step 2) one_by_one barrier_initial = Some s \<and> bpcs s = (\<lambda>_. B_new)(0 := B_done, 1 := B_last) \<and>
      playlock s = 0 \<and> mainpc s = M_join 1 \<and> printed s = [Parent_begin, Before 0, After 0, Before 1]"
    by (simp add: one_by_one_def enter_def leave_def numeral_eq_Suc barrier_defs barrier_initial_def int_ok_def)
  moreover have "stuck 2 s" if "bpcs s = (\<lambda>_. B_new)(0 := B_done, 1 := B_last)" "playlock s = 0" "mainpc s = M_join 1" for s
    unfolding stuck_def
  proof
    show "barrier_step 2 a s = None" for a using that by (cases a) (auto simp: barrier_defs)
  qed
  ultimately show "\<exists>s. run (barrier_step 2) one_by_one barrier_initial = Some s \<and> stuck 2 s \<and> \<not> returned s \<and>
      printed s = [Parent_begin, Before 0, After 0, Before 1]"
    unfolding returned_def by fastforce
qed

end
