(* ===== verification/ApiThreads.thy ===== *)
theory ApiThreads
  imports Prelude
begin

text \<open>
  The small programs of \<open>src/concurrency/threads-api\<close> whose calls go through the wrappers of \<open>common_threads.h\<close>, which stop the
  process when a call fails; the model has the runs in which none does. Their threads are sequences of calls, so a function is modelled as the list of
  what it does, and a thread is at a position of its list. One machine runs them all: it interleaves the threads, one
  instruction at a time. The locale shows once that a program whose code locks and unlocks in pairs has exclusive locks; it is
  interpreted for every program.
\<close>

section \<open>The machine\<close>

datatype mutex = Mg | M1 | M2 | Ml

datatype tid = Main | W nat

datatype instr =
    Create nat | Join nat
  | Lock mutex | Unlock mutex
  | Assign_done int             \<comment> \<open>\<open>done = v\<close>\<close>
  | Spin                        \<comment> \<open>\<open>while (done == 0) ;\<close>\<close>
  | While_wait mutex            \<comment> \<open>\<open>while (done == 0) Pthread_cond_wait (&cond, &lock)\<close>\<close>
  | Signal
  | Say string

type_synonym program = "tid \<Rightarrow> instr list"

datatype wait = Running | Sleeping | Woken

record asys =
  pc :: "tid \<Rightarrow> nat option"    \<comment> \<open>\<open>None\<close>: not created\<close>
  wait :: "tid \<Rightarrow> wait"
  owner :: "mutex \<Rightarrow> tid option"
  done_flag :: int
  said :: "string list"
  bad :: "fault option"

definition api_initial :: asys where
  "api_initial = \<lparr>pc = (\<lambda>_. None)(Main := Some 0), wait = (\<lambda>_. Running), owner = (\<lambda>_. None),
     done_flag = 0, said = [], bad = None\<rparr>"

definition advance :: "tid \<Rightarrow> asys \<Rightarrow> asys" where
  "advance t s = s\<lparr>pc := (pc s)(t := map_option Suc (pc s t))\<rparr>"

definition ended :: "program \<Rightarrow> asys \<Rightarrow> tid \<Rightarrow> bool" where
  "ended prog s t \<longleftrightarrow> pc s t = Some (length (prog t))"

text \<open>A thread that was woken in \<open>pthread_cond_wait\<close> first gets the mutex again and then tests the flag again.\<close>

definition wait_step :: "tid \<Rightarrow> mutex \<Rightarrow> asys \<Rightarrow> asys option" where
  "wait_step t m s = (case wait s t of
       Running \<Rightarrow>
         if done_flag s \<noteq> 0 then Some (advance t s)
         else if owner s m = Some t then Some (s\<lparr>wait := (wait s)(t := Sleeping), owner := (owner s)(m := None)\<rparr>)
         else Some (s\<lparr>bad := Some Not_owner\<rparr>)
     | Sleeping \<Rightarrow> None
     | Woken \<Rightarrow>
         if owner s m = None then Some (s\<lparr>wait := (wait s)(t := Running), owner := (owner s)(m := Some t)\<rparr>) else None)"

definition exec :: "program \<Rightarrow> tid \<Rightarrow> instr \<Rightarrow> asys \<Rightarrow> asys option" where
  "exec prog t i s = (case i of
       Create w \<Rightarrow> Some (advance t (s\<lparr>pc := (pc s)(W w := Some 0)\<rparr>))
     | Join w \<Rightarrow> if ended prog s (W w) then Some (advance t s) else None
     | Lock m \<Rightarrow> if owner s m = None then Some (advance t (s\<lparr>owner := (owner s)(m := Some t)\<rparr>)) else None
     | Unlock m \<Rightarrow>
         if owner s m = Some t then Some (advance t (s\<lparr>owner := (owner s)(m := None)\<rparr>))
         else Some (s\<lparr>bad := Some Not_owner\<rparr>)
     | Assign_done v \<Rightarrow> Some (advance t (s\<lparr>done_flag := v\<rparr>))
     | Spin \<Rightarrow> Some (if done_flag s = 0 then s else advance t s)
     | While_wait m \<Rightarrow> wait_step t m s
     | Signal \<Rightarrow> Some (advance t (s\<lparr>wait := (\<lambda>u. if wait s u = Sleeping then Woken else wait s u)\<rparr>))
     | Say x \<Rightarrow> Some (advance t (s\<lparr>said := said s @ [x]\<rparr>)))"

text \<open>
  The actions: a step of a thread, or a spurious wake-up of a sleeping thread. The process ends with \<open>main\<close>. In these programs
  one thread at most waits for a condition variable, so that a signal wakes all there is to wake.
\<close>

datatype aact = Step tid | Spurious tid

definition api_step :: "program \<Rightarrow> aact \<Rightarrow> asys \<Rightarrow> asys option" where
  "api_step prog a s =
     (if bad s \<noteq> None \<or> ended prog s Main then None
      else case a of
        Step t \<Rightarrow>
          (case pc s t of
             None \<Rightarrow> None
           | Some i \<Rightarrow> if i < length (prog t) then exec prog t (prog t ! i) s else None)
      | Spurious t \<Rightarrow> if wait s t = Sleeping then Some (s\<lparr>wait := (wait s)(t := Woken)\<rparr>) else None)"

definition api_start :: "asys \<Rightarrow> bool" where
  "api_start s \<longleftrightarrow> s = api_initial"

section \<open>The programs\<close>

text \<open>main-deadlock.c\<close>

definition deadlock_worker :: "nat \<Rightarrow> instr list" where
  "deadlock_worker arg =
     (if arg = 0 then [Lock M1, Lock M2] else [Lock M2, Lock M1]) @ [Unlock M1, Unlock M2]"

definition deadlock_main :: "instr list" where
  "deadlock_main = [Create 0, Create 1, Join 0, Join 1]"

definition main_deadlock :: program where
  "main_deadlock t = (case t of Main \<Rightarrow> deadlock_main | W arg \<Rightarrow> deadlock_worker arg)"

text \<open>main-deadlock-global.c\<close>

definition global_worker :: "nat \<Rightarrow> instr list" where
  "global_worker arg =
     [Lock Mg] @ (if arg = 0 then [Lock M1, Lock M2] else [Lock M2, Lock M1]) @ [Unlock M1, Unlock M2, Unlock Mg]"

definition global_main :: "instr list" where
  "global_main = [Create 0, Create 1, Join 0, Join 1]"

definition main_deadlock_global :: program where
  "main_deadlock_global t = (case t of Main \<Rightarrow> global_main | W arg \<Rightarrow> global_worker arg)"

text \<open>main-signal.c\<close>

definition say_first :: string where "say_first = ''this should print first''"

definition say_last :: string where "say_last = ''this should print last''"

definition spin_worker :: "instr list" where
  "spin_worker = [Say say_first, Assign_done 1]"

definition spin_main :: "instr list" where
  "spin_main = [Create 0, Spin, Say say_last]"

definition main_signal :: program where
  "main_signal t = (case t of Main \<Rightarrow> spin_main | W _ \<Rightarrow> spin_worker)"

text \<open>main-signal-cv.c\<close>

definition signal_init :: "instr list" where
  "signal_init = [Assign_done 0]"

definition signal_done :: "instr list" where
  "signal_done = [Lock Ml, Assign_done 1, Signal, Unlock Ml]"

definition signal_wait :: "instr list" where
  "signal_wait = [Lock Ml, While_wait Ml, Unlock Ml]"

definition cv_worker :: "instr list" where
  "cv_worker = [Say say_first] @ signal_done"

definition cv_main :: "instr list" where
  "cv_main = signal_init @ [Create 0] @ signal_wait @ [Say say_last]"

definition main_signal_cv :: program where
  "main_signal_cv t = (case t of Main \<Rightarrow> cv_main | W _ \<Rightarrow> cv_worker)"

lemmas program_defs = deadlock_worker_def deadlock_main_def main_deadlock_def global_worker_def global_main_def
  main_deadlock_global_def spin_worker_def spin_main_def main_signal_def
  signal_init_def signal_done_def signal_wait_def cv_worker_def cv_main_def main_signal_cv_def

section \<open>Locks\<close>

text \<open>The mutexes that a thread holds after a piece of its code, and the code that locks and unlocks as it should.\<close>

fun held_after :: "instr list \<Rightarrow> mutex set \<Rightarrow> mutex set" where
  "held_after [] H = H"
| "held_after (Lock m # is) H = held_after is (insert m H)"
| "held_after (Unlock m # is) H = held_after is (H - {m})"
| "held_after (_ # is) H = held_after is H"

fun paired :: "instr list \<Rightarrow> mutex set \<Rightarrow> bool" where
  "paired [] H = (H = {})"
| "paired (Lock m # is) H = (m \<notin> H \<and> paired is (insert m H))"
| "paired (Unlock m # is) H = (m \<in> H \<and> paired is (H - {m}))"
| "paired (While_wait m # is) H = (m \<in> H \<and> paired is H)"
| "paired (_ # is) H = paired is H"

definition held_at :: "instr list \<Rightarrow> nat \<Rightarrow> mutex set" where
  "held_at code i = held_after (take i code) {}"

lemma held_after_append: "held_after (xs @ ys) H = held_after ys (held_after xs H)"
  by (induction xs H rule: held_after.induct) simp_all

lemma held_at_Suc: "i < length code \<Longrightarrow> held_at code (Suc i) = held_after [code ! i] (held_at code i)"
  by (simp add: held_at_def take_Suc_conv_app_nth held_after_append)

lemma paired_at:
  "paired code H \<Longrightarrow> i < length code \<Longrightarrow>
    (code ! i = Lock m \<longrightarrow> m \<notin> held_after (take i code) H) \<and>
    (code ! i \<in> {Unlock m, While_wait m} \<longrightarrow> m \<in> held_after (take i code) H)"
proof (induction code H arbitrary: i rule: paired.induct)
qed (auto simp: nth_Cons take_Cons split: nat.splits)

lemma paired_end: "paired code H \<Longrightarrow> held_after code H = {}"
  by (induction code H rule: paired.induct) simp_all

text \<open>What a thread holds: while it sleeps, and until it has the mutex again, all but the mutex it waits with.\<close>

definition holds :: "program \<Rightarrow> asys \<Rightarrow> tid \<Rightarrow> mutex set" where
  "holds prog s t = (case pc s t of
       None \<Rightarrow> {}
     | Some i \<Rightarrow> held_at (prog t) i - (if wait s t = Running then {} else {m. prog t ! i = While_wait m}))"

definition locks_ok :: "program \<Rightarrow> asys \<Rightarrow> bool" where
  "locks_ok prog s \<longleftrightarrow>
     bad s = None \<and> (\<forall>t m. owner s m = Some t \<longleftrightarrow> m \<in> holds prog s t) \<and>
     (\<forall>t i. pc s t = Some i \<longrightarrow> i \<le> length (prog t)) \<and> (\<exists>i. pc s Main = Some i) \<and>
     (\<forall>t. wait s t \<noteq> Running \<longrightarrow> (\<exists>i m. pc s t = Some i \<and> i < length (prog t) \<and> prog t ! i = While_wait m)) \<and>
     (\<forall>w. pc s (W w) \<noteq> None \<longleftrightarrow> Create w \<in> set (take (the (pc s Main)) (prog Main)))"

lemma locks_okD:
  assumes "locks_ok prog s"
  shows "bad s = None" "owner s m = Some t \<longleftrightarrow> m \<in> holds prog s t" "pc s t = Some i \<Longrightarrow> i \<le> length (prog t)"
    "wait s t \<noteq> Running \<Longrightarrow> \<exists>i m. pc s t = Some i \<and> i < length (prog t) \<and> prog t ! i = While_wait m"
    "pc s (W w) \<noteq> None \<longleftrightarrow> Create w \<in> set (take (the (pc s Main)) (prog Main))" "\<exists>i. pc s Main = Some i"
  using assms unfolding locks_ok_def by blast+

lemma locks_okI:
  assumes "bad s = None" "\<And>t m. owner s m = Some t \<longleftrightarrow> m \<in> holds prog s t" "\<And>t i. pc s t = Some i \<Longrightarrow> i \<le> length (prog t)"
    "\<And>t. wait s t \<noteq> Running \<Longrightarrow> \<exists>i m. pc s t = Some i \<and> i < length (prog t) \<and> prog t ! i = While_wait m"
    "\<And>w. pc s (W w) \<noteq> None \<longleftrightarrow> Create w \<in> set (take (the (pc s Main)) (prog Main))" "\<exists>i. pc s Main = Some i"
  shows "locks_ok prog s"
  using assms unfolding locks_ok_def by blast

locale paired_program =
  fixes prog :: program
  assumes paired: "paired (prog t) {}"
    and creates: "Create w \<in> set (prog t) \<Longrightarrow> t = Main"
    and create_once: "i < length (prog Main) \<Longrightarrow> prog Main ! i = Create w \<Longrightarrow> Create w \<notin> set (take i (prog Main))"
begin

lemma start_ok: "api_start s \<Longrightarrow> locks_ok prog s"
  by (rule locks_okI) (auto simp: api_start_def api_initial_def holds_def held_at_def split: if_splits)

text \<open>An instruction that is over: what the thread holds changes by that instruction.\<close>

lemma holds_advance:
  assumes "pc s t = Some i" "i < length (prog t)" "wait s t = Running" "pc s' = (pc s)(t := Some (Suc i))"
    "\<And>u. u \<noteq> t \<Longrightarrow> (wait s' u = Running) = (wait s u = Running)" "wait s' t = Running"
  shows "holds prog s' t = held_after [prog t ! i] (holds prog s t)" "u \<noteq> t \<Longrightarrow> holds prog s' u = holds prog s u"
  using assms held_at_Suc [OF assms(2)] by (auto simp: holds_def split: option.splits)

lemma advance_ok:
  assumes ok: "locks_ok prog s" and at: "pc s t = Some i" "i < length (prog t)" "wait s t = Running"
    and s': "pc s' = (pc s)(t := Some (Suc i))" "\<And>u. (wait s' u = Running) = (wait s u = Running)" "bad s' = None"
    and own: "\<And>u m. u \<noteq> t \<Longrightarrow> (owner s' m = Some u) = (owner s m = Some u)"
      "\<And>m. (owner s' m = Some t) = (m \<in> held_after [prog t ! i] (holds prog s t))"
    and no_create: "\<And>w. prog t ! i \<noteq> Create w"
  shows "locks_ok prog s'"
proof (rule locks_okI)
  note D = locks_okD [OF ok]
  have w: "wait s' t = Running" using s'(2) at(3) by blast
  show "bad s' = None" by (rule s'(3))
  show "owner s' m = Some u \<longleftrightarrow> m \<in> holds prog s' u" for u m
  proof (cases "u = t")
    case True
    then show ?thesis using own(2) holds_advance(1) [OF at s'(1) s'(2) w] by simp
  next
    case False
    then show ?thesis using own(1) [OF False] D(2) holds_advance(2) [OF at s'(1) s'(2) w False] by simp
  qed
  show "pc s' u = Some j \<Longrightarrow> j \<le> length (prog u)" for u j
    using D(3) at(2) s'(1) by (auto split: if_splits)
  show "\<exists>i m. pc s' u = Some i \<and> i < length (prog u) \<and> prog u ! i = While_wait m" if "wait s' u \<noteq> Running" for u
    using that D(4) [of u] s'(1,2) w by (cases "u = t") auto
  show "\<exists>i. pc s' Main = Some i" using D(6) s'(1) by auto
  have "Create w \<in> set (take (Suc i) (prog t)) \<longleftrightarrow> Create w \<in> set (take i (prog t))" for w
    using at(2) no_create [of w] by (simp add: take_Suc_conv_app_nth)
  then show "pc s' (W w) \<noteq> None \<longleftrightarrow> Create w \<in> set (take (the (pc s' Main)) (prog Main))" for w
    using D(5) [of w] at(1) s'(1) by (cases "t = Main") (auto split: if_splits)
qed

lemma create_ok:
  assumes ok: "locks_ok prog s" and at: "pc s t = Some i" "i < length (prog t)" "prog t ! i = Create w"
  shows "t = Main \<and> pc s (W w) = None \<and> locks_ok prog (advance t (s\<lparr>pc := (pc s)(W w := Some 0)\<rparr>))"
proof -
  note D = locks_okD [OF ok]
  have t: "t = Main" using creates [of w t] at(2,3) by (metis nth_mem)
  have n: "pc s (W w) = None"
    using D(5) [of w] create_once [of i w] at t by (cases "pc s (W w)") auto
  let ?s' = "advance t (s\<lparr>pc := (pc s)(W w := Some 0)\<rparr>)"
  have pcs: "pc ?s' = (pc s)(W w := Some 0, Main := Some (Suc i))" using t at(1) by (auto simp: advance_def)
  have fr: "wait ?s' = wait s" "owner ?s' = owner s" "bad ?s' = bad s" by (simp_all add: advance_def)
  have run: "wait s t = Running" using D(4) [of t] at by auto
  have run': "wait s (W w) = Running" using D(4) [of "W w"] n by auto
  have "locks_ok prog ?s'"
  proof (rule locks_okI)
    show "bad ?s' = None" using D(1) fr by simp
    show "owner ?s' m = Some u \<longleftrightarrow> m \<in> holds prog ?s' u" for u m
      using D(2) [of m u] fr pcs at run run' n t held_at_Suc [OF at(2)]
      by (cases u) (auto simp: holds_def held_at_def split: option.splits)
    show "pc ?s' u = Some j \<Longrightarrow> j \<le> length (prog u)" for u j
      using D(3) at(2) t unfolding pcs by (auto split: if_splits)
    show "wait ?s' u \<noteq> Running \<Longrightarrow> \<exists>i m. pc ?s' u = Some i \<and> i < length (prog u) \<and> prog u ! i = While_wait m" for u
      using D(4) [of u] run run' t unfolding pcs fr by auto
    show "\<exists>i. pc ?s' Main = Some i" unfolding pcs by simp
    have "set (take (Suc i) (prog Main)) = insert (Create w) (set (take i (prog Main)))"
      using at t by (simp add: take_Suc_conv_app_nth)
    then show "pc ?s' (W v) \<noteq> None \<longleftrightarrow> Create v \<in> set (take (the (pc ?s' Main)) (prog Main))" for v
      using D(5) [of v] at t unfolding pcs by auto
  qed
  then show ?thesis using t n by blast
qed

lemma wait_ok:
  assumes ok: "locks_ok prog s" and at: "pc s t = Some i" "i < length (prog t)" "prog t ! i = While_wait m"
    and held: "m \<in> held_at (prog t) i" and prev: "owner s m = None \<or> owner s m = Some t"
    and s': "pc s' = pc s" "wait s' = (wait s)(t := x)" "bad s' = None"
      "owner s' = (owner s)(m := if x = Running then Some t else None)"
  shows "locks_ok prog s'"
proof (rule locks_okI)
  note D = locks_okD [OF ok]
  have t: "holds prog s' t = held_at (prog t) i - (if x = Running then {} else {m})"
    "holds prog s t = held_at (prog t) i - (if wait s t = Running then {} else {m})"
    using at s' by (auto simp: holds_def)
  have u: "holds prog s' u = holds prog s u" if "u \<noteq> t" for u using that s' by (simp add: holds_def split: option.splits)
  show "owner s' m' = Some u \<longleftrightarrow> m' \<in> holds prog s' u" for m' u
  proof (cases "m' = m")
    case True
    have "m \<notin> holds prog s u" if "u \<noteq> t" using that prev D(2) [of m u] by auto
    then show ?thesis using True held t(1) u [of u] s'(4) by (cases "u = t") auto
  next
    case False
    then have "owner s' m' = owner s m'" using s'(4) by simp
    moreover have "m' \<in> holds prog s' u \<longleftrightarrow> m' \<in> holds prog s u" using False t u [of u] by (cases "u = t") auto
    ultimately show ?thesis using D(2) by simp
  qed
  show "\<exists>i m. pc s' u = Some i \<and> i < length (prog u) \<and> prog u ! i = While_wait m" if "wait s' u \<noteq> Running" for u
    using that D(4) [of u] at s' by (cases "u = t") auto
qed (use s' locks_okD [OF ok] in auto)

lemma exec_ok:
  assumes ok: "locks_ok prog s" and at: "pc s t = Some i" "i < length (prog t)"
    and ex: "exec prog t (prog t ! i) s = Some s'"
  shows "locks_ok prog s'"
proof -
  note D = locks_okD [OF ok]
  have pair: "prog t ! i = Lock m \<Longrightarrow> m \<notin> held_at (prog t) i"
    "prog t ! i \<in> {Unlock m, While_wait m} \<Longrightarrow> m \<in> held_at (prog t) i" for m
    using paired_at [OF paired at(2), of m] by (auto simp: held_at_def)
  have plain: "locks_ok prog s'"
    if "pc s' = (pc s)(t := Some (Suc i))" "\<And>u. (wait s' u = Running) = (wait s u = Running)" "bad s' = None" "wait s t = Running"
      "owner s' = owner s" "held_after [prog t ! i] (holds prog s t) = holds prog s t" "\<And>w. prog t ! i \<noteq> Create w"
    by (rule advance_ok [OF ok at that(4) that(1) that(2) that(3)]) (use that(5-7) D(2) in auto)
  have run: "wait s t = Running" if "\<And>m. prog t ! i \<noteq> While_wait m" using D(4) [of t] at that by auto
  have h: "holds prog s t = held_at (prog t) i" if "wait s t = Running" using at that by (simp add: holds_def)
  show ?thesis
  proof (cases "prog t ! i")
    case (Create w)
    then show ?thesis using create_ok [OF ok at Create] ex by (auto simp: exec_def)
  next
    case (Lock m)
    then have r: "wait s t = Running" using run by simp
    have free: "owner s m = None" and s': "s' = advance t (s\<lparr>owner := (owner s)(m := Some t)\<rparr>)"
      using ex Lock by (simp_all add: exec_def split: if_splits)
    have "m \<notin> holds prog s u" for u using free D(2) [of m u] by simp
    then show ?thesis
      by (intro advance_ok [OF ok at r]) (use s' at D(1,2) Lock free in \<open>auto simp: advance_def\<close>)
  next
    case (Unlock m)
    then have r: "wait s t = Running" using run by simp
    have "m \<in> holds prog s t" using pair(2) [of m] Unlock h [OF r] by simp
    then have mine: "owner s m = Some t" using D(2) by blast
    then have s': "s' = advance t (s\<lparr>owner := (owner s)(m := None)\<rparr>)" using ex Unlock by (simp add: exec_def)
    have "m \<notin> holds prog s u" if "u \<noteq> t" for u using mine D(2) [of m u] that by simp
    then show ?thesis
      by (intro advance_ok [OF ok at r]) (use s' at D(1,2) Unlock mine in \<open>auto simp: advance_def\<close>)
  next
    case (While_wait m)
    then have held: "m \<in> held_at (prog t) i" and ws: "wait_step t m s = Some s'" using pair(2) [of m] ex by (simp_all add: exec_def)
    show ?thesis
    proof (cases "wait s t")
      case Running
      then have mine: "owner s m = Some t" using held h D(2) by simp
      show ?thesis
      proof (cases "done_flag s = 0")
        case True
        then show ?thesis
          using ws Running mine D(1) by (intro wait_ok [OF ok at While_wait held, where x = Sleeping]) (auto simp: wait_step_def)
      next
        case False
        then show ?thesis using ws Running at D(1) While_wait by (intro plain) (auto simp: wait_step_def advance_def)
      qed
    next
      case Sleeping
      then show ?thesis using ws by (simp add: wait_step_def)
    next
      case Woken
      then show ?thesis
        using ws D(1) by (intro wait_ok [OF ok at While_wait held, where x = Running])
          (auto simp: wait_step_def split: if_splits)
    qed
  next
    case (Join w)
    then show ?thesis using ex run at D(1) by (intro plain) (auto simp: exec_def advance_def split: if_splits)
  next
    case Spin
    then show ?thesis
    proof (cases "done_flag s = 0")
      case True
      then show ?thesis using ex ok Spin by (simp add: exec_def)
    next
      case False
      then show ?thesis using ex run at D(1) Spin by (intro plain) (auto simp: exec_def advance_def)
    qed
  qed (use ex run at D(1) in \<open>intro plain; auto simp: exec_def advance_def split: if_splits\<close>)+
qed

lemma spurious_ok:
  assumes ok: "locks_ok prog s" and sl: "wait s t = Sleeping"
  shows "locks_ok prog (s\<lparr>wait := (wait s)(t := Woken)\<rparr>)" (is "locks_ok prog ?s'")
proof (rule locks_okI)
  note D = locks_okD [OF ok]
  have "holds prog ?s' u = holds prog s u" for u using sl by (simp add: holds_def split: option.splits)
  then show "owner ?s' m = Some u \<longleftrightarrow> m \<in> holds prog ?s' u" for u m using D(2) by simp
  show "wait ?s' u \<noteq> Running \<Longrightarrow> \<exists>i m. pc ?s' u = Some i \<and> i < length (prog u) \<and> prog u ! i = While_wait m" for u
    using D(4) [of u] sl by (cases "u = t") auto
qed (use locks_okD [OF ok] in auto)

lemma step_ok: "locks_ok prog s \<Longrightarrow> api_step prog a s = Some s' \<Longrightarrow> locks_ok prog s'"
  using exec_ok spurious_ok by (cases a) (auto simp: api_step_def split: if_splits option.splits)

end

sublocale paired_program \<subseteq> locks: safe_program "api_step prog" api_start "locks_ok prog"
  by unfold_locales (rule start_ok, assumption, rule step_ok)

context paired_program
begin

text \<open>A mutex that a thread wants can only be held by another thread.\<close>

lemma lock_or_held:
  assumes ok: "locks_ok prog s" and at: "pc s t = Some i" "i < length (prog t)" "prog t ! i = Lock m"
  shows "owner s m = None \<or> (\<exists>u. u \<noteq> t \<and> owner s m = Some u \<and> m \<in> holds prog s u)"
proof (cases "owner s m")
  case (Some u)
  then have u: "m \<in> holds prog s u" using locks_okD(2) [OF ok] by blast
  moreover have "m \<notin> holds prog s t"
    using paired_at [OF paired at(2), of m] at by (simp add: held_at_def holds_def)
  ultimately have "u \<noteq> t" by auto
  then show ?thesis using Some u by auto
qed simp

text \<open>Whatever is no lock, no join and no wait can be executed.\<close>

lemma exec_enabled:
  assumes ok: "locks_ok prog s" and at: "pc s t = Some i" "i < length (prog t)"
    and instr: "\<And>m. prog t ! i = Lock m \<Longrightarrow> owner s m = None" "\<And>w. prog t ! i = Join w \<Longrightarrow> ended prog s (W w)"
      "\<And>m. prog t ! i = While_wait m \<Longrightarrow> wait s t = Running \<or> wait s t = Woken \<and> owner s m = None"
    and run: "\<not> ended prog s Main"
  shows "\<exists>s'. api_step prog (Step t) s = Some s'"
proof -
  have "bad s = None" using locks_okD(1) [OF ok] .
  then have "api_step prog (Step t) s = exec prog t (prog t ! i) s" using at run by (simp add: api_step_def)
  moreover have "\<exists>s'. exec prog t (prog t ! i) s = Some s'"
    using instr by (cases "prog t ! i") (auto simp: exec_def wait_step_def split: wait.splits)
  ultimately show ?thesis by simp
qed

text \<open>Where there is one mutex, its owner can go on.\<close>

lemma owner_moves:
  assumes ok: "locks_ok prog s" and run: "\<not> ended prog s Main" and own: "owner s m = Some u"
    and one: "\<And>i m'. i < length (prog u) \<Longrightarrow> prog u ! i \<in> {Lock m', While_wait m'} \<Longrightarrow> m' = m"
    and join: "\<And>i w. i < length (prog u) \<Longrightarrow> prog u ! i = Join w \<Longrightarrow> m \<notin> held_at (prog u) i"
  shows "\<exists>s'. api_step prog (Step u) s = Some s'"
proof -
  have h: "m \<in> holds prog s u" using locks_okD(2) [OF ok] own by blast
  then obtain i where i: "pc s u = Some i" by (cases "pc s u") (simp_all add: holds_def)
  have held: "m \<in> held_at (prog u) i" using h i by (simp add: holds_def)
  have "i \<noteq> length (prog u)" using held paired_end [OF paired, of u] by (auto simp: held_at_def)
  then have lt: "i < length (prog u)" using locks_okD(3) [OF ok i] by simp
  show ?thesis
  proof (rule exec_enabled [OF ok i lt _ _ _ run])
    show "owner s m' = None" if l: "prog u ! i = Lock m'" for m'
      using lock_or_held [OF ok i lt l] own one [OF lt, of m'] l by auto
    show "ended prog s (W w)" if "prog u ! i = Join w" for w using join [OF lt that] held by simp
    show "wait s u = Running \<or> wait s u = Woken \<and> owner s m' = None" if w: "prog u ! i = While_wait m'" for m'
      using h i w one [OF lt, of m'] by (auto simp: holds_def split: if_splits)
  qed
qed

end

section \<open>Programs that end\<close>

text \<open>
  A rank of the steps that are not spurious wake-ups: what is left of the code of every thread, and how far a wait is. A signal
  makes the waiting thread start again, and is itself a step.
\<close>

definition wait_rank :: "wait \<Rightarrow> nat" where
  "wait_rank x = (case x of Running \<Rightarrow> 2 | Sleeping \<Rightarrow> 0 | Woken \<Rightarrow> 3)"

definition left :: "program \<Rightarrow> asys \<Rightarrow> tid \<Rightarrow> nat" where
  "left prog s t = (case pc s t of None \<Rightarrow> length (prog t) | Some i \<Rightarrow> length (prog t) - i)"

definition live_act :: "aact \<Rightarrow> bool" where
  "live_act a \<longleftrightarrow> (\<exists>t. a = Step t)"

definition api_rank :: "program \<Rightarrow> nat \<Rightarrow> asys \<Rightarrow> nat" where
  "api_rank prog n s = 4 * left prog s Main + wait_rank (wait s Main) + (\<Sum>w<n. 4 * left prog s (W w))"

locale ending_program = paired_program prog for prog +
  fixes workers :: nat
  assumes no_spin: "Spin \<notin> set (prog t)"
    and waiting: "While_wait m \<in> set (prog t) \<Longrightarrow> t = Main"
    and signalling: "Signal \<notin> set (prog Main)"
    and created: "Create w \<in> set (prog Main) \<Longrightarrow> w < workers"
begin

lemma left_advance:
  assumes "pc s t = Some i" "i < length (prog t)" "pc s' = (pc s)(t := Some (Suc i))"
  shows "left prog s' t < left prog s t" "u \<noteq> t \<Longrightarrow> left prog s' u = left prog s u"
  using assms by (simp_all add: left_def)

lemma rank_advance:
  assumes ok: "locks_ok prog s" and at: "pc s t = Some i" "i < length (prog t)"
    and s': "pc s' = (pc s)(t := Some (Suc i))" "wait s' Main = wait s Main \<or> t \<noteq> Main"
  shows "api_rank prog workers s' < api_rank prog workers s"
proof (cases t)
  case Main
  then have "left prog s' Main < left prog s Main" "left prog s' (W w) = left prog s (W w)" for w
    using left_advance [OF at s'(1)] by simp_all
  then show ?thesis using s'(2) Main by (simp add: api_rank_def)
next
  case (W w)
  then have w: "w < workers"
    using locks_okD(5) [OF ok, of w] at(1) created [of w] by (auto dest: in_set_takeD)
  have l: "left prog s' (W w) < left prog s (W w)" "\<And>v. v \<noteq> w \<Longrightarrow> left prog s' (W v) = left prog s (W v)"
      "left prog s' Main = left prog s Main"
    using left_advance [OF at s'(1)] W by simp_all
  then have "(\<Sum>v<workers. left prog s' (W v)) < (\<Sum>v<workers. left prog s (W v))"
    using w by (intro sum_less) simp_all
  moreover have "wait_rank (wait s' Main) \<le> wait_rank (wait s Main) + 3"
    by (simp add: wait_rank_def split: wait.splits)
  ultimately show ?thesis using l(3) by (simp add: api_rank_def flip: sum_distrib_left)
qed

lemma exec_rank:
  assumes ok: "locks_ok prog s" and at: "pc s t = Some i" "i < length (prog t)"
    and ex: "exec prog t (prog t ! i) s = Some s'" and good: "bad s' = None"
  shows "api_rank prog workers s' < api_rank prog workers s"
proof -
  have mem: "prog t ! i \<in> set (prog t)" using at(2) by simp
  show ?thesis
  proof (cases "prog t ! i")
    case (Create w)
    have c: "t = Main" "pc s (W w) = None" using create_ok [OF ok at Create] by blast+
    then have "left prog s' Main < left prog s Main" "left prog s' (W v) = left prog s (W v)" "wait s' = wait s" for v
      using ex Create at by (auto simp: exec_def advance_def left_def)
    then show ?thesis by (simp add: api_rank_def)
  next
    case (While_wait m)
    then have t: "t = Main" and ws: "wait_step t m s = Some s'" using waiting [of m t] mem ex by (auto simp: exec_def)
    have "left prog s' = left prog s" if "pc s' = pc s" using that by (simp add: left_def fun_eq_iff)
    then show ?thesis
      using ws t at good rank_advance [OF ok at, of s']
      by (cases "wait s Main")
        (auto simp: wait_step_def advance_def api_rank_def wait_rank_def split: if_splits)
  next
    case Spin
    then show ?thesis using no_spin [of t] mem by simp
  next
    case Signal
    then have "t \<noteq> Main" using signalling mem by auto
    then show ?thesis using ex Signal at by (intro rank_advance [OF ok at]) (auto simp: exec_def advance_def)
  qed (use ex at good in \<open>intro rank_advance [OF ok at]; auto simp: exec_def advance_def split: if_splits\<close>)+
qed

lemma live_rank:
  assumes ok: "locks_ok prog s" and live: "live_act a" and st: "api_step prog a s = Some s'"
  shows "api_rank prog workers s' < api_rank prog workers s"
proof -
  have "bad s' = None" using locks_okD(1) [OF step_ok [OF ok st]] .
  then show ?thesis
    using live st exec_rank [OF ok] by (auto simp: live_act_def api_step_def split: if_splits option.splits)
qed

end

end
