(* ===== verification/ApiProps.thy ===== *)
theory ApiProps
  imports ApiThreads
begin

text \<open>
  The programs of \<open>src/concurrency/threads-api\<close> one by one, as instances of the locales of \<open>ApiThreads\<close>: the deadlock of two locks
  taken in two orders and its absence under a third, and the two ways to wait for another thread.
\<close>

section \<open>The programs are paired\<close>

lemma cases_code: "(\<forall>i<length (prog Main). prog Main ! i = Create w \<longrightarrow> Create w \<notin> set (take i (prog Main))) \<longleftrightarrow>
    distinct (filter (\<lambda>x. x = Create w) (prog Main))"
  for prog :: program
proof -
  have "(\<forall>i<length xs. xs ! i = x \<longrightarrow> x \<notin> set (take i xs)) \<longleftrightarrow> distinct (filter (\<lambda>y. y = x) xs)" for xs :: "instr list" and x
    by (induction xs rule: rev_induct) (auto simp: nth_append less_Suc_eq)
  then show ?thesis .
qed

lemma paired_programI:
  assumes "\<And>t. paired (prog t) {}" "\<And>w k. Create w \<notin> set (prog (W k))" "\<And>w. distinct (filter (\<lambda>x. x = Create w) (prog Main))"
  shows "paired_program prog"
proof
  show "paired (prog t) {}" for t by (rule assms(1))
  show "Create w \<in> set (prog t) \<Longrightarrow> t = Main" for w t using assms(2) by (cases t) auto
  show "i < length (prog Main) \<Longrightarrow> prog Main ! i = Create w \<Longrightarrow> Create w \<notin> set (take i (prog Main))" for i w
    using cases_code [of prog w] assms(3) by blast
qed

lemma ending_programI:
  assumes "paired_program prog" "\<And>t. Spin \<notin> set (prog t)" "\<And>m k. While_wait m \<notin> set (prog (W k))" "Signal \<notin> set (prog Main)"
    "\<And>w. Create w \<in> set (prog Main) \<Longrightarrow> w < n"
  shows "ending_program prog n"
  using assms(1)
proof (rule ending_program.intro)
  show "ending_program_axioms prog n"
  proof
    show "While_wait m \<in> set (prog t) \<Longrightarrow> t = Main" for m t using assms(3) by (cases t) auto
  qed (use assms in auto)
qed

interpretation dlk: paired_program main_deadlock
  by (rule paired_programI) (auto simp: program_defs split: tid.splits)

interpretation gl: ending_program main_deadlock_global 2
  by (intro ending_programI paired_programI) (auto simp: program_defs split: tid.splits)

interpretation sp: paired_program main_signal
  by (rule paired_programI) (auto simp: program_defs split: tid.splits)

interpretation cv: ending_program main_signal_cv 1
  by (intro ending_programI paired_programI) (auto simp: program_defs split: tid.splits)

section \<open>Two locks in two orders\<close>

lemma nth_cases: "i < Suc n \<Longrightarrow> i = 0 \<or> (\<exists>j<n. i = Suc j)"
  by (cases i) auto

lemma global_held:
  assumes "i \<le> length (main_deadlock_global t)" "m \<in> held_at (main_deadlock_global t) i"
  shows "t \<noteq> Main \<and> Mg \<in> held_at (main_deadlock_global t) i \<and> 0 < i \<and> i < length (main_deadlock_global t)"
proof (cases t)
  case Main
  then show ?thesis using assms
    by (auto simp: program_defs held_at_def take_Cons' split: if_splits)
next
  case (W k)
  then have "i \<in> {0, 1, 2, 3, 4, 5, 6}" using assms(1) by (auto simp: program_defs split: if_splits)
  then show ?thesis using W assms(2) by (auto simp: program_defs held_at_def)
qed

lemma global_instr:
  assumes "i < length (main_deadlock_global t)"
  shows "main_deadlock_global t ! i \<noteq> While_wait m"
    "main_deadlock_global t ! i = Join w \<Longrightarrow> t = Main \<and> w < 2 \<and> 2 \<le> i"
    "t \<noteq> Main \<Longrightarrow> i \<noteq> 0 \<Longrightarrow> main_deadlock_global t ! i \<noteq> Lock Mg"
    "t = Main \<Longrightarrow> main_deadlock_global t ! i \<noteq> Lock m"
  using assms by (cases t; auto simp: program_defs nth_Cons' less_Suc_eq split: if_splits)+

lemma gl_progress:
  assumes ok: "locks_ok main_deadlock_global s" and run: "\<not> ended main_deadlock_global s Main"
  shows "\<exists>a s'. live_act a \<and> api_step main_deadlock_global a s = Some s'"
proof -
  note D = locks_okD [OF ok]
  have hold: "u \<noteq> Main \<and> Mg \<in> holds main_deadlock_global s u \<and> (\<exists>i. pc s u = Some i \<and> 0 < i \<and> i < length (main_deadlock_global u))"
    if "m \<in> holds main_deadlock_global s u" for m u
  proof (cases "pc s u")
    case (Some i)
    have "wait s u = Running" using D(4) [of u] global_instr(1) by blast
    then show ?thesis using that global_held [OF D(3) [OF Some], of m] Some by (simp add: holds_def)
  qed (use that in \<open>simp add: holds_def\<close>)
  have go: "\<exists>s'. api_step main_deadlock_global (Step u) s = Some s'"
    if "pc s u = Some i" "i < length (main_deadlock_global u)" "\<And>m. main_deadlock_global u ! i = Lock m \<Longrightarrow> owner s m = None"
      "\<And>w. main_deadlock_global u ! i = Join w \<Longrightarrow> ended main_deadlock_global s (W w)" for u i
    using gl.exec_enabled [OF ok that(1,2) that(3,4)] global_instr(1) [OF that(2)] run by blast
  show ?thesis
  proof (cases "owner s Mg")
    case (Some u)
    then have own: "Mg \<in> holds main_deadlock_global s u" using D(2) by blast
    then obtain i where i: "pc s u = Some i" "0 < i" "i < length (main_deadlock_global u)" and u: "u \<noteq> Main" using hold by blast
    have "owner s m = None" if lk: "main_deadlock_global u ! i = Lock m" for m
    proof (rule ccontr)
      assume "owner s m \<noteq> None"
      then obtain v where v: "v \<noteq> u" "m \<in> holds main_deadlock_global s v" using gl.lock_or_held [OF ok i(1,3) lk] by auto
      then have "owner s Mg = Some v" using hold [OF v(2)] D(2) by blast
      then show False using Some v(1) by simp
    qed
    moreover have "ended main_deadlock_global s (W w)" if "main_deadlock_global u ! i = Join w" for w
      using global_instr(2) [OF i(3) that] u by blast
    ultimately show ?thesis using go [OF i(1,3)] by (auto simp: live_act_def)
  next
    case None
    then have free: "owner s m = None" for m
    proof (cases "owner s m")
      case (Some v)
      then have "m \<in> holds main_deadlock_global s v" using D(2) by blast
      then have "owner s Mg = Some v" using hold D(2) by blast
      then show ?thesis using None by simp
    qed
    show ?thesis
    proof (cases "\<exists>k i. pc s (W k) = Some i \<and> i < length (main_deadlock_global (W k))")
      case True
      then obtain k i where i: "pc s (W k) = Some i" "i < length (main_deadlock_global (W k))" by blast
      then show ?thesis using go [OF i] free global_instr(2) [OF i(2)] by (auto simp: live_act_def)
    next
      case False
      obtain i where i: "pc s Main = Some i" using D(6) by blast
      then have lt: "i < length (main_deadlock_global Main)" using D(3) [OF i] run by (auto simp: ended_def)
      have "ended main_deadlock_global s (W w)" if j: "main_deadlock_global Main ! i = Join w" for w
      proof -
        have "w < 2" "2 \<le> i" using global_instr(2) [OF lt j] by auto
        then have "Create w \<in> set (take (the (pc s Main)) (main_deadlock_global Main))"
          using i lt by (auto simp: program_defs take_Cons' less_Suc_eq numeral_2_eq_2 split: if_splits)
        then obtain n where "pc s (W w) = Some n" using D(5) [of w] by blast
        then show ?thesis using D(3) [of "W w" n] False unfolding ended_def by (metis le_neq_implies_less)
      qed
      then show ?thesis using go [OF i lt] free by (auto simp: live_act_def)
    qed
  qed
qed

interpretation glt: terminating_program "api_step main_deadlock_global" api_start "locks_ok main_deadlock_global" live_act
    "\<lambda>s. ended main_deadlock_global s Main" "api_rank main_deadlock_global 2"
  by unfold_locales (use gl_progress gl.live_rank in auto)

text \<open>The schedule of the deadlock: each thread has its first lock.\<close>

definition cross :: "aact list" where
  "cross = [Step Main, Step Main, Step (W 0), Step (W 1)]"

lemmas api_defs = api_step_def exec_def advance_def ended_def api_initial_def

text \<open>
  Property C24. In \<open>main-deadlock.c\<close> each of the two threads can take its first lock, and then no thread can move and \<open>main\<close> has not
  returned. In \<open>main-deadlock-global.c\<close> the lock around both orders prevents it: in every reachable state some thread can move
  until \<open>main\<close> returns, no unlock fails, \<open>main\<close> can return, and no run is longer than 66 steps.
\<close>

theorem global_lock_prevents_deadlock:
  "(\<exists>s. run (api_step main_deadlock) cross api_initial = Some s \<and> \<not> ended main_deadlock s Main \<and>
      (\<forall>a. api_step main_deadlock a s = None)) \<and>
   (\<forall>s. reach (api_step main_deadlock_global) api_start s \<longrightarrow>
      bad s = None \<and>
      (\<not> ended main_deadlock_global s Main \<longrightarrow> (\<exists>t s'. api_step main_deadlock_global (Step t) s = Some s')) \<and>
      (\<exists>as s'. run (api_step main_deadlock_global) as s = Some s' \<and> ended main_deadlock_global s' Main)) \<and>
   (\<forall>as s. list_all live_act as \<and> run (api_step main_deadlock_global) as api_initial = Some s \<longrightarrow> length as \<le> 66)"
proof (intro conjI allI impI)
  have "\<exists>s. run (api_step main_deadlock) cross api_initial = Some s \<and> pc s = (\<lambda>_. None)(Main := Some 2, W 0 := Some 1, W 1 := Some 1) \<and>
      owner s M1 = Some (W 0) \<and> owner s M2 = Some (W 1) \<and> wait s = (\<lambda>_. Running)"
    by (simp add: cross_def api_defs program_defs fun_upd_twist numeral_2_eq_2)
  moreover have "api_step main_deadlock a s = None"
    if "pc s = (\<lambda>_. None)(Main := Some 2, W 0 := Some 1, W 1 := Some 1)" "owner s M1 = Some (W 0)" "owner s M2 = Some (W 1)"
      "wait s = (\<lambda>_. Running)" for a s
    using that by (cases a) (auto simp: api_defs program_defs)
  ultimately show "\<exists>s. run (api_step main_deadlock) cross api_initial = Some s \<and> \<not> ended main_deadlock s Main \<and>
      (\<forall>a. api_step main_deadlock a s = None)"
    by (fastforce simp: ended_def program_defs)
next
  fix s
  assume r: "reach (api_step main_deadlock_global) api_start s"
  show "bad s = None" using gl.locks.invar_reach [OF r] locks_okD(1) by blast
  show "\<exists>t s'. api_step main_deadlock_global (Step t) s = Some s'" if "\<not> ended main_deadlock_global s Main"
    using glt.never_stuck [OF r that] by (auto simp: live_act_def)
  show "\<exists>as s'. run (api_step main_deadlock_global) as s = Some s' \<and> ended main_deadlock_global s' Main"
    using glt.can_finish [OF r] by blast
next
  fix as s
  assume a: "list_all live_act as \<and> run (api_step main_deadlock_global) as api_initial = Some s"
  have "reach (api_step main_deadlock_global) api_start api_initial" by (rule reach_start) (simp add: api_start_def)
  from glt.run_length [OF this, of as s] a show "length as \<le> 66"
    by (simp add: api_rank_def left_def api_initial_def wait_rank_def program_defs numeral_2_eq_2)
qed

lemma api_reach_initial: "reach step api_start api_initial"
  by (rule reach_start) (simp add: api_start_def)

theorem global_lock_prevents_deadlock_witness:
  "\<exists>as s. run (api_step main_deadlock_global) as api_initial = Some s \<and> ended main_deadlock_global s Main \<and> bad s = None"
proof -
  note T = global_lock_prevents_deadlock
  obtain as s where s: "run (api_step main_deadlock_global) as api_initial = Some s" "ended main_deadlock_global s Main"
    using T api_reach_initial [of "api_step main_deadlock_global"] by blast
  then have "reach (api_step main_deadlock_global) api_start s" by (intro reach_run_extend [OF api_reach_initial])
  then show ?thesis using T s by blast
qed

section \<open>Waiting for a thread\<close>

definition at_least :: "asys \<Rightarrow> tid \<Rightarrow> nat \<Rightarrow> bool" where
  "at_least s t i \<longleftrightarrow> (\<exists>j. pc s t = Some j \<and> i \<le> j)"

definition order_ok :: "asys \<Rightarrow> nat \<Rightarrow> bool" where
  "order_ok s n \<longleftrightarrow> said s = (if at_least s (W 0) 1 then [say_first] else []) @ (if at_least s Main n then [say_last] else [])"

definition cv_invar :: "asys \<Rightarrow> bool" where
  "cv_invar s \<longleftrightarrow> locks_ok main_signal_cv s \<and> order_ok s 6 \<and> done_flag s = of_bool (at_least s (W 0) 3) \<and>
     (at_least s Main 4 \<longrightarrow> at_least s (W 0) 3) \<and> (wait s Main = Sleeping \<longrightarrow> \<not> at_least s (W 0) 4)"

definition spin_invar :: "asys \<Rightarrow> bool" where
  "spin_invar s \<longleftrightarrow> locks_ok main_signal s \<and> order_ok s 3 \<and> done_flag s = of_bool (at_least s (W 0) 2) \<and>
     (at_least s Main 2 \<longrightarrow> at_least s (W 0) 2)"

lemma at_least_mono: "at_least s t j \<Longrightarrow> i \<le> j \<Longrightarrow> at_least s t i"
  by (auto simp: at_least_def)

lemma at_least_here: "pc s t = Some i \<Longrightarrow> at_least s t n \<longleftrightarrow> n \<le> i"
  by (simp add: at_least_def)

lemma at_least_advance:
  "pc s t = Some i \<Longrightarrow> pc s1 = pc s \<Longrightarrow> at_least (advance t s1) u n \<longleftrightarrow> (if u = t then n \<le> Suc i else at_least s u n)"
  by (simp add: at_least_def advance_def)

lemma advance_frame: "said (advance t s) = said s" "done_flag (advance t s) = done_flag s" "wait (advance t s) = wait s"
  by (simp_all add: advance_def)

lemma cv_worker_only: "locks_ok main_signal_cv s \<Longrightarrow> pc s (W k) \<noteq> None \<Longrightarrow> k = 0"
  using locks_okD(5) [of main_signal_cv s k] by (auto simp: program_defs dest: in_set_takeD)

lemma spin_worker_only: "locks_ok main_signal s \<Longrightarrow> pc s (W k) \<noteq> None \<Longrightarrow> k = 0"
  using locks_okD(5) [of main_signal s k] by (auto simp: program_defs dest: in_set_takeD)

lemma cv_waits:
  assumes "locks_ok main_signal_cv s"
  shows "wait s (W k) = Running" "wait s Main \<noteq> Running \<Longrightarrow> pc s Main = Some 3"
proof -
  show "wait s (W k) = Running"
  proof (rule ccontr)
    assume "wait s (W k) \<noteq> Running"
    then obtain i m where "i < length (main_signal_cv (W k))" "main_signal_cv (W k) ! i = While_wait m"
      using locks_okD(4) [OF assms] by blast
    then have "While_wait m \<in> set (main_signal_cv (W k))" by (metis nth_mem)
    then show False by (simp add: program_defs)
  qed
  assume "wait s Main \<noteq> Running"
  then obtain i m where "pc s Main = Some i" "i < length (main_signal_cv Main)" "main_signal_cv Main ! i = While_wait m"
    using locks_okD(4) [OF assms] by blast
  then show "pc s Main = Some 3" by (auto simp: program_defs less_Suc_eq numeral_eq_Suc)
qed

lemma cv_invar_step:
  assumes inv: "cv_invar s" and st: "api_step main_signal_cv a s = Some s'"
  shows "cv_invar s'"
proof -
  have ok: "locks_ok main_signal_cv s" using inv by (simp add: cv_invar_def)
  have ok': "locks_ok main_signal_cv s'" using cv.step_ok [OF ok st] .
  have inv': "order_ok s 6" "done_flag s = of_bool (at_least s (W 0) 3)" "at_least s Main 4 \<Longrightarrow> at_least s (W 0) 3"
    "wait s Main = Sleeping \<Longrightarrow> \<not> at_least s (W 0) 4"
    using inv by (simp_all add: cv_invar_def)
  show ?thesis
  proof (cases a)
    case (Spurious t)
    then have "s' = s\<lparr>wait := (wait s)(t := Woken)\<rparr>" using st by (auto simp: api_step_def split: if_splits)
    then show ?thesis using inv ok' by (auto simp: cv_invar_def order_ok_def at_least_def)
  next
    case (Step t)
    then obtain i where i: "pc s t = Some i" "i < length (main_signal_cv t)"
      and ex: "exec main_signal_cv t (main_signal_cv t ! i) s = Some s'"
      using st by (auto simp: api_step_def split: if_splits option.splits)
    show ?thesis
    proof (cases t)
      case Main
      then have "i \<in> {0, 1, 2, 3, 4, 5}" using i(2) by (auto simp: program_defs)
      then consider "i = 0" | "i = 1" | "i = 2" | "i = 3" | "i = 4" | "i = 5" by blast
      then show ?thesis
      proof cases
        case 1
        have "pc s (W 0) = None" using locks_okD(5) [OF ok, of 0] 1 i Main by auto
        then show ?thesis using ex inv' ok' i Main 1
          by (auto simp: exec_def program_defs cv_invar_def order_ok_def at_least_def advance_def)
      next
        case 2
        then have "s' = advance Main (s\<lparr>pc := (pc s)(W 0 := Some 0)\<rparr>)" "pc s (W 0) = None"
          using ex Main cv.create_ok [OF ok i, of 0] by (simp_all add: exec_def program_defs)
        then show ?thesis using inv' ok' i Main 2
          by (auto simp: cv_invar_def order_ok_def at_least_def advance_def)
      next
        case 4
        then have ws: "wait_step Main Ml s = Some s'" using ex Main by (simp add: exec_def program_defs)
        show ?thesis
          using ws inv' ok' i Main 4
          by (cases "wait s Main")
            (auto simp: wait_step_def cv_invar_def order_ok_def at_least_def advance_def split: if_splits)
      next
        case 6
        then have "at_least s Main 4" using i Main by (simp add: at_least_def)
        then have "at_least s (W 0) 1" using inv'(3) at_least_mono by fastforce
        then show ?thesis using ex inv' ok' i Main 6
          by (auto simp: exec_def program_defs cv_invar_def order_ok_def at_least_def advance_def)
      qed (use ex inv' ok' i Main in
          \<open>auto simp: exec_def program_defs cv_invar_def order_ok_def at_least_def advance_def split: if_splits\<close>)
    next
      case (W k)
      then have k: "k = 0" using cv_worker_only [OF ok] i by auto
      have "i \<in> {0, 1, 2, 3, 4}" using i W by (auto simp: program_defs)
      then consider "i = 0" | "i = 1" | "i = 2" | "i = 3" | "i = 4" by blast
      then show ?thesis
      proof cases
        case 1
        then have w: "\<not> at_least s (W 0) 3" using i W k by (simp add: at_least_def)
        then have m: "\<not> at_least s Main 4" "\<not> at_least s Main 6" using inv'(3) w at_least_mono [of s Main 6 4] by auto
        moreover have "s' = advance (W 0) (s\<lparr>said := said s @ [say_first]\<rparr>)" using ex W k 1 by (simp add: exec_def program_defs)
        ultimately show ?thesis using inv' ok' i W k 1 w
          by (simp add: cv_invar_def order_ok_def at_least_advance [of s "W 0" 0] at_least_here advance_frame)
      qed (use ex inv' ok' i W k in
          \<open>auto simp: exec_def program_defs cv_invar_def order_ok_def at_least_def advance_def split: if_splits\<close>)
    qed
  qed
qed

lemma cv_instr:
  assumes "i < length (main_signal_cv t)"
  shows "main_signal_cv t ! i \<in> {Lock m, While_wait m} \<Longrightarrow> m = Ml" "main_signal_cv t ! i \<noteq> Join w"
  using assms by (cases t; auto simp: program_defs nth_Cons' split: if_splits)+

lemma cv_progress:
  assumes inv: "cv_invar s" and run: "\<not> ended main_signal_cv s Main"
  shows "\<exists>a s'. live_act a \<and> api_step main_signal_cv a s = Some s'"
proof -
  have ok: "locks_ok main_signal_cv s" using inv by (simp add: cv_invar_def)
  note D = locks_okD [OF ok]
  show ?thesis
  proof (cases "owner s Ml")
    case (Some u)
    then have "\<exists>s'. api_step main_signal_cv (Step u) s = Some s'"
      using cv_instr by (intro cv.owner_moves [OF ok run]) auto
    then show ?thesis by (auto simp: live_act_def)
  next
    case None
    have go: "\<exists>s'. api_step main_signal_cv (Step u) s = Some s'"
      if i: "pc s u = Some i" "i < length (main_signal_cv u)" and w: "wait s u \<noteq> Sleeping" for u i
    proof (rule cv.exec_enabled [OF ok i _ _ _ run])
      show "owner s m = None" if "main_signal_cv u ! i = Lock m" for m using cv_instr(1) [OF i(2), of m] that None by auto
      show "wait s u = Running \<or> wait s u = Woken \<and> owner s m = None" if "main_signal_cv u ! i = While_wait m" for m
        using cv_instr(1) [OF i(2), of m] that None w by (cases "wait s u") auto
    qed (use cv_instr(2) [OF i(2)] in blast)
    show ?thesis
    proof (cases "\<exists>i. pc s (W 0) = Some i \<and> i < length (main_signal_cv (W 0))")
      case True
      then obtain i where i: "pc s (W 0) = Some i" "i < length (main_signal_cv (W 0))" by blast
      have "wait s (W 0) \<noteq> Sleeping" using cv_waits(1) [OF ok, of 0] by simp
      then show ?thesis using go [OF i] by (auto simp: live_act_def)
    next
      case False
      obtain i where i: "pc s Main = Some i" using D(6) by blast
      then have lt: "i < length (main_signal_cv Main)" using D(3) [OF i] run by (auto simp: ended_def)
      have "wait s Main \<noteq> Sleeping"
      proof
        assume sl: "wait s Main = Sleeping"
        then have "pc s Main = Some 3" using cv_waits(2) [OF ok] by simp
        then have "Create 0 \<in> set (take (the (pc s Main)) (main_signal_cv Main))" by (simp add: program_defs)
        then obtain n where n: "pc s (W 0) = Some n" using D(5) [of 0] by blast
        then have "n = 5" using D(3) [OF n] False by (auto simp: program_defs)
        then show False using inv sl n by (simp add: cv_invar_def at_least_def)
      qed
      then show ?thesis using go [OF i lt] by (auto simp: live_act_def)
    qed
  qed
qed

lemma cv_invar_start: "api_start s \<Longrightarrow> cv_invar s"
  using cv.start_ok by (simp add: cv_invar_def order_ok_def api_start_def api_initial_def at_least_def)

interpretation cvt: terminating_program "api_step main_signal_cv" api_start cv_invar live_act
    "\<lambda>s. ended main_signal_cv s Main" "api_rank main_signal_cv 1"
proof
  show "api_start s \<Longrightarrow> cv_invar s" for s by (rule cv_invar_start)
  show "cv_invar s \<Longrightarrow> api_step main_signal_cv a s = Some s' \<Longrightarrow> cv_invar s'" for a s s' by (rule cv_invar_step)
  show "cv_invar s \<Longrightarrow> \<not> ended main_signal_cv s Main \<Longrightarrow> \<exists>a s'. live_act a \<and> api_step main_signal_cv a s = Some s'" for s
    by (rule cv_progress)
  show "cv_invar s \<Longrightarrow> live_act a \<Longrightarrow> api_step main_signal_cv a s = Some s' \<Longrightarrow>
      api_rank main_signal_cv 1 s' < api_rank main_signal_cv 1 s" for a s s'
    using cv.live_rank by (simp add: cv_invar_def)
qed

text \<open>The program that spins: without spurious wake-ups and locks, the same order.\<close>

lemma spin_invar_step:
  assumes inv: "spin_invar s" and st: "api_step main_signal a s = Some s'"
  shows "spin_invar s'"
proof -
  have ok: "locks_ok main_signal s" using inv by (simp add: spin_invar_def)
  have ok': "locks_ok main_signal s'" using sp.step_ok [OF ok st] .
  have inv': "order_ok s 3" "done_flag s = of_bool (at_least s (W 0) 2)" "at_least s Main 2 \<Longrightarrow> at_least s (W 0) 2"
    using inv by (simp_all add: spin_invar_def)
  show ?thesis
  proof (cases a)
    case (Spurious t)
    then have "s' = s\<lparr>wait := (wait s)(t := Woken)\<rparr>" using st by (auto simp: api_step_def split: if_splits)
    then show ?thesis using inv ok' by (auto simp: spin_invar_def order_ok_def at_least_def)
  next
    case (Step t)
    then obtain i where i: "pc s t = Some i" "i < length (main_signal t)"
      and ex: "exec main_signal t (main_signal t ! i) s = Some s'"
      using st by (auto simp: api_step_def split: if_splits option.splits)
    show ?thesis
    proof (cases t)
      case Main
      then have "i \<in> {0, 1, 2}" using i(2) by (auto simp: program_defs)
      then consider "i = 0" | "i = 1" | "i = 2" by blast
      then show ?thesis
      proof cases
        case 1
        then have "s' = advance Main (s\<lparr>pc := (pc s)(W 0 := Some 0)\<rparr>)" "pc s (W 0) = None"
          using ex Main sp.create_ok [OF ok i, of 0] by (simp_all add: exec_def program_defs)
        then show ?thesis using inv' ok' i Main 1 by (auto simp: spin_invar_def order_ok_def at_least_def advance_def)
      next
        case 3
        then have "at_least s Main 2" using i Main by (simp add: at_least_def)
        then have "at_least s (W 0) 1" using inv'(3) at_least_mono by fastforce
        then show ?thesis using ex inv' ok' i Main 3
          by (auto simp: exec_def program_defs spin_invar_def order_ok_def at_least_def advance_def)
      qed (use ex inv' ok' i Main in
          \<open>auto simp: exec_def program_defs spin_invar_def order_ok_def at_least_def advance_def split: if_splits\<close>)
    next
      case (W k)
      then have k: "k = 0" using spin_worker_only [OF ok] i by auto
      have "i \<in> {0, 1}" using i W by (auto simp: program_defs)
      then consider "i = 0" | "i = 1" by blast
      then show ?thesis
      proof cases
        case 1
        then have w: "\<not> at_least s (W 0) 2" using i W k by (simp add: at_least_def)
        then have m: "\<not> at_least s Main 2" "\<not> at_least s Main 3" using inv'(3) w at_least_mono [of s Main 3 2] by auto
        moreover have "s' = advance (W 0) (s\<lparr>said := said s @ [say_first]\<rparr>)" using ex W k 1 by (simp add: exec_def program_defs)
        ultimately show ?thesis using inv' ok' i W k 1 w
          by (simp add: spin_invar_def order_ok_def at_least_advance [of s "W 0" 0] at_least_here advance_frame)
      qed (use ex inv' ok' i W k in
          \<open>auto simp: exec_def program_defs spin_invar_def order_ok_def at_least_def advance_def split: if_splits\<close>)
    qed
  qed
qed

lemma spin_invar_start: "api_start s \<Longrightarrow> spin_invar s"
  using sp.start_ok by (simp add: spin_invar_def order_ok_def api_start_def api_initial_def at_least_def)

interpretation spi: safe_program "api_step main_signal" api_start spin_invar
proof
  show "api_start s \<Longrightarrow> spin_invar s" for s by (rule spin_invar_start)
  show "spin_invar s \<Longrightarrow> api_step main_signal a s = Some s' \<Longrightarrow> spin_invar s'" for a s s' by (rule spin_invar_step)
qed

lemma spin_forever:
  "run (api_step main_signal) (replicate n (Step Main)) (advance Main (api_initial\<lparr>pc := (pc api_initial)(W 0 := Some 0)\<rparr>)) =
    Some (advance Main (api_initial\<lparr>pc := (pc api_initial)(W 0 := Some 0)\<rparr>))"
  by (induction n) (simp_all add: api_defs program_defs)

text \<open>
  Property C26. In \<open>main-signal-cv.c\<close> the line of the worker always comes first: what has been printed is nothing, the first line, or
  both in order, and both when \<open>main\<close> has returned. No signal is lost: in every reachable state, also after spurious wake-ups,
  a thread can move until \<open>main\<close> returns. \<open>main-signal.c\<close> keeps the same order, but \<open>main\<close> can spin for any number of steps, and its
  test of \<open>done\<close> and the assignment of the worker can both be the next step: they race.
\<close>

theorem signal_orders_output:
  "(\<forall>s. reach (api_step main_signal_cv) api_start s \<longrightarrow>
      bad s = None \<and> said s \<in> {[], [say_first], [say_first, say_last]} \<and>
      (if ended main_signal_cv s Main then said s = [say_first, say_last]
       else \<exists>t s'. api_step main_signal_cv (Step t) s = Some s') \<and>
      (\<exists>as s'. run (api_step main_signal_cv) as s = Some s' \<and> ended main_signal_cv s' Main)) \<and>
   (\<forall>s. reach (api_step main_signal) api_start s \<longrightarrow>
      said s \<in> {[], [say_first], [say_first, say_last]} \<and>
      (ended main_signal s Main \<longrightarrow> said s = [say_first, say_last])) \<and>
   (\<forall>n. \<exists>s. run (api_step main_signal) (replicate (Suc n) (Step Main)) api_initial = Some s \<and> \<not> ended main_signal s Main) \<and>
   (\<exists>s. reach (api_step main_signal) api_start s \<and> pc s Main = Some 1 \<and> main_signal Main ! 1 = Spin \<and>
      pc s (W 0) = Some 1 \<and> main_signal (W 0) ! 1 = Assign_done 1)"
proof (intro conjI allI impI)
  fix s
  assume r: "reach (api_step main_signal_cv) api_start s"
  have inv: "cv_invar s" using cvt.invar_reach [OF r] .
  then show "bad s = None" using locks_okD(1) by (auto simp: cv_invar_def)
  have four: "at_least s (W 0) 3" if "at_least s Main 4" using inv that by (simp add: cv_invar_def)
  have said: "said s = (if at_least s (W 0) 1 then [say_first] else []) @ (if at_least s Main 6 then [say_last] else [])"
    using inv by (simp add: cv_invar_def order_ok_def)
  then show "said s \<in> {[], [say_first], [say_first, say_last]}"
    using four at_least_mono [of s Main 6 4] at_least_mono [of s "W 0" 3 1] by auto
  show "if ended main_signal_cv s Main then said s = [say_first, say_last]
      else \<exists>t s'. api_step main_signal_cv (Step t) s = Some s'"
  proof (cases "ended main_signal_cv s Main")
    case True
    then have "at_least s Main 6" by (simp add: ended_def program_defs at_least_def)
    then show ?thesis
      using True said four at_least_mono [of s Main 6 4] at_least_mono [of s "W 0" 3 1] by simp
  next
    case False
    then show ?thesis using cvt.never_stuck [OF r False] by (auto simp: live_act_def)
  qed
  show "\<exists>as s'. run (api_step main_signal_cv) as s = Some s' \<and> ended main_signal_cv s' Main"
    using cvt.can_finish [OF r] by blast
next
  fix s
  assume r: "reach (api_step main_signal) api_start s"
  have inv: "spin_invar s" using spi.invar_reach [OF r] .
  have two: "at_least s (W 0) 2" if "at_least s Main 2" using inv that by (simp add: spin_invar_def)
  have said: "said s = (if at_least s (W 0) 1 then [say_first] else []) @ (if at_least s Main 3 then [say_last] else [])"
    using inv by (simp add: spin_invar_def order_ok_def)
  then show "said s \<in> {[], [say_first], [say_first, say_last]}"
    using two at_least_mono [of s Main 3 2] at_least_mono [of s "W 0" 2 1] by auto
  show "said s = [say_first, say_last]" if "ended main_signal s Main"
  proof -
    have "at_least s Main 3" using that by (simp add: ended_def program_defs at_least_def)
    then show ?thesis using said two at_least_mono [of s Main 3 2] at_least_mono [of s "W 0" 2 1] by simp
  qed
next
  fix n
  have "api_step main_signal (Step Main) api_initial =
      Some (advance Main (api_initial\<lparr>pc := (pc api_initial)(W 0 := Some 0)\<rparr>))"
    by (simp add: api_defs program_defs)
  then show "\<exists>s. run (api_step main_signal) (replicate (Suc n) (Step Main)) api_initial = Some s \<and> \<not> ended main_signal s Main"
    using spin_forever [of n] by (simp add: ended_def program_defs advance_def api_initial_def)
next
  have "\<exists>s. run (api_step main_signal) [Step Main, Step (W 0)] api_initial = Some s \<and> pc s Main = Some 1 \<and> pc s (W 0) = Some 1"
    by (simp add: api_defs program_defs)
  then obtain s where s: "run (api_step main_signal) [Step Main, Step (W 0)] api_initial = Some s" "pc s Main = Some 1"
      "pc s (W 0) = Some 1"
    by blast
  have "reach (api_step main_signal) api_start s" by (rule reach_run [OF _ s(1)]) (simp add: api_start_def)
  then show "\<exists>s. reach (api_step main_signal) api_start s \<and> pc s Main = Some 1 \<and> main_signal Main ! 1 = Spin \<and>
      pc s (W 0) = Some 1 \<and> main_signal (W 0) ! 1 = Assign_done 1"
    using s by (auto simp: program_defs)
qed

theorem signal_orders_output_witness:
  "\<exists>as s. run (api_step main_signal_cv) as api_initial = Some s \<and> ended main_signal_cv s Main \<and> said s = [say_first, say_last]"
proof -
  note T = signal_orders_output
  obtain as s where s: "run (api_step main_signal_cv) as api_initial = Some s" "ended main_signal_cv s Main"
    using T api_reach_initial [of "api_step main_signal_cv"] by blast
  then have "reach (api_step main_signal_cv) api_start s" by (intro reach_run_extend [OF api_reach_initial])
  then have "said s = [say_first, say_last]" using T s(2) by presburger
  then show ?thesis using s by blast
qed

end
