(* ===== verification/MainRace.thy ===== *)
theory MainRace
  imports Prelude
begin

text \<open>
  \<open>src/concurrency/threads-api/main-race.c\<close>: two threads increment \<open>balance\<close> under one mutex. Unlike the other programs of the directory
  it calls the \<open>pthread\<close> functions without the wrappers that stop at an error: a failure of \<open>pthread_create\<close> or \<open>pthread_join\<close> is not
  looked at, a failure of the others is only reported. Every thread is at a program point, and a step executes what is there; whether
  the call there succeeds is part of the action, so that the runs with failing calls are runs of the model. An unlock of a mutex that
  the thread does not hold is undefined, and so is a join of the thread that was not created.
\<close>

section \<open>The program\<close>

datatype tid = Main | Worker

datatype point = Not_created | Create | Lock | Load | Store | Unlock | Join | Returned

record rsys =
  pt :: "tid \<Rightarrow> point"
  owner :: "tid option"
  reg :: "tid \<Rightarrow> int"                \<comment> \<open>the \<open>balance\<close> that the increment has read\<close>
  balance :: int
  stderr :: "string list"            \<comment> \<open>the arguments of \<open>perror\<close>\<close>
  failures :: "(tid \<times> point) list"   \<comment> \<open>the calls that have failed; no code reads them\<close>
  bad :: "fault option"

definition goto :: "tid \<Rightarrow> point \<Rightarrow> rsys \<Rightarrow> rsys" where
  "goto t p s = s\<lparr>pt := (pt s)(t := p)\<rparr>"

definition fail :: "tid \<Rightarrow> string list \<Rightarrow> rsys \<Rightarrow> rsys" where
  "fail t msgs s = s\<lparr>failures := failures s @ [(t, pt s t)], stderr := stderr s @ msgs\<rparr>"

text \<open>The part that both threads have, which differs in one message; \<open>next_point\<close> is what follows it.\<close>

definition unlock_message :: "tid \<Rightarrow> string" where
  "unlock_message t = (case t of Main \<Rightarrow> ''Error: unlock.'' @ [CHR 0x0A] | Worker \<Rightarrow> ''Error: unlocking catastrophy!'')"

definition increment :: "tid \<Rightarrow> bool \<Rightarrow> point \<Rightarrow> rsys \<Rightarrow> rsys option" where
  "increment t ok next_point s = (case pt s t of
       Lock \<Rightarrow>
         if \<not> ok then Some (goto t Load (fail t [''Error: threading catastrophy!''] s))
         else if owner s = None then Some (goto t Load (s\<lparr>owner := Some t\<rparr>)) else None
     | Load \<Rightarrow> if ok then Some (goto t Store (s\<lparr>reg := (reg s)(t := balance s)\<rparr>)) else None
     | Store \<Rightarrow> if ok then Some (goto t Unlock (s\<lparr>balance := reg s t + 1\<rparr>)) else None
     | Unlock \<Rightarrow>
         if owner s \<noteq> Some t then Some (s\<lparr>bad := Some Not_owner\<rparr>)
         else if ok then Some (goto t next_point (s\<lparr>owner := None\<rparr>))
         else Some (goto t next_point (fail t [unlock_message t] s))
     | _ \<Rightarrow> None)"

definition worker :: "bool \<Rightarrow> rsys \<Rightarrow> rsys option" where
  "worker ok s = increment Worker ok Returned s"

text \<open>
  \<open>main\<close>. A \<open>pthread_create\<close> that fails leaves \<open>p\<close> without a value, which the join then uses.
\<close>

definition main :: "bool \<Rightarrow> rsys \<Rightarrow> rsys option" where
  "main ok s = (case pt s Main of
       Create \<Rightarrow> Some (goto Main Lock (if ok then goto Worker Lock s else fail Main [] s))
     | Join \<Rightarrow>
         if pt s Worker = Not_created then Some (s\<lparr>bad := Some Uninitialised\<rparr>)
         else if \<not> ok then Some (goto Main Returned (fail Main [] s))
         else if pt s Worker = Returned then Some (goto Main Returned s) else None
     | _ \<Rightarrow> increment Main ok Join s)"

text \<open>The process ends with the return of \<open>main\<close>.\<close>

definition race_step :: "tid \<times> bool \<Rightarrow> rsys \<Rightarrow> rsys option" where
  "race_step a s =
     (if bad s \<noteq> None \<or> pt s Main = Returned then None
      else case a of (Main, ok) \<Rightarrow> main ok s | (Worker, ok) \<Rightarrow> worker ok s)"

definition race_initial :: rsys where
  "race_initial = \<lparr>pt = (\<lambda>_. Not_created)(Main := Create), owner = None, reg = (\<lambda>_. 0), balance = 0, stderr = [],
     failures = [], bad = None\<rparr>"

definition race_start :: "rsys \<Rightarrow> bool" where
  "race_start s \<longleftrightarrow> s = race_initial"

text \<open>Both threads are about to access \<open>balance\<close>, and one to write it.\<close>

definition race :: "rsys \<Rightarrow> bool" where
  "race s \<longleftrightarrow> pt s Main \<in> {Load, Store} \<and> pt s Worker \<in> {Load, Store} \<and> (pt s Main = Store \<or> pt s Worker = Store)"

section \<open>The invariant\<close>

fun in_section :: "point \<Rightarrow> bool" where
  "in_section Load = True" | "in_section Store = True" | "in_section Unlock = True" | "in_section _ = False"

fun stored :: "point \<Rightarrow> bool" where
  "stored Unlock = True" | "stored Join = True" | "stored Returned = True" | "stored _ = False"

text \<open>Who is between lock and unlock holds the mutex, unless its lock failed; nobody else does, unless its unlock failed.\<close>

definition section_ok :: "rsys \<Rightarrow> bool" where
  "section_ok s \<longleftrightarrow>
     (\<forall>t. in_section (pt s t) \<longrightarrow> owner s = Some t \<or> (t, Lock) \<in> set (failures s)) \<and>
     (\<forall>t. owner s = Some t \<longrightarrow> in_section (pt s t) \<or> (t, Unlock) \<in> set (failures s))"

definition points_ok :: "rsys \<Rightarrow> bool" where
  "points_ok s \<longleftrightarrow>
     pt s Main \<noteq> Not_created \<and> pt s Worker \<noteq> Create \<and> pt s Worker \<noteq> Join \<and>
     (pt s Main = Create \<longrightarrow> pt s Worker = Not_created) \<and>
     ((Main, Create) \<in> set (failures s) \<longleftrightarrow> pt s Main \<noteq> Create \<and> pt s Worker = Not_created) \<and>
     (pt s Main = Returned \<longrightarrow> pt s Worker \<noteq> Not_created \<and> (pt s Worker = Returned \<or> (Main, Join) \<in> set (failures s)))"

definition balance_ok :: "rsys \<Rightarrow> bool" where
  "balance_ok s \<longleftrightarrow>
     0 \<le> balance s \<and> balance s \<le> of_bool (stored (pt s Main)) + of_bool (stored (pt s Worker)) \<and>
     (\<forall>t. pt s t = Store \<longrightarrow> 0 \<le> reg s t \<and> reg s t \<le> of_bool (stored (pt s Main)) + of_bool (stored (pt s Worker))) \<and>
     (failures s = [] \<longrightarrow>
       balance s = of_bool (stored (pt s Main)) + of_bool (stored (pt s Worker)) \<and> stderr s = [] \<and>
       (\<forall>t. pt s t = Store \<longrightarrow> reg s t = balance s))"

definition race_invar :: "rsys \<Rightarrow> bool" where
  "race_invar s \<longleftrightarrow> section_ok s \<and> points_ok s \<and> balance_ok s \<and> (failures s = [] \<longrightarrow> bad s = None)"

lemmas race_defs = race_step_def main_def worker_def increment_def goto_def fail_def

lemmas race_invar_defs = section_ok_def points_ok_def balance_ok_def

lemma all_tid: "(\<forall>t. P t) \<longleftrightarrow> P Main \<and> P Worker" for P :: "tid \<Rightarrow> bool"
  using tid.exhaust by metis

lemma race_invar_start: "race_start s \<Longrightarrow> race_invar s"
  by (simp add: race_start_def race_initial_def race_invar_def race_invar_defs all_tid)

lemma section_okD: "section_ok s \<Longrightarrow> in_section (pt s t) \<Longrightarrow> owner s = Some t \<or> (t, Lock) \<in> set (failures s)"
  by (simp add: section_ok_def)

lemma section_ownerD: "section_ok s \<Longrightarrow> owner s = Some t \<Longrightarrow> in_section (pt s t) \<or> (t, Unlock) \<in> set (failures s)"
  by (simp add: section_ok_def)

text \<open>The steps of the part that both threads have, by what they change.\<close>

inductive imove :: "tid \<Rightarrow> point \<Rightarrow> rsys \<Rightarrow> rsys \<Rightarrow> bool" for t q s where
  im_lock: "pt s t = Lock \<Longrightarrow> owner s = None \<Longrightarrow> imove t q s (goto t Load (s\<lparr>owner := Some t\<rparr>))"
| im_no_lock: "pt s t = Lock \<Longrightarrow> imove t q s (goto t Load (fail t msgs s))"
| im_load: "pt s t = Load \<Longrightarrow> imove t q s (goto t Store (s\<lparr>reg := (reg s)(t := balance s)\<rparr>))"
| im_store: "pt s t = Store \<Longrightarrow> imove t q s (goto t Unlock (s\<lparr>balance := reg s t + 1\<rparr>))"
| im_unlock: "pt s t = Unlock \<Longrightarrow> owner s = Some t \<Longrightarrow> imove t q s (goto t q (s\<lparr>owner := None\<rparr>))"
| im_no_unlock: "pt s t = Unlock \<Longrightarrow> owner s = Some t \<Longrightarrow> imove t q s (goto t q (fail t msgs s))"
| im_not_owner: "pt s t = Unlock \<Longrightarrow> owner s \<noteq> Some t \<Longrightarrow> imove t q s (s\<lparr>bad := Some Not_owner\<rparr>)"

lemma increment_imove: "increment t ok q s = Some s' \<Longrightarrow> imove t q s s'"
  by (cases "pt s t") (auto simp: increment_def split: if_splits intro: imove.intros)

lemma imove_section:
  assumes "imove t q s s'" "section_ok s" "q = (if t = Main then Join else Returned)"
  shows "section_ok s'"
proof (cases t)
  case Main
  show ?thesis
    using assms(1) [unfolded Main] assms(2,3) Main
    by (cases rule: imove.cases) (auto simp: section_ok_def all_tid goto_def fail_def)
next
  case Worker
  show ?thesis
    using assms(1) [unfolded Worker] assms(2,3) Worker
    by (cases rule: imove.cases) (auto simp: section_ok_def all_tid goto_def fail_def)
qed

lemma imove_points:
  assumes "imove t q s s'" "points_ok s" "q = (if t = Main then Join else Returned)"
  shows "points_ok s'"
proof (cases t)
  case Main
  show ?thesis
    using assms(1) [unfolded Main] assms(2,3) Main
    by (cases rule: imove.cases) (auto simp: points_ok_def goto_def fail_def)
next
  case Worker
  show ?thesis
    using assms(1) [unfolded Worker] assms(2,3) Worker
    by (cases rule: imove.cases) (auto simp: points_ok_def goto_def fail_def)
qed

lemma imove_balance:
  assumes "imove t q s s'" "section_ok s" "balance_ok s" "q = (if t = Main then Join else Returned)"
  shows "balance_ok s'"
proof (cases t)
  case Main
  show ?thesis
    using assms(1) [unfolded Main] assms(2-) Main
    by (cases rule: imove.cases) (auto simp: section_ok_def balance_ok_def all_tid goto_def fail_def)
next
  case Worker
  show ?thesis
    using assms(1) [unfolded Worker] assms(2-) Worker
    by (cases rule: imove.cases) (auto simp: section_ok_def balance_ok_def all_tid goto_def fail_def)
qed

lemma increment_invar:
  assumes inv: "race_invar s" "bad s = None" and st: "increment t ok q s = Some s'"
    and q: "q = (if t = Main then Join else Returned)"
  shows "race_invar s'"
proof -
  have mv: "imove t q s s'" using increment_imove [OF st] .
  have ok: "section_ok s" "points_ok s" "balance_ok s" using inv(1) by (simp_all add: race_invar_def)
  have "failures s' = [] \<longrightarrow> bad s' = None"
    using mv inv(2) section_okD [OF ok(1), of t]
    by (cases rule: imove.cases) (auto simp: goto_def fail_def)
  then show ?thesis
    using imove_section [OF mv ok(1) q] imove_points [OF mv ok(2) q] imove_balance [OF mv ok(1,3) q]
    by (simp add: race_invar_def)
qed

text \<open>The two steps that only \<open>main\<close> has.\<close>

lemma create_invar:
  assumes inv: "race_invar s" "bad s = None" and at: "pt s Main = Create"
  shows "race_invar (goto Main Lock (goto Worker Lock s))" "race_invar (goto Main Lock (fail Main [] s))"
proof -
  have ok: "section_ok s" "points_ok s" "balance_ok s" using inv(1) by (simp_all add: race_invar_def)
  have new: "pt s Worker = Not_created" using ok(2) at by (simp add: points_ok_def)
  show "race_invar (goto Main Lock (goto Worker Lock s))"
    using inv at new ok(1,2,3)
    by (simp add: race_invar_def section_ok_def points_ok_def balance_ok_def all_tid goto_def)
  show "race_invar (goto Main Lock (fail Main [] s))"
    using inv at new ok(1,2,3)
    by (simp add: race_invar_def section_ok_def points_ok_def balance_ok_def all_tid goto_def fail_def)
qed

lemma join_invar:
  assumes inv: "race_invar s" "bad s = None" and at: "pt s Main = Join"
  shows "pt s Worker = Not_created \<Longrightarrow> race_invar (s\<lparr>bad := Some Uninitialised\<rparr>)"
    "pt s Worker \<noteq> Not_created \<Longrightarrow> race_invar (goto Main Returned (fail Main [] s))"
    "pt s Worker = Returned \<Longrightarrow> race_invar (goto Main Returned s)"
proof -
  have ok: "section_ok s" "points_ok s" "balance_ok s" using inv(1) by (simp_all add: race_invar_def)
  note defs = race_invar_def section_ok_def points_ok_def balance_ok_def all_tid goto_def fail_def
  show "pt s Worker = Not_created \<Longrightarrow> race_invar (s\<lparr>bad := Some Uninitialised\<rparr>)"
    using at ok(2) ok(1,3) by (auto simp: defs)
  show "pt s Worker \<noteq> Not_created \<Longrightarrow> race_invar (goto Main Returned (fail Main [] s))"
    using at ok by (auto simp: defs)
  show "pt s Worker = Returned \<Longrightarrow> race_invar (goto Main Returned s)"
    using inv(2) at ok by (auto simp: defs)
qed

lemma race_invar_step:
  assumes inv: "race_invar s" and st: "race_step a s = Some s'"
  shows "race_invar s'"
proof -
  obtain t ok where a: "a = (t, ok)" by fastforce
  have good: "bad s = None" and run: "pt s Main \<noteq> Returned" using st by (auto simp: race_step_def split: if_splits)
  show ?thesis
  proof (cases t)
    case Worker
    then show ?thesis using st good run a increment_invar [OF inv good, of Worker ok Returned] by (simp add: race_step_def worker_def)
  next
    case Main
    have m: "main ok s = Some s'" using st good run a Main by (simp add: race_step_def)
    show ?thesis
    proof (cases "pt s Main = Create \<or> pt s Main = Join")
      case True
      then show ?thesis
        using create_invar [OF inv good] join_invar [OF inv good] m by (auto simp: main_def split: if_splits)
    next
      case False
      then have "increment Main ok Join s = Some s'" using m by (simp add: main_def split: point.splits)
      then show ?thesis using increment_invar [OF inv good, of Main ok Join] by simp
    qed
  qed
qed

section \<open>Progress and the end\<close>

fun point_rank :: "point \<Rightarrow> nat" where
  "point_rank Create = 6" | "point_rank Not_created = 5" | "point_rank Lock = 5" | "point_rank Load = 4"
| "point_rank Store = 3" | "point_rank Unlock = 2" | "point_rank Join = 1" | "point_rank Returned = 0"

definition race_rank :: "rsys \<Rightarrow> nat" where
  "race_rank s = (if bad s \<noteq> None then 0 else 1 + point_rank (pt s Main) + point_rank (pt s Worker))"

lemma imove_rank:
  assumes "imove t q s s'" "bad s = None" "point_rank q \<le> 1"
  shows "race_rank s' < race_rank s"
  using assms tid.exhaust [of t "t = Main \<or> t = Worker"]
  by (auto simp: race_rank_def goto_def fail_def elim!: imove.cases)

lemma race_rank_step:
  assumes inv: "race_invar s" and st: "race_step a s = Some s'"
  shows "race_rank s' < race_rank s"
proof -
  obtain t ok where a: "a = (t, ok)" by fastforce
  have good: "bad s = None" and run: "pt s Main \<noteq> Returned" using st by (auto simp: race_step_def split: if_splits)
  have new: "pt s Main = Create \<longrightarrow> pt s Worker = Not_created" using inv by (simp add: race_invar_def points_ok_def)
  show ?thesis
  proof (cases t)
    case Worker
    then have "increment Worker ok Returned s = Some s'" using st good run a by (simp add: race_step_def worker_def)
    then show ?thesis using imove_rank [OF increment_imove good] by simp
  next
    case Main
    have m: "main ok s = Some s'" using st good run a Main by (simp add: race_step_def)
    show ?thesis
    proof (cases "pt s Main = Create \<or> pt s Main = Join")
      case True
      then show ?thesis
        using m new good by (auto simp: main_def race_rank_def goto_def fail_def split: if_splits)
    next
      case False
      then have "increment Main ok Join s = Some s'" using m by (simp add: main_def split: point.splits)
      then show ?thesis using imove_rank [OF increment_imove good] by simp
    qed
  qed
qed

text \<open>As long as no call has failed, one of the threads can go on with a call that succeeds.\<close>

lemma race_progress:
  assumes inv: "race_invar s" and none: "failures s = []" and run: "pt s Main \<noteq> Returned"
  shows "\<exists>t s'. race_step (t, True) s = Some s'"
proof -
  have good: "bad s = None" using inv none by (simp add: race_invar_def)
  have sec: "in_section (pt s t) \<longleftrightarrow> owner s = Some t" for t
    using section_okD [of s t] section_ownerD [of s t] inv none by (auto simp: race_invar_def)
  have pts: "pt s Main \<noteq> Not_created" "pt s Worker \<noteq> Create" "pt s Worker \<noteq> Join"
      "pt s Main \<noteq> Create \<longrightarrow> pt s Worker \<noteq> Not_created"
    using inv none by (auto simp: race_invar_def points_ok_def)
  have step: "race_step (t, True) s = (case t of Main \<Rightarrow> main True s | Worker \<Rightarrow> worker True s)" for t
    using good run by (simp add: race_step_def)
  show ?thesis
  proof (cases "owner s")
    case (Some t)
    then have "pt s t = Load \<or> pt s t = Store \<or> pt s t = Unlock"
      using sec [of t] by (cases "pt s t") simp_all
    then have "\<exists>s'. race_step (t, True) s = Some s'"
      using Some by (cases t) (auto simp: step main_def worker_def increment_def)
    then show ?thesis by blast
  next
    case None
    then have out: "\<not> in_section (pt s t)" for t using sec by simp
    show ?thesis
    proof (cases "pt s Worker = Lock")
      case True
      then have "\<exists>s'. race_step (Worker, True) s = Some s'" using None by (simp add: step worker_def increment_def)
      then show ?thesis by blast
    next
      case False
      then have "pt s Worker = Not_created \<or> pt s Worker = Returned"
        using out [of Worker] pts by (cases "pt s Worker") (simp_all add:)
      then have "\<exists>s'. race_step (Main, True) s = Some s'"
        using out [of Main] pts None run by (cases "pt s Main") (auto simp: step main_def increment_def)
      then show ?thesis by blast
    qed
  qed
qed

lemma race_failures:
  "race_step (t, True) s = Some s' \<Longrightarrow> failures s' = failures s"
  by (cases t; cases "pt s t") (auto simp: race_defs split: if_splits)

interpretation mr: terminating_program race_step race_start race_invar snd
    "\<lambda>s. failures s \<noteq> [] \<or> pt s Main = Returned" race_rank
proof
  show "race_start s \<Longrightarrow> race_invar s" for s by (rule race_invar_start)
  show "race_invar s \<Longrightarrow> race_step a s = Some s' \<Longrightarrow> race_invar s'" for s a s' by (rule race_invar_step)
  show "race_invar s \<Longrightarrow> \<not> (failures s \<noteq> [] \<or> pt s Main = Returned) \<Longrightarrow> \<exists>a s'. snd a \<and> race_step a s = Some s'" for s
    using race_progress [of s] by fastforce
  show "race_invar s \<Longrightarrow> snd a \<Longrightarrow> race_step a s = Some s' \<Longrightarrow> race_rank s' < race_rank s" for s a s'
    by (rule race_rank_step)
qed

lemma race_run_failures: "list_all snd as \<Longrightarrow> run race_step as s = Some s' \<Longrightarrow> failures s' = failures s"
  by (induction as arbitrary: s) (auto split: option.splits dest!: race_failures)

lemma race_run_length: "race_invar s \<Longrightarrow> run race_step as s = Some s' \<Longrightarrow> length as + race_rank s' \<le> race_rank s"
proof (induction as arbitrary: s)
  case (Cons a as)
  then obtain u where u: "race_step a s = Some u" "run race_step as u = Some s'" by (auto split: option.splits)
  then show ?case using Cons.IH [of u] race_invar_step race_rank_step Cons.prems(1) by fastforce
qed simp

section \<open>The property\<close>

lemma race_in_section: "race s \<Longrightarrow> in_section (pt s Main) \<and> in_section (pt s Worker)"
  by (auto simp: race_def)

lemma race_excluded:
  assumes "section_ok s" "in_section (pt s Main) \<and> in_section (pt s Worker)"
  shows "\<exists>t. (t, Lock) \<in> set (failures s)"
  using section_okD [OF assms(1), of Main] section_okD [OF assms(1), of Worker] assms(2) by auto

text \<open>Only the worker's lock fails: both threads increment at once. Only the worker's unlock fails: \<open>main\<close> never gets the mutex.\<close>

definition lock_fails :: "(tid \<times> bool) list" where
  "lock_fails = [(Main, True), (Main, True), (Main, True), (Worker, False), (Worker, True)]"

definition unlock_fails :: "(tid \<times> bool) list" where
  "unlock_fails = [(Main, True), (Worker, True), (Worker, True), (Worker, True), (Worker, False)]"

lemmas race_eval = race_initial_def race_defs

lemma lock_fails_run:
  "\<exists>s. run race_step lock_fails race_initial = Some s \<and> race s \<and> failures s = [(Worker, Lock)]"
  by (simp add: lock_fails_def race_eval race_def)

lemma unlock_fails_run:
  "\<exists>s. run race_step unlock_fails race_initial = Some s \<and> failures s = [(Worker, Unlock)] \<and> pt s Main = Lock \<and>
    (\<forall>t. race_step (t, True) s = None)"
  by (simp add: unlock_fails_def race_eval all_tid)

lemma race_reach_initial: "reach race_step race_start race_initial"
  by (rule reach_start) (simp add: race_start_def)

text \<open>
  Property C25. As long as no call fails, the increments of \<open>main-race.c\<close>, unprotected by its comments, are protected: the
  two threads do not race, are never both between their lock and their unlock, the balance is the number of increments that are
  over, 2 when \<open>main\<close> returns, nothing is undefined, and the threads can go on until \<open>main\<close> returns. With failing calls every run still has
  at most 12 steps, but a failed lock, and nothing else, leads to a race, a failed unlock can keep the other thread waiting for
  ever, and where \<open>pthread_create\<close> failed \<open>main\<close> never returns: its join uses an uninitialised \<open>p\<close>.
\<close>

theorem main_race_protected:
  assumes "reach race_step race_start s"
  shows "(failures s = [] \<longrightarrow>
      bad s = None \<and> stderr s = [] \<and> \<not> race s \<and> \<not> (in_section (pt s Main) \<and> in_section (pt s Worker)) \<and>
      balance s = of_bool (stored (pt s Main)) + of_bool (stored (pt s Worker)) \<and>
      (pt s Main = Returned \<longrightarrow> balance s = 2) \<and>
      (\<exists>as s'. list_all snd as \<and> run race_step as s = Some s' \<and> failures s' = [] \<and> pt s' Main = Returned)) \<and>
    (\<forall>as s'. run race_step as race_initial = Some s' \<longrightarrow> length as \<le> 12) \<and>
    (race s \<longrightarrow> (\<exists>t. (t, Lock) \<in> set (failures s))) \<and>
    (\<exists>s'. reach race_step race_start s' \<and> race s' \<and> failures s' = [(Worker, Lock)]) \<and>
    (\<exists>s'. reach race_step race_start s' \<and> failures s' = [(Worker, Unlock)] \<and> pt s' Main = Lock \<and>
      (\<forall>t. race_step (t, True) s' = None)) \<and>
    ((Main, Create) \<in> set (failures s) \<longrightarrow> pt s Main \<noteq> Returned \<and>
      (pt s Main = Join \<and> bad s = None \<longrightarrow> (\<forall>ok. race_step (Main, ok) s = Some (s\<lparr>bad := Some Uninitialised\<rparr>))))"
proof -
  have inv: "race_invar s" using mr.invar_reach [OF assms] .
  have ok: "section_ok s" "points_ok s" "balance_ok s" using inv by (simp_all add: race_invar_def)
  have "bad s = None \<and> stderr s = [] \<and> \<not> race s \<and> \<not> (in_section (pt s Main) \<and> in_section (pt s Worker)) \<and>
      balance s = of_bool (stored (pt s Main)) + of_bool (stored (pt s Worker)) \<and> (pt s Main = Returned \<longrightarrow> balance s = 2)"
    if none: "failures s = []"
  proof -
    have ex: "\<not> (in_section (pt s Main) \<and> in_section (pt s Worker))" using race_excluded [OF ok(1)] none by auto
    moreover have "\<not> race s" using race_in_section ex by blast
    moreover have "pt s Main = Returned \<longrightarrow> pt s Worker = Returned" using ok(2) none by (simp add: points_ok_def)
    moreover have "balance s = of_bool (stored (pt s Main)) + of_bool (stored (pt s Worker))" "stderr s = []"
      using ok(3) none by (simp_all add: balance_ok_def)
    ultimately show ?thesis using inv none by (auto simp: race_invar_def)
  qed
  moreover have "\<exists>as s'. list_all snd as \<and> run race_step as s = Some s' \<and> failures s' = [] \<and> pt s' Main = Returned"
    if "failures s = []"
    using mr.can_finish [OF assms] race_run_failures that by metis
  moreover have "length as \<le> 12" if "run race_step as race_initial = Some s'" for as s'
    using race_run_length [OF mr.invar_reach [OF race_reach_initial] that] by (simp add: race_rank_def race_initial_def)
  moreover have "\<exists>t. (t, Lock) \<in> set (failures s)" if "race s"
    using race_excluded [OF ok(1)] race_in_section [OF that] by blast
  moreover have "\<exists>s'. reach race_step race_start s' \<and> race s' \<and> failures s' = [(Worker, Lock)]"
    using lock_fails_run reach_run_extend [OF race_reach_initial] by blast
  moreover have "\<exists>s'. reach race_step race_start s' \<and> failures s' = [(Worker, Unlock)] \<and> pt s' Main = Lock \<and>
      (\<forall>t. race_step (t, True) s' = None)"
    using unlock_fails_run reach_run_extend [OF race_reach_initial] by blast
  moreover have "pt s Main \<noteq> Returned \<and>
      (pt s Main = Join \<and> bad s = None \<longrightarrow> (\<forall>ok. race_step (Main, ok) s = Some (s\<lparr>bad := Some Uninitialised\<rparr>)))"
    if "(Main, Create) \<in> set (failures s)"
    using ok(2) that by (auto simp: points_ok_def race_step_def main_def)
  ultimately show ?thesis by blast
qed

theorem main_race_protected_witness:
  "\<exists>as s. list_all snd as \<and> run race_step as race_initial = Some s \<and> pt s Main = Returned"
  using main_race_protected [OF race_reach_initial] by (auto simp: race_initial_def)

end
