(* ===== verification/Textutil.thy ===== *)
theory Textutil
  imports Ctext "HOL-Library.Sublist"
begin

text \<open>
  The utilities \<open>wcat\<close> and \<open>wgrep\<close> of \<open>src/ostep-projects/initial-utilities\<close>. The file system is a parameter: \<open>fopen\<close>
  gives a file's contents, or \<^const>\<open>None\<close>. Standard output and standard error are the strings written to them. A C string ends at
  its first NUL, which a file may contain.
\<close>

section \<open>Input and strings of C\<close>

definition nul :: char where "nul = CHR 0x00"

definition cstr :: "string \<Rightarrow> string" where
  "cstr s = takeWhile (\<lambda>c. c \<noteq> nul) s"

text \<open>The length of the first line of a stream, with its newline.\<close>

fun line_length :: "string \<Rightarrow> nat" where
  "line_length [] = 0"
| "line_length (c # cs) = (if c = newline then 1 else Suc (line_length cs))"

definition getline :: "string \<Rightarrow> (string \<times> string) option" where
  "getline cs = (if cs = [] then None else Some (take (line_length cs) cs, drop (line_length cs) cs))"

text \<open>\<open>fgets\<close> into a buffer of \<open>n\<close> bytes.\<close>

definition fgets :: "nat \<Rightarrow> string \<Rightarrow> (string \<times> string) option" where
  "fgets n cs = (if cs = [] then None
     else let k = min (n - 1) (line_length cs) in Some (take k cs, drop k cs))"



lemma line_length_pos [simp]: "line_length cs = 0 \<longleftrightarrow> cs = []" "0 < line_length cs \<longleftrightarrow> cs \<noteq> []"
  by (cases cs; simp)+

lemma line_length_le: "line_length cs \<le> length cs"
  by (induction cs) auto

lemma getline_SomeD: "getline cs = Some (l, rest) \<Longrightarrow> cs = l @ rest \<and> l \<noteq> []"
  by (auto simp: getline_def split: if_splits)

lemma fgets_SomeD: "fgets n cs = Some (l, rest) \<Longrightarrow> 1 < n \<Longrightarrow> cs = l @ rest \<and> l \<noteq> [] \<and> length l < n"
  using line_length_pos [of cs] by (auto simp: fgets_def Let_def min_def split: if_splits)


lemma cstr_id: "nul \<notin> set s \<Longrightarrow> cstr s = s"
  by (simp add: cstr_def takeWhile_eq_all_conv) auto

section \<open>wcat\<close>

definition MAXLINE :: nat where "MAXLINE = 255"

function wcat_loop :: "string \<Rightarrow> string" where
  "wcat_loop cs = (case fgets MAXLINE cs of None \<Rightarrow> [] | Some (lbuf, rest) \<Rightarrow> cstr lbuf @ wcat_loop rest)"
  by pat_completeness auto
termination
proof (relation "measure length")
  fix cs lbuf rest p
  assume "fgets MAXLINE cs = Some p" "(lbuf, rest) = p"
  then have "cs = lbuf @ rest \<and> lbuf \<noteq> []" using fgets_SomeD [of MAXLINE cs lbuf rest] by (simp add: MAXLINE_def)
  then show "(rest, cs) \<in> measure length" by auto
qed simp

declare wcat_loop.simps [simp del]

fun wcat_files :: "(string \<Rightarrow> string option) \<Rightarrow> string list \<Rightarrow> int \<times> string" where
  "wcat_files fopen [] = (0, [])"
| "wcat_files fopen (f # fs) = (case fopen f of
       None \<Rightarrow> (1, ''Error: unable to open file '' @ f @ [newline])
     | Some cs \<Rightarrow> (case wcat_files fopen fs of (error, out) \<Rightarrow> (error, wcat_loop cs @ out)))"

text \<open>\<open>main\<close>: the status and what is printed.\<close>

definition wcat_main :: "(string \<Rightarrow> string option) \<Rightarrow> string list \<Rightarrow> int \<times> string" where
  "wcat_main fopen argv = (if length argv = 1 then (0, []) else wcat_files fopen (tl argv))"

section \<open>wgrep\<close>

text \<open>
  The buffer \<open>sterm\<close>: \<^const>\<open>None\<close> while nothing has been copied to it. The test \<open>sterm == '\0'\<close> compares the array's address with a
  null pointer, and is false.
\<close>

record wgrep_io =
  out :: string
  err :: string








section \<open>What they print\<close>

definition opened :: "(string \<Rightarrow> string option) \<Rightarrow> string list \<Rightarrow> string list" where
  "opened fopen fs = takeWhile (\<lambda>f. fopen f \<noteq> None) fs"

lemma opened_simps [simp]:
  "opened fopen [] = []"
  "opened fopen (f # fs) = (case fopen f of None \<Rightarrow> [] | Some cs \<Rightarrow> f # opened fopen fs)"
  by (simp_all add: opened_def split: option.splits)

lemma wcat_loop_id: "nul \<notin> set cs \<Longrightarrow> wcat_loop cs = cs"
proof (induction cs rule: wcat_loop.induct)
  case (1 cs)
  show ?case
  proof (cases "fgets MAXLINE cs")
    case None
    then show ?thesis by (simp add: wcat_loop.simps [of cs] fgets_def Let_def split: if_splits)
  next
    case (Some p)
    then obtain lbuf rest where p: "fgets MAXLINE cs = Some (lbuf, rest)" by (cases p) simp
    then have cs: "cs = lbuf @ rest" using fgets_SomeD [OF p] by (simp add: MAXLINE_def)
    then have rest: "wcat_loop rest = rest" using 1 p by simp
    have "wcat_loop cs = cstr lbuf @ wcat_loop rest" using p by (simp add: wcat_loop.simps [of cs])
    then show ?thesis using rest cs 1(2) by (simp add: cstr_id)
  qed
qed

text \<open>
  \<open>wcat\<close> prints the contents of its files one after the other, however long their lines are, up to the first that
  cannot be opened; for that it prints the error line and returns 1. (A NUL in a file hides the rest of its line from \<open>printf\<close>.)
\<close>

theorem wcat_concatenates:
  assumes "\<And>f cs. f \<in> set fs \<Longrightarrow> fopen f = Some cs \<Longrightarrow> nul \<notin> set cs"
  shows "wcat_main fopen (prog # fs) =
    (let good = opened fopen fs; out = concat (map (\<lambda>f. the (fopen f)) good)
     in if length good = length fs then (0, out)
        else (1, out @ ''Error: unable to open file '' @ fs ! length good @ [newline]))"
proof -
  have "wcat_files fopen fs =
      (let good = opened fopen fs; out = concat (map (\<lambda>f. the (fopen f)) good)
       in if length good = length fs then (0, out)
          else (1, out @ ''Error: unable to open file '' @ fs ! length good @ [newline]))"
    using assms
  proof (induction fs)
    case (Cons f fs)
    show ?case
    proof (cases "fopen f")
      case (Some cs)
      then have "wcat_loop cs = cs" using Cons.prems by (intro wcat_loop_id) auto
      moreover have "wcat_files fopen fs =
          (let good = opened fopen fs; out = concat (map (\<lambda>f. the (fopen f)) good)
           in if length good = length fs then (0, out)
              else (1, out @ ''Error: unable to open file '' @ fs ! length good @ [newline]))"
        using Cons by auto
      ultimately show ?thesis using Some by (simp add: Let_def)
    qed simp
  qed simp
  then show ?thesis by (cases fs) (simp_all add: wcat_main_def)
qed

theorem wcat_concatenates_witness:
  "wcat_main (\<lambda>f. if f = ''a'' then Some (replicate 300 (CHR ''x'')) else None) [''wcat'', ''a'', ''b''] =
    (1, replicate 300 (CHR ''x'') @ ''Error: unable to open file b'' @ [newline])"
proof -
  have "\<And>f cs. f \<in> set [''a'', ''b''] \<Longrightarrow> (if f = ''a'' then Some (replicate 300 (CHR ''x'')) else None) = Some cs \<Longrightarrow> nul \<notin> set cs"
    by (auto simp: nul_def split: if_splits)
  from wcat_concatenates [of "[''a'', ''b'']" _ "''wcat''", OF this] show ?thesis by simp
qed

text \<open>The lines of a file, and those with the term in them.\<close>

function lines_of :: "string \<Rightarrow> string list" where
  "lines_of cs = (case getline cs of None \<Rightarrow> [] | Some (l, rest) \<Rightarrow> l # lines_of rest)"
  by pat_completeness auto
termination
proof (relation "measure length")
  fix cs l rest p
  assume "getline cs = Some p" "(l, rest) = p"
  then have "cs = l @ rest \<and> l \<noteq> []" using getline_SomeD [of cs l rest] by simp
  then show "(rest, cs) \<in> measure length" by auto
qed simp

declare lines_of.simps [simp del]

lemma concat_lines_of: "concat (lines_of cs) = cs"
proof (induction cs rule: lines_of.induct)
  case (1 cs)
  show ?case
  proof (cases "getline cs")
    case None
    then show ?thesis by (simp add: lines_of.simps [of cs] getline_def split: if_splits)
  next
    case (Some p)
    then obtain l rest where p: "getline cs = Some (l, rest)" by (cases p) simp
    then have "lines_of cs = l # lines_of rest" "concat (lines_of rest) = rest" using 1 by (simp_all add: lines_of.simps [of cs])
    then show ?thesis using getline_SomeD [OF p] by simp
  qed
qed








end
