(* ===== verification/Wish.thy ===== *)
theory Wish
  imports Textutil
begin

text \<open>
  The shell \<open>src/ostep-projects/process-shell/src/main.c\<close>: the index of the search path, made by child processes, and \<open>main\<close>, which
  splits one line into arguments. A run is described by what becomes of every process it makes. The results of \<open>fork\<close>, \<open>execvp\<close> and
  \<open>malloc\<close> and what each process reads are parameters. The handler of \<open>SIGINT\<close> sets a variable that nothing reads, and the
  line with the process numbers is left out.
\<close>

section \<open>The index\<close>

text \<open>A process by the indices of the path at which it, and the ones it descends from, were the child.\<close>

type_synonym who = "nat list"

datatype fate =
    Returned                     \<comment> \<open>goes on behind \<open>indexpath\<close>\<close>
  | Failed string                \<comment> \<open>exits with 1 and the message\<close>
  | Became "string list"         \<comment> \<open>runs another program\<close>

definition search_path :: "string list" where
  "search_path = [''/usr/bin/'', ''/home/adam/.local/bin/'', ''/usr/bin'', ''/bin'']"

definition error_message :: string where
  "error_message = ''Indexing error'' @ [newline]"

text \<open>
  The loop at index \<open>i\<close>. The parent waits for a child and goes on; a child whose \<open>execvp\<close> fails goes on in the same loop.
\<close>

fun index_loop ::
    "(who \<Rightarrow> nat \<Rightarrow> bool) \<Rightarrow> (who \<Rightarrow> string list \<Rightarrow> bool) \<Rightarrow> who \<Rightarrow> nat \<Rightarrow> string list \<Rightarrow> (who \<times> fate) list" where
  "index_loop fork execvp w i [] = [(w, Returned)]"
| "index_loop fork execvp w i (dirname # path) =
     (if \<not> fork w i then [(w, Failed error_message)]
      else index_loop fork execvp w (i + 1) path @
        (let child = w @ [i]; myargs = [''ls'', ''-1'', dirname]
         in if execvp child myargs then [(child, Became myargs)] else index_loop fork execvp child (i + 1) path))"

definition indexpath :: "(who \<Rightarrow> nat \<Rightarrow> bool) \<Rightarrow> (who \<Rightarrow> string list \<Rightarrow> bool) \<Rightarrow> (who \<times> fate) list" where
  "indexpath fork execvp = index_loop fork execvp [] 0 search_path"

section \<open>The arguments\<close>

definition MAX_NUM_ARGS :: nat where "MAX_NUM_ARGS = 10"

definition DELIM :: char where "DELIM = CHR '' ''"

text \<open>
  The block \<open>args\<close>: a cell is uninitialised, a null pointer, or a token. \<^const>\<open>None\<close> instead of the block is a null pointer.
\<close>

datatype cell = Unset | Null | Token string

type_synonym block = "cell list option"

definition write_cell :: "block \<Rightarrow> nat \<Rightarrow> cell \<Rightarrow> block res" where
  "write_cell args i c = (case args of
       None \<Rightarrow> Inl Null_pointer
     | Some cells \<Rightarrow> if i < length cells then Inr (Some (cells[i := c])) else Inl Out_of_bounds)"

definition read_cell :: "block \<Rightarrow> nat \<Rightarrow> cell res" where
  "read_cell args i = (case args of
       None \<Rightarrow> Inl Null_pointer
     | Some cells \<Rightarrow>
         if length cells \<le> i then Inl Out_of_bounds
         else if cells ! i = Unset then Inl Uninitialised else Inr (cells ! i))"

definition malloc :: "(nat \<Rightarrow> bool) \<Rightarrow> nat \<Rightarrow> block" where
  "malloc room n = (if room n then Some (replicate n Unset) else None)"

definition realloc :: "(nat \<Rightarrow> bool) \<Rightarrow> block \<Rightarrow> nat \<Rightarrow> block" where
  "realloc room args n = (if room n
     then Some (case args of None \<Rightarrow> replicate n Unset | Some cells \<Rightarrow> take n cells @ replicate (n - length cells) Unset)
     else None)"

text \<open>\<open>strsep\<close>: the next token, which may be empty, and what is left of the string after it.\<close>

definition strsep :: "string option \<Rightarrow> (string \<times> string option) option" where
  "strsep str = (case str of
       None \<Rightarrow> None
     | Some s \<Rightarrow>
         let token = takeWhile (\<lambda>c. c \<noteq> DELIM) s
         in Some (token, if token = s then None else Some (drop (Suc (length token)) s)))"

text \<open>The newline at the end of a token is cut off; of an empty token the character before its first is looked at.\<close>

definition chomp :: "string \<Rightarrow> string res" where
  "chomp token =
     (if token = [] then Inl Out_of_bounds else Inr (if last token = newline then butlast token else token))"

function split_args :: "(nat \<Rightarrow> bool) \<Rightarrow> string option \<Rightarrow> nat \<Rightarrow> block \<Rightarrow> (nat \<times> block) res" where
  "split_args room str i args = (case strsep str of
       None \<Rightarrow> Inr (i, args)
     | Some (token, rest) \<Rightarrow>
         if i < MAX_NUM_ARGS
         then and_then (chomp token) (\<lambda>tok.
              and_then (write_cell args i (Token tok)) (\<lambda>args'.
                split_args room rest (i + 1) (realloc room args' (i + 1))))
         else Inr (i, args))"
  by pat_completeness auto
termination
  by (relation "measure (\<lambda>(room, str, i, args). MAX_NUM_ARGS - i)") (auto simp: MAX_NUM_ARGS_def)

declare split_args.simps [simp del]

text \<open>The loop that prints the arguments; the block bounds it.\<close>

function print_args :: "block \<Rightarrow> nat \<Rightarrow> string \<Rightarrow> string res" where
  "print_args args i acc = (case read_cell args i of
       Inl e \<Rightarrow> Inl e
     | Inr (Token tok) \<Rightarrow> print_args args (i + 1) (acc @ tok @ [newline])
     | Inr _ \<Rightarrow> Inr acc)"
  by pat_completeness auto
termination
proof (relation "measure (\<lambda>(args, i, acc). (case args of None \<Rightarrow> 0 | Some cells \<Rightarrow> length cells - i))")
  fix args i tok x and acc :: string
  assume "read_cell args i = Inr x" "x = Token tok"
  then show "((args, i + 1, acc @ tok @ [newline]), args, i, acc) \<in>
      measure (\<lambda>(args, i, acc). (case args of None \<Rightarrow> 0 | Some cells \<Rightarrow> length cells - i))"
    by (auto simp: read_cell_def split: option.splits if_splits)
qed simp

declare print_args.simps [simp del]

section \<open>main\<close>

definition fault_stop :: "'a res \<Rightarrow> stop + 'a" where
  "fault_stop r = (case r of Inl e \<Rightarrow> Inl (Fault e) | Inr x \<Rightarrow> Inr x)"

text \<open>The batch mode; the name of the file is taken from \<open>args\<close> instead of \<open>argv\<close>.\<close>

definition batch :: "(string \<Rightarrow> string option) \<Rightarrow> block \<Rightarrow> stop + string" where
  "batch fopen args = (case read_cell args 1 of
       Inl e \<Rightarrow> Inl (Fault e)
     | Inr (Token name) \<Rightarrow>
         (case fopen name of
            None \<Rightarrow> Inl (Exit_1 ''fopen'')
          | Some cs \<Rightarrow> Inr (concat (map (\<lambda>line.
              ''Retrieved line of length '' @ decimal (length line) @ '':'' @ [newline] @ line) (lines_of cs))))
     | Inr _ \<Rightarrow> Inl (Fault Null_pointer))"

text \<open>
  The interactive mode. When there is no line to read, \<open>getline\<close> may have set \<open>line\<close> to a buffer that it did not write, as the GNU
  library does (\<open>unwritten\<close>), or leave it the null pointer that it was, of which \<open>strsep\<close> makes no token.
\<close>

definition interactive :: "(nat \<Rightarrow> bool) \<Rightarrow> bool \<Rightarrow> string \<Rightarrow> block \<Rightarrow> string res" where
  "interactive room unwritten input args =
     and_then
       (case getline input of
          None \<Rightarrow> if unwritten then Inl Uninitialised else Inr None
        | Some (line, _) \<Rightarrow> Inr (Some (cstr line))) (\<lambda>str.
     and_then (split_args room str 0 args) (\<lambda>(i, args1).
     and_then (write_cell args1 i Null) (\<lambda>args2. print_args args2 0 ''wish>'')))"

datatype wish_end =
    Ended "stop + string"        \<comment> \<open>the message or fault, or what was printed\<close>
  | Exec "string list"

text \<open>A process behind the index.\<close>

definition behind_index ::
    "(who \<Rightarrow> nat \<Rightarrow> bool) \<Rightarrow> (string \<Rightarrow> string option) \<Rightarrow> (who \<Rightarrow> bool) \<Rightarrow> (who \<Rightarrow> string) \<Rightarrow> string list \<Rightarrow> block \<Rightarrow> who \<Rightarrow>
      stop + string" where
  "behind_index room fopen unwritten input argv args w =
     (if length argv = 2 then batch fopen args else fault_stop (interactive (room w) (unwritten w) (input w) args))"

text \<open>
  \<open>main\<close>, with the end of every process. The block is allocated before the processes part, \<open>room []\<close> speaks for that; \<open>room w\<close>,
  \<open>unwritten w\<close> and \<open>input w\<close> belong to process \<open>w\<close>.
\<close>

definition wish_main ::
    "(who \<Rightarrow> nat \<Rightarrow> bool) \<Rightarrow> (who \<Rightarrow> string list \<Rightarrow> bool) \<Rightarrow> (who \<Rightarrow> nat \<Rightarrow> bool) \<Rightarrow> (string \<Rightarrow> string option) \<Rightarrow>
      (who \<Rightarrow> bool) \<Rightarrow> (who \<Rightarrow> string) \<Rightarrow> string list \<Rightarrow> (who \<times> wish_end) list" where
  "wish_main fork execvp room fopen unwritten input argv =
     (if length argv \<noteq> 1 \<and> length argv \<noteq> 2
      then [([], Ended (Inl (Exit_1 (''Usage: ./wish'' @ [newline] @ ''   or: ./wish <batchfile>'' @ [newline]))))]
      else let args = malloc (room []) 1
        in map (\<lambda>(w, f). (w, case f of
              Returned \<Rightarrow> Ended (behind_index room fopen unwritten input argv args w)
            | Failed msg \<Rightarrow> Ended (Inl (Exit_1 msg))
            | Became myargs \<Rightarrow> Exec myargs))
          (indexpath fork execvp))"

section \<open>Properties\<close>

lemma index_loop_all_exec:
  "(\<And>v j. fork v j) \<Longrightarrow> (\<And>v a. execvp v a) \<Longrightarrow>
    map snd (index_loop fork execvp w i path) = Returned # rev (map (\<lambda>d. Became [''ls'', ''-1'', d]) path)"
  by (induction path arbitrary: w i) simp_all

lemma index_loop_no_exec:
  "(\<And>v j. fork v j) \<Longrightarrow> (\<And>v a. \<not> execvp v a) \<Longrightarrow>
    map snd (index_loop fork execvp w i path) = replicate (2 ^ length path) Returned"
  by (induction path arbitrary: w i) (simp_all flip: replicate_add)

lemma index_loop_fates:
  "(v, f) \<in> set (index_loop fork execvp w i path) \<Longrightarrow>
    f = Returned \<or> f = Failed error_message \<or> (\<exists>d\<in>set path. f = Became [''ls'', ''-1'', d] \<and> execvp v [''ls'', ''-1'', d])"
  by (induction path arbitrary: w i) (auto simp: Let_def split: if_splits)

lemma split_args_second:
  assumes "length cells = 1"
  shows "(\<exists>e\<in>{Out_of_bounds, Null_pointer}. split_args room str 1 (Some cells) = Inl e) \<or>
    split_args room str 1 (Some cells) = Inr (1, Some cells)"
proof (cases "strsep str")
  case None
  then show ?thesis by (simp add: split_args.simps [of _ str])
next
  case (Some p)
  then show ?thesis using assms
    by (cases p) (simp add: split_args.simps [of _ str] MAX_NUM_ARGS_def chomp_def write_cell_def)
qed

lemma split_args_null:
  "(split_args room str 1 None = Inr (1, None)) \<or> (\<exists>e\<in>{Out_of_bounds, Null_pointer}. split_args room str 1 None = Inl e)"
proof (cases "strsep str")
  case None
  then show ?thesis by (simp add: split_args.simps [of _ str])
next
  case (Some p)
  then show ?thesis
    by (cases p) (simp add: split_args.simps [of _ str] MAX_NUM_ARGS_def chomp_def write_cell_def)
qed

lemma interactive_no_line:
  "getline input = None \<Longrightarrow> interactive room False input (malloc room0 1) = (if room0 1 then Inr ''wish>'' else Inl Null_pointer)"
  by (simp add: interactive_def malloc_def split_args.simps [of _ None] strsep_def write_cell_def
      print_args.simps [of _ 0] read_cell_def)

lemma interactive_ends:
  "(if getline input = None \<and> \<not> unwritten \<and> room0 1 then interactive room unwritten input (malloc room0 1) = Inr ''wish>''
    else \<exists>e\<in>{Out_of_bounds, Null_pointer, Uninitialised}. interactive room unwritten input (malloc room0 1) = Inl e)"
proof (cases "getline input")
  case None
  then show ?thesis using interactive_no_line [OF None] by (cases unwritten) (auto simp: interactive_def)
next
  case (Some p)
  then obtain line rest where line: "getline input = Some (line, rest)" by (cases p) simp
  obtain token str where str: "strsep (Some (cstr line)) = Some (token, str)" by (simp add: strsep_def Let_def)
  have first: "split_args room (Some (cstr line)) 0 args =
      and_then (chomp token) (\<lambda>tok. and_then (write_cell args 0 (Token tok)) (\<lambda>args'. split_args room str 1 (realloc room args' 1)))"
    for args using str by (simp add: split_args.simps [of _ "Some (cstr line)"] MAX_NUM_ARGS_def)
  have "\<exists>e\<in>{Out_of_bounds, Null_pointer, Uninitialised}. interactive room unwritten input (malloc room0 1) = Inl e"
  proof (cases "token = [] \<or> \<not> room0 1")
    case True
    then show ?thesis using line first by (auto simp: interactive_def chomp_def malloc_def write_cell_def)
  next
    case False
    obtain tok where tok: "chomp token = Inr tok" using False by (simp add: chomp_def)
    have args: "split_args room (Some (cstr line)) 0 (malloc room0 1) =
        split_args room str 1 (if room 1 then Some [Token tok] else None)"
      using first False tok by (simp add: malloc_def write_cell_def realloc_def)
    show ?thesis
    proof (cases "room 1")
      case True
      then show ?thesis
        using line args split_args_second [of "[Token tok]" room str] by (auto simp: interactive_def write_cell_def)
    next
      case False
      then show ?thesis using line args split_args_null [of room str] by (auto simp: interactive_def write_cell_def)
    qed
  qed
  then show ?thesis using Some by simp
qed

lemma wish_main_index:
  assumes "length argv = 1 \<or> length argv = 2"
  shows "wish_main fork execvp room fopen unwritten input argv = map (\<lambda>(w, f). (w, case f of
        Returned \<Rightarrow> Ended (behind_index room fopen unwritten input argv (malloc (room []) 1) w)
      | Failed msg \<Rightarrow> Ended (Inl (Exit_1 msg)) | Became myargs \<Rightarrow> Exec myargs)) (indexpath fork execvp)"
proof -
  have "\<not> (length argv \<noteq> 1 \<and> length argv \<noteq> 2)" using assms by blast
  then show ?thesis unfolding wish_main_def Let_def by (rule if_not_P)
qed

lemma behind_index_ends:
  assumes "length argv = 1 \<or> length argv = 2"
  shows "if length argv = 1 \<and> getline (input w) = None \<and> \<not> unwritten w \<and> room [] 1
    then behind_index room fopen unwritten input argv (malloc (room []) 1) w = Inr ''wish>''
    else \<exists>e\<in>{Out_of_bounds, Null_pointer, Uninitialised}.
      behind_index room fopen unwritten input argv (malloc (room []) 1) w = Inl (Fault e)"
proof (cases "length argv = 2")
  case True
  then show ?thesis by (simp add: malloc_def batch_def read_cell_def behind_index_def)
next
  case False
  then show ?thesis
    using assms interactive_ends [of "input w" "unwritten w" "room []" "room w"]
    by (auto simp: fault_stop_def behind_index_def split: if_splits)
qed

lemma wish_main_process:
  assumes "length argv = 1 \<or> length argv = 2" "(w, r) \<in> set (wish_main fork execvp room fopen unwritten input argv)"
  shows "(\<exists>d\<in>set search_path. r = Exec [''ls'', ''-1'', d] \<and> execvp w [''ls'', ''-1'', d]) \<or>
    r = Ended (Inl (Exit_1 error_message)) \<or>
    r = Ended (behind_index room fopen unwritten input argv (malloc (room []) 1) w)"
proof -
  obtain f where f: "(w, f) \<in> set (indexpath fork execvp)"
    "r = (case f of Returned \<Rightarrow> Ended (behind_index room fopen unwritten input argv (malloc (room []) 1) w)
      | Failed msg \<Rightarrow> Ended (Inl (Exit_1 msg)) | Became myargs \<Rightarrow> Exec myargs)"
    using assms(2) wish_main_index [OF assms(1)] by auto
  show ?thesis using index_loop_fates [OF f(1) [unfolded indexpath_def]] f(2) by auto
qed

lemma wish_main_no_exec:
  assumes "length argv = 1 \<or> length argv = 2"
  shows "\<exists>ends. length ends = 16 \<and>
    map snd (wish_main (\<lambda>_ _. True) (\<lambda>_ _. False) room fopen unwritten input argv) = map Ended ends"
proof -
  let ?ix = "indexpath (\<lambda>_ _. True) (\<lambda>_ _. False)"
  let ?run = "\<lambda>(v, f :: fate). behind_index room fopen unwritten input argv (malloc (room []) 1) v"
  have ix: "map snd ?ix = replicate 16 Returned"
    using index_loop_no_exec [of "\<lambda>_ _. True" "\<lambda>_ _. False" "[]" 0 search_path]
    by (simp add: indexpath_def search_path_def numeral_eq_Suc)
  then have fate: "f = Returned" if "(v, f) \<in> set ?ix" for v f
    using that by (metis in_set_replicate list.set_map image_eqI snd_conv)
  have "map snd (wish_main (\<lambda>_ _. True) (\<lambda>_ _. False) room fopen unwritten input argv) = map Ended (map ?run ?ix)"
    unfolding wish_main_index [OF assms] list.map_comp
    by (rule map_cong [OF refl]) (use fate in force)
  moreover have "length (map ?run ?ix) = 16" using arg_cong [OF ix, of length] by simp
  ultimately show ?thesis by blast
qed

text \<open>
  Property C40. The ends of all processes that a run of the shell with an acceptable command line makes: it becomes \<open>ls\<close> on
  a directory of the path, exits with 1 and the message because a \<open>fork\<close> failed, or accesses memory it must not:
  in batch mode the name of the file is read behind the only cell of \<open>args\<close>, and in interactive mode, whatever is typed, a cell
  is written behind it, since the block has one cell for every token and none for the null pointer after the last. The exception is
  a process in interactive mode that finds nothing to read, whose block was granted and whose \<open>getline\<close> leaves \<open>line\<close> a null pointer:
  it prints its prompt and succeeds. Where every \<open>fork\<close> and \<open>ls\<close> works, one process gets behind the index, and sixteen where no \<open>ls\<close> can
  be executed; where the first \<open>fork\<close> fails, none does.
\<close>

theorem wish_process_ends:
  assumes "length argv = 1 \<or> length argv = 2"
  shows "((w, r) \<in> set (wish_main fork execvp room fopen unwritten input argv) \<longrightarrow>
      (\<exists>d\<in>set search_path. r = Exec [''ls'', ''-1'', d] \<and> execvp w [''ls'', ''-1'', d]) \<or>
      r = Ended (Inl (Exit_1 (''Indexing error'' @ [newline]))) \<or>
      (if length argv = 1 \<and> getline (input w) = None \<and> \<not> unwritten w \<and> room [] 1 then r = Ended (Inr ''wish>'')
       else \<exists>e\<in>{Out_of_bounds, Null_pointer, Uninitialised}. r = Ended (Inl (Fault e)))) \<and>
    (\<exists>ends. map snd (wish_main (\<lambda>_ _. True) (\<lambda>_ _. True) room fopen unwritten input argv) =
      Ended ends # map (\<lambda>d. Exec [''ls'', ''-1'', d]) (rev search_path)) \<and>
    (\<exists>ends. length ends = 16 \<and>
      map snd (wish_main (\<lambda>_ _. True) (\<lambda>_ _. False) room fopen unwritten input argv) = map Ended ends) \<and>
    (\<not> fork [] 0 \<longrightarrow> wish_main fork execvp room fopen unwritten input argv =
      [([], Ended (Inl (Exit_1 (''Indexing error'' @ [newline]))))])"
proof -
  have "(w, r) \<in> set (wish_main fork execvp room fopen unwritten input argv) \<longrightarrow>
      (\<exists>d\<in>set search_path. r = Exec [''ls'', ''-1'', d] \<and> execvp w [''ls'', ''-1'', d]) \<or>
      r = Ended (Inl (Exit_1 (''Indexing error'' @ [newline]))) \<or>
      (if length argv = 1 \<and> getline (input w) = None \<and> \<not> unwritten w \<and> room [] 1 then r = Ended (Inr ''wish>'')
       else \<exists>e\<in>{Out_of_bounds, Null_pointer, Uninitialised}. r = Ended (Inl (Fault e)))"
    (is "?made \<longrightarrow> _")
  proof
    assume ?made
    show "(\<exists>d\<in>set search_path. r = Exec [''ls'', ''-1'', d] \<and> execvp w [''ls'', ''-1'', d]) \<or>
      r = Ended (Inl (Exit_1 (''Indexing error'' @ [newline]))) \<or>
      (if length argv = 1 \<and> getline (input w) = None \<and> \<not> unwritten w \<and> room [] 1 then r = Ended (Inr ''wish>'')
       else \<exists>e\<in>{Out_of_bounds, Null_pointer, Uninitialised}. r = Ended (Inl (Fault e)))"
      using wish_main_process [OF assms \<open>?made\<close>] behind_index_ends [OF assms, of input w unwritten room fopen]
      unfolding error_message_def by (elim disjE) (auto split: if_splits)
  qed
  moreover have "\<exists>ends. map snd (wish_main (\<lambda>_ _. True) (\<lambda>_ _. True) room fopen unwritten input argv) =
      Ended ends # map (\<lambda>d. Exec [''ls'', ''-1'', d]) (rev search_path)"
    by (simp add: wish_main_index [OF assms] indexpath_def search_path_def)
  moreover have "wish_main fork execvp room fopen unwritten input argv =
      [([], Ended (Inl (Exit_1 (''Indexing error'' @ [newline]))))]" if "\<not> fork [] 0"
    using that by (simp add: wish_main_index [OF assms] indexpath_def search_path_def error_message_def)
  ultimately show ?thesis using wish_main_no_exec [OF assms] by blast
qed

theorem wish_process_ends_witness:
  "wish_main (\<lambda>_ _. False) (\<lambda>_ _. True) (\<lambda>_ _. True) (\<lambda>_. None) (\<lambda>_. True) (\<lambda>_. ''ls'') [''wish''] =
    [([], Ended (Inl (Exit_1 (''Indexing error'' @ [newline]))))]"
  using wish_process_ends [where argv = "[''wish'']" and fork = "\<lambda>_ _. False" and execvp = "\<lambda>_ _. True" and
      room = "\<lambda>_ _. True" and fopen = "\<lambda>_. None" and unwritten = "\<lambda>_. True" and input = "\<lambda>_. ''ls''"] by simp

end
