(* ===== verification/QueueThreads.thy ===== *)
theory QueueThreads
  imports ConcQueue
begin

text \<open>
  The queue of \<open>concqueue.h\<close> with any number of threads in it: \<open>Queue_Enqueue\<close> and \<open>Queue_Dequeue\<close> statement by statement, under their two
  locks, one at the tail and one at the head. A thread calls an operation whenever it is in none. An enqueue appends when it writes the
  \<open>next\<close> of the last node, a dequeue takes when it moves \<open>head\<close>; with respect to these moments the queue behaves like a list.
\<close>

section \<open>The steps\<close>

text \<open>The next statement of a thread, with the local variables that are still used.\<close>

datatype qpc =
    Outside
  | E_lock nat int      \<comment> \<open>\<open>tmp\<close>, \<open>value\<close>: lock of \<open>tail_lock\<close>\<close>
  | E_link nat int      \<comment> \<open>\<open>q->tail->next = tmp\<close>\<close>
  | E_tail nat          \<comment> \<open>\<open>q->tail = tmp\<close>\<close>
  | E_unlock
  | D_lock              \<comment> \<open>lock of \<open>head_lock\<close>\<close>
  | D_head              \<comment> \<open>\<open>tmp = q->head\<close>\<close>
  | D_next nat          \<comment> \<open>\<open>new_head = tmp->next\<close>, and the test\<close>
  | D_value nat nat     \<comment> \<open>\<open>*value = new_head->value\<close>\<close>
  | D_move nat nat      \<comment> \<open>\<open>q->head = new_head\<close>\<close>
  | D_unlock nat
  | D_free nat
  | D_empty             \<comment> \<open>unlock, and the return of -1\<close>

record qsys =
  que :: queue
  head_lock :: "nat option"    \<comment> \<open>the thread that holds it\<close>
  tail_lock :: "nat option"
  at :: "nat \<Rightarrow> qpc"
  value_of :: "nat \<Rightarrow> int"      \<comment> \<open>what the thread's \<open>*value\<close> is\<close>
  stopped :: "qstop option"

definition goto :: "nat \<Rightarrow> qpc \<Rightarrow> qsys \<Rightarrow> qsys" where
  "goto t c s = s\<lparr>at := (at s)(t := c)\<rparr>"

definition fail :: "qstop \<Rightarrow> qsys \<Rightarrow> qsys" where
  "fail e s = s\<lparr>stopped := Some e\<rparr>"

text \<open>
  \<open>Queue_Enqueue\<close> up to the lock: \<open>malloc\<close> returns \<open>NULL\<close> or any address that is not in use. The node belongs to the thread alone, so
  its two fields are filled in the same step.
\<close>

definition enq_call :: "nat \<Rightarrow> int \<Rightarrow> nat option \<Rightarrow> qsys \<Rightarrow> qsys option" where
  "enq_call t v p s = (case p of
       None \<Rightarrow> Some (fail Assertion s)
     | Some tmp \<Rightarrow>
         if heap (que s) tmp = None
         then Some (goto t (E_lock tmp v) (s\<lparr>que := (que s)\<lparr>heap := (heap (que s))(tmp \<mapsto> \<lparr>val = v, link = None\<rparr>)\<rparr>\<rparr>))
         else None)"

definition enq_step :: "nat \<Rightarrow> qsys \<Rightarrow> qsys option" where
  "enq_step t s = (case at s t of
       E_lock tmp v \<Rightarrow> if tail_lock s = None then Some (goto t (E_link tmp v) (s\<lparr>tail_lock := Some t\<rparr>)) else None
     | E_link tmp v \<Rightarrow>
         (case access (heap (que s)) (qtail (que s)) of
            Inl e \<Rightarrow> Some (fail e s)
          | Inr n \<Rightarrow> Some (goto t (E_tail tmp)
              (s\<lparr>que := (que s)\<lparr>heap := (heap (que s))(the (qtail (que s)) \<mapsto> n\<lparr>link := Some tmp\<rparr>)\<rparr>\<rparr>)))
     | E_tail tmp \<Rightarrow> Some (goto t E_unlock (s\<lparr>que := (que s)\<lparr>qtail := Some tmp\<rparr>\<rparr>))
     | E_unlock \<Rightarrow> Some (goto t Outside (s\<lparr>tail_lock := None\<rparr>))
     | _ \<Rightarrow> None)"

text \<open>The pointer \<open>head\<close> is never \<open>NULL\<close> in a queue that \<open>Queue_Init\<close> made; a null pointer is a fault where it is followed.\<close>

definition deq_step :: "nat \<Rightarrow> qsys \<Rightarrow> qsys option" where
  "deq_step t s = (let q = que s in case at s t of
       D_lock \<Rightarrow> if head_lock s = None then Some (goto t D_head (s\<lparr>head_lock := Some t\<rparr>)) else None
     | D_head \<Rightarrow>
         (case qhead q of None \<Rightarrow> Some (fail (Stop Null_pointer) s) | Some tmp \<Rightarrow> Some (goto t (D_next tmp) s))
     | D_next tmp \<Rightarrow>
         (case access (heap q) (Some tmp) of
            Inl e \<Rightarrow> Some (fail e s)
          | Inr n \<Rightarrow> (case link n of
              None \<Rightarrow> Some (goto t D_empty s)
            | Some new_head \<Rightarrow> Some (goto t (D_value tmp new_head) s)))
     | D_value tmp new_head \<Rightarrow>
         (case access (heap q) (Some new_head) of
            Inl e \<Rightarrow> Some (fail e s)
          | Inr n \<Rightarrow> Some (goto t (D_move tmp new_head) (s\<lparr>value_of := (value_of s)(t := val n)\<rparr>)))
     | D_move tmp new_head \<Rightarrow> Some (goto t (D_unlock tmp) (s\<lparr>que := q\<lparr>qhead := Some new_head\<rparr>\<rparr>))
     | D_unlock tmp \<Rightarrow> Some (goto t (D_free tmp) (s\<lparr>head_lock := None\<rparr>))
     | D_free tmp \<Rightarrow>
         (case access (heap q) (Some tmp) of
            Inl e \<Rightarrow> Some (fail e s)
          | Inr _ \<Rightarrow> Some (goto t Outside (s\<lparr>que := q\<lparr>heap := (heap q)(tmp := None)\<rparr>\<rparr>)))
     | D_empty \<Rightarrow> Some (goto t Outside (s\<lparr>head_lock := None\<rparr>))
     | _ \<Rightarrow> None)"

datatype qact =
    Call_enq nat int "nat option"   \<comment> \<open>the thread, the value, what \<open>malloc\<close> returns\<close>
  | Call_deq nat
  | Go nat

fun is_deq :: "qpc \<Rightarrow> bool" where
  "is_deq Outside = False"
| "is_deq (E_lock _ _) = False"
| "is_deq (E_link _ _) = False"
| "is_deq (E_tail _) = False"
| "is_deq E_unlock = False"
| "is_deq _ = True"

definition queue_step :: "qact \<Rightarrow> qsys \<Rightarrow> qsys option" where
  "queue_step a s =
     (if stopped s \<noteq> None then None
      else case a of
        Call_enq t v p \<Rightarrow> if at s t = Outside then enq_call t v p s else None
      | Call_deq t \<Rightarrow> if at s t = Outside then Some (goto t D_lock s) else None
      | Go t \<Rightarrow> if is_deq (at s t) then deq_step t s else enq_step t s)"

text \<open>All threads outside, with the queue that \<open>Queue_Init\<close> makes.\<close>

definition queue_initial :: "queue \<Rightarrow> qsys" where
  "queue_initial q = \<lparr>que = q, head_lock = None, tail_lock = None, at = (\<lambda>_. Outside), value_of = (\<lambda>_. 0), stopped = None\<rparr>"

definition queue_start :: "qsys \<Rightarrow> bool" where
  "queue_start s \<longleftrightarrow> (\<exists>malloc a q. malloc Map.empty = Some a \<and> Queue_Init malloc Map.empty = Inr q \<and> s = queue_initial q)"

section \<open>What the operations do to a list\<close>

text \<open>The event of a step: an enqueue takes effect, a dequeue takes effect or finds the queue empty.\<close>

datatype qevent = Enqueued int | Dequeued int | Was_empty

definition event :: "qact \<Rightarrow> qsys \<Rightarrow> qevent list" where
  "event a s = (case a of
       Go t \<Rightarrow> (case at s t of
           E_link _ v \<Rightarrow> [Enqueued v]
         | D_next tmp \<Rightarrow> if link (the (heap (que s) tmp)) = None then [Was_empty] else []
         | D_move _ _ \<Rightarrow> [Dequeued (value_of s t)]
         | _ \<Rightarrow> [])
     | _ \<Rightarrow> [])"

fun events :: "qact list \<Rightarrow> qsys \<Rightarrow> qevent list" where
  "events [] s = []"
| "events (a # as) s = event a s @ (case queue_step a s of None \<Rightarrow> [] | Some t \<Rightarrow> events as t)"

text \<open>A sequential queue performs the events: \<open>None\<close> if it could not have.\<close>

fun sequential :: "qevent list \<Rightarrow> int list \<Rightarrow> int list option" where
  "sequential [] xs = Some xs"
| "sequential (Enqueued v # es) xs = sequential es (xs @ [v])"
| "sequential (Dequeued v # es) xs = (case xs of [] \<Rightarrow> None | x # ys \<Rightarrow> if x = v then sequential es ys else None)"
| "sequential (Was_empty # es) xs = (if xs = [] then sequential es xs else None)"

lemma sequential_append:
  "sequential (es @ fs) xs = (case sequential es xs of None \<Rightarrow> None | Some ys \<Rightarrow> sequential fs ys)"
  by (induction es xs rule: sequential.induct) (simp_all split: list.splits)

section \<open>The invariant\<close>

text \<open>The node that a thread has for itself: not linked yet, or taken out and not freed yet.\<close>

fun private_node :: "qpc \<Rightarrow> nat option" where
  "private_node (E_lock a _) = Some a"
| "private_node (E_link a _) = Some a"
| "private_node (D_unlock a) = Some a"
| "private_node (D_free a) = Some a"
| "private_node _ = None"

fun in_tail :: "qpc \<Rightarrow> bool" where
  "in_tail (E_link _ _) = True"
| "in_tail (E_tail _) = True"
| "in_tail E_unlock = True"
| "in_tail _ = False"

fun in_head :: "qpc \<Rightarrow> bool" where
  "in_head D_head = True"
| "in_head (D_next _) = True"
| "in_head (D_value _ _) = True"
| "in_head (D_move _ _) = True"
| "in_head (D_unlock _) = True"
| "in_head D_empty = True"
| "in_head _ = False"

text \<open>The chain of the nodes, from the dummy \<open>d\<close> on; \<open>tail\<close> is behind while an enqueue is between its two assignments.\<close>

definition qi_chain :: "nat \<Rightarrow> nat list \<Rightarrow> qsys \<Rightarrow> bool" where
  "qi_chain d as s \<longleftrightarrow> qhead (que s) = Some d \<and> chain (heap (que s)) (Some d) (d # as) \<and> distinct (d # as)"

definition qi_tail :: "nat \<Rightarrow> nat list \<Rightarrow> qsys \<Rightarrow> bool" where
  "qi_tail d as s \<longleftrightarrow> (\<forall>t a. at s t = E_tail a \<longrightarrow> a = last (d # as)) \<and>
     ((\<forall>t a. at s t \<noteq> E_tail a) \<longrightarrow> qtail (que s) = Some (last (d # as)))"

definition held_by :: "(qpc \<Rightarrow> bool) \<Rightarrow> nat option \<Rightarrow> (nat \<Rightarrow> qpc) \<Rightarrow> bool" where
  "held_by region lock f \<longleftrightarrow> (\<forall>t. region (f t) \<longleftrightarrow> lock = Some t)"

definition qi_locks :: "qsys \<Rightarrow> bool" where
  "qi_locks s \<longleftrightarrow> held_by in_tail (tail_lock s) (at s) \<and> held_by in_head (head_lock s) (at s)"

definition qi_private :: "nat \<Rightarrow> nat list \<Rightarrow> qsys \<Rightarrow> bool" where
  "qi_private d as s \<longleftrightarrow> (\<forall>t a. private_node (at s t) = Some a \<longrightarrow>
     heap (que s) a \<noteq> None \<and> a \<notin> set (d # as) \<and> (\<forall>u. private_node (at s u) = Some a \<longrightarrow> u = t))"

definition qi_nodes :: "qsys \<Rightarrow> bool" where
  "qi_nodes s \<longleftrightarrow> (\<forall>t a v. at s t = E_lock a v \<or> at s t = E_link a v \<longrightarrow> heap (que s) a = Some \<lparr>val = v, link = None\<rparr>)"

definition qi_deq :: "nat \<Rightarrow> nat list \<Rightarrow> qsys \<Rightarrow> bool" where
  "qi_deq d as s \<longleftrightarrow> (\<forall>t. case at s t of
       D_next tmp \<Rightarrow> tmp = d
     | D_value tmp n \<Rightarrow> tmp = d \<and> as \<noteq> [] \<and> n = hd as
     | D_move tmp n \<Rightarrow> tmp = d \<and> as \<noteq> [] \<and> n = hd as \<and> value_of s t = val (the (heap (que s) n))
     | _ \<Rightarrow> True)"

definition qi_stop :: "qsys \<Rightarrow> bool" where
  "qi_stop s \<longleftrightarrow> stopped s = None \<or> stopped s = Some Assertion"

definition queue_inv :: "nat \<Rightarrow> nat list \<Rightarrow> qsys \<Rightarrow> bool" where
  "queue_inv d as s \<longleftrightarrow> qi_chain d as s \<and> qi_tail d as s \<and> qi_locks s \<and> qi_private d as s \<and> qi_nodes s \<and>
     qi_deq d as s \<and> qi_stop s"

text \<open>The steps that are possible under the invariant, with what they do to the list of the nodes.\<close>

inductive qmove :: "nat \<Rightarrow> nat list \<Rightarrow> qact \<Rightarrow> qsys \<Rightarrow> nat \<Rightarrow> nat list \<Rightarrow> qsys \<Rightarrow> bool" where
  m_abort: "qmove d as (Call_enq t v None) s d as (fail Assertion s)"
| m_call: "at s t = Outside \<Longrightarrow> heap (que s) a = None \<Longrightarrow> qmove d as (Call_enq t v (Some a)) s d as
    (goto t (E_lock a v) (s\<lparr>que := (que s)\<lparr>heap := (heap (que s))(a \<mapsto> \<lparr>val = v, link = None\<rparr>)\<rparr>\<rparr>))"
| m_deq: "at s t = Outside \<Longrightarrow> qmove d as (Call_deq t) s d as (goto t D_lock s)"
| m_tlock: "at s t = E_lock a v \<Longrightarrow> tail_lock s = None \<Longrightarrow>
    qmove d as (Go t) s d as (goto t (E_link a v) (s\<lparr>tail_lock := Some t\<rparr>))"
| m_link: "at s t = E_link a v \<Longrightarrow> qtail (que s) = Some (last (d # as)) \<Longrightarrow> heap (que s) (last (d # as)) = Some n \<Longrightarrow>
    qmove d as (Go t) s d (as @ [a]) (goto t (E_tail a)
      (s\<lparr>que := (que s)\<lparr>heap := (heap (que s))(last (d # as) \<mapsto> n\<lparr>link := Some a\<rparr>)\<rparr>\<rparr>))"
| m_tail: "at s t = E_tail a \<Longrightarrow>
    qmove d as (Go t) s d as (goto t E_unlock (s\<lparr>que := (que s)\<lparr>qtail := Some a\<rparr>\<rparr>))"
| m_tunlock: "at s t = E_unlock \<Longrightarrow> qmove d as (Go t) s d as (goto t Outside (s\<lparr>tail_lock := None\<rparr>))"
| m_hlock: "at s t = D_lock \<Longrightarrow> head_lock s = None \<Longrightarrow>
    qmove d as (Go t) s d as (goto t D_head (s\<lparr>head_lock := Some t\<rparr>))"
| m_head: "at s t = D_head \<Longrightarrow> qmove d as (Go t) s d as (goto t (D_next d) s)"
| m_empty: "at s t = D_next d \<Longrightarrow> link (the (heap (que s) d)) = None \<Longrightarrow>
    qmove d [] (Go t) s d [] (goto t D_empty s)"
| m_next: "at s t = D_next d \<Longrightarrow> link (the (heap (que s) d)) = Some a \<Longrightarrow>
    qmove d (a # as) (Go t) s d (a # as) (goto t (D_value d a) s)"
| m_value: "at s t = D_value d a \<Longrightarrow> heap (que s) a = Some n \<Longrightarrow>
    qmove d (a # as) (Go t) s d (a # as) (goto t (D_move d a) (s\<lparr>value_of := (value_of s)(t := val n)\<rparr>))"
| m_move: "at s t = D_move d a \<Longrightarrow>
    qmove d (a # as) (Go t) s a as (goto t (D_unlock d) (s\<lparr>que := (que s)\<lparr>qhead := Some a\<rparr>\<rparr>))"
| m_hunlock: "at s t = D_unlock a \<Longrightarrow> qmove d as (Go t) s d as (goto t (D_free a) (s\<lparr>head_lock := None\<rparr>))"
| m_free: "at s t = D_free a \<Longrightarrow> qmove d as (Go t) s d as
    (goto t Outside (s\<lparr>que := (que s)\<lparr>heap := (heap (que s))(a := None)\<rparr>\<rparr>))"
| m_hempty: "at s t = D_empty \<Longrightarrow> qmove d as (Go t) s d as (goto t Outside (s\<lparr>head_lock := None\<rparr>))"

lemma qi_locksD:
  "qi_locks s \<Longrightarrow> in_tail (at s t) = (tail_lock s = Some t)"
  "qi_locks s \<Longrightarrow> in_head (at s t) = (head_lock s = Some t)"
  by (simp_all add: qi_locks_def held_by_def)

lemma held_by_same: "held_by R l f \<Longrightarrow> R c = R (f t) \<Longrightarrow> held_by R l (f(t := c))"
  by (simp add: held_by_def)

lemma held_by_take: "held_by R None f \<Longrightarrow> R c \<Longrightarrow> held_by R (Some t) (f(t := c))"
  by (auto simp: held_by_def)

lemma held_by_drop: "held_by R l f \<Longrightarrow> R (f t) \<Longrightarrow> \<not> R c \<Longrightarrow> held_by R None (f(t := c))"
  by (auto simp: held_by_def)

lemma in_tail_unique: "qi_locks s \<Longrightarrow> in_tail (at s t) \<Longrightarrow> in_tail (at s u) \<Longrightarrow> u = t"
  by (simp add: qi_locks_def held_by_def)

lemma in_head_unique: "qi_locks s \<Longrightarrow> in_head (at s t) \<Longrightarrow> in_head (at s u) \<Longrightarrow> u = t"
  by (simp add: qi_locks_def held_by_def)

lemma qi_tail_link:
  assumes "qi_tail d as s" "qi_locks s" "at s t = E_link a v"
  shows "qtail (que s) = Some (last (d # as))"
proof -
  have "at s u \<noteq> E_tail b" for u b
    using in_tail_unique [OF assms(2), of t u] assms(3) by auto
  then show ?thesis using assms(1) by (simp add: qi_tail_def)
qed

lemma qi_chain_dom: "qi_chain d as s \<Longrightarrow> a \<in> set (d # as) \<Longrightarrow> \<exists>n. heap (que s) a = Some n"
  using chain_dom [of "heap (que s)" "Some d" "d # as" a] by (auto simp: qi_chain_def)

lemma qi_chain_link: "qi_chain d as s \<Longrightarrow> link (the (heap (que s) d)) = (case as of [] \<Rightarrow> None | a # _ \<Rightarrow> Some a)"
  by (auto simp: qi_chain_def split: option.splits list.splits)

lemma qi_privateD:
  assumes "qi_private d as s" "private_node (at s t) = Some a"
  shows "heap (que s) a \<noteq> None" "a \<notin> set (d # as)" "private_node (at s u) = Some a \<Longrightarrow> u = t"
  using assms unfolding qi_private_def by blast+

lemma qmove_deq:
  assumes inv: "queue_inv d as s" and st: "deq_step t s = Some s'"
  shows "\<exists>d' as'. qmove d as (Go t) s d' as' s'"
proof -
  have ch: "qi_chain d as s" and pr: "qi_private d as s" and dq: "qi_deq d as s"
    using inv by (simp_all add: queue_inv_def)
  note dqt = dq [unfolded qi_deq_def, rule_format, of t]
  show ?thesis
  proof (cases "at s t")
    case (D_head)
    then show ?thesis using st ch by (auto simp: deq_step_def qi_chain_def intro: qmove.intros)
  next
    case (D_next tmp)
    then have [simp]: "tmp = d" using dqt by simp
    obtain n where n: "heap (que s) d = Some n" using qi_chain_dom [OF ch, of d] by auto
    show ?thesis
    proof (cases as)
      case Nil
      then show ?thesis using st D_next n qi_chain_link [OF ch] m_empty [of s t d]
        by (auto simp: deq_step_def access_def deref_def)
    next
      case (Cons a bs)
      then show ?thesis using st D_next n qi_chain_link [OF ch] m_next [of s t d a bs]
        by (auto simp: deq_step_def access_def deref_def)
    qed
  next
    case (D_value tmp a)
    then obtain bs where [simp]: "tmp = d" "as = a # bs" using dqt by (cases as) auto
    obtain n where n: "heap (que s) a = Some n" using qi_chain_dom [OF ch, of a] by auto
    then show ?thesis using st D_value by (auto simp: deq_step_def access_def deref_def intro: qmove.intros)
  next
    case (D_move tmp a)
    then obtain bs where [simp]: "tmp = d" "as = a # bs" using dqt by (cases as) auto
    then show ?thesis using st D_move by (auto simp: deq_step_def intro: qmove.intros)
  next
    case (D_free a)
    then obtain n where n: "heap (que s) a = Some n"
      using qi_privateD(1) [OF pr, of t a] by auto
    then show ?thesis using st D_free m_free [OF D_free, of d as] by (auto simp: deq_step_def access_def deref_def Let_def)
  qed (use st in \<open>auto simp: deq_step_def split: if_splits intro: qmove.intros\<close>)
qed

lemma qmove_enq:
  assumes inv: "queue_inv d as s" and st: "enq_step t s = Some s'"
  shows "\<exists>d' as'. qmove d as (Go t) s d' as' s'"
proof (cases "at s t")
  case (E_link a v)
  have q: "qtail (que s) = Some (last (d # as))"
    using qi_tail_link [OF _ _ E_link] inv by (simp add: queue_inv_def)
  obtain n where "heap (que s) (last (d # as)) = Some n"
    using qi_chain_dom [of d as s "last (d # as)"] inv last_in_set [of "d # as"]
    unfolding queue_inv_def by blast
  then show ?thesis using st E_link q m_link [OF E_link q, of n]
    by (auto simp: enq_step_def access_def deref_def)
qed (use st in \<open>auto simp: enq_step_def split: if_splits intro: qmove.intros\<close>)

lemma qmove_if_step:
  assumes inv: "queue_inv d as s" and st: "queue_step a s = Some s'"
  shows "\<exists>d' as'. qmove d as a s d' as' s'"
proof (cases a)
  case (Call_enq t v p)
  then show ?thesis using st
    by (auto simp: queue_step_def enq_call_def split: if_splits option.splits intro: qmove.intros)
next
  case (Call_deq t)
  then show ?thesis using st by (auto simp: queue_step_def split: if_splits intro: qmove.intros)
next
  case (Go t)
  then show ?thesis using st qmove_deq [OF inv, of t] qmove_enq [OF inv, of t]
    by (auto simp: queue_step_def split: if_splits)
qed

section \<open>Every step keeps the invariant\<close>

lemma goto_simps [simp]:
  "at (goto t c s) = (at s)(t := c)" "que (goto t c s) = que s" "head_lock (goto t c s) = head_lock s"
  "tail_lock (goto t c s) = tail_lock s" "value_of (goto t c s) = value_of s" "stopped (goto t c s) = stopped s"
  by (simp_all add: goto_def)

lemma fail_simps [simp]:
  "at (fail e s) = at s" "que (fail e s) = que s" "head_lock (fail e s) = head_lock s"
  "tail_lock (fail e s) = tail_lock s" "value_of (fail e s) = value_of s" "stopped (fail e s) = Some e"
  by (simp_all add: fail_def)

lemma chain_link_private:
  assumes ch: "chain h (Some d) (d # as)" "distinct (d # as)"
    and a: "h a = Some \<lparr>val = v, link = None\<rparr>" "a \<notin> set (d # as)" and n: "h (last (d # as)) = Some n"
  shows "chain (h(last (d # as) \<mapsto> n\<lparr>link := Some a\<rparr>)) (Some d) (d # as @ [a])"
proof -
  obtain bs b where bs: "d # as = bs @ [b]" by (metis append_butlast_last_id list.distinct(1))
  have n': "h b = Some n" using n unfolding bs by simp
  have "a \<notin> set bs" "a \<noteq> b" using a(2) unfolding bs by simp_all
  moreover have "b \<notin> set bs" "chain h (Some d) (bs @ [b])" using ch unfolding bs by simp_all
  ultimately have c: "chain (h(a \<mapsto> \<lparr>val = v, link = None\<rparr>, b \<mapsto> n\<lparr>link := Some a\<rparr>)) (Some d) (bs @ [b, a])"
    using chain_link n' by simp
  have hh: "h(a \<mapsto> \<lparr>val = v, link = None\<rparr>) = h" using a(1) by (simp add: fun_upd_idem)
  have eq: "d # as @ [a] = bs @ [b, a]" "last (d # as) = b" using bs by simp_all
  show ?thesis unfolding eq using c unfolding hh .
qed

lemma qi_chain_step:
  assumes "qmove d as a s d' as' s'" "queue_inv d as s"
  shows "qi_chain d' as' s'"
  using assms
proof (induction rule: qmove.induct)
  case (m_call s t a d as v)
  then show ?case using chain_new [of "heap (que s)" "Some d" "d # as" a]
    by (simp add: queue_inv_def qi_chain_def del: chain.simps)
next
  case (m_link s t a v d as n)
  have i: "qi_chain d as s" "qi_private d as s" "qi_nodes s" using m_link by (simp_all add: queue_inv_def)
  have "heap (que s) a = Some \<lparr>val = v, link = None\<rparr>" using i(3) m_link(1) by (simp add: qi_nodes_def)
  moreover have "a \<notin> set (d # as)" using qi_privateD(2) [OF i(2), of t a] m_link(1) by simp
  ultimately show ?case using chain_link_private [of "heap (que s)" d as a v n] m_link(3) i(1)
    by (auto simp: qi_chain_def simp del: chain.simps)
next
  case (m_move s t d a as)
  then show ?case by (auto simp: queue_inv_def qi_chain_def split: option.splits)
next
  case (m_free s t a d as)
  then have "a \<notin> set (d # as)" using qi_privateD(2) [of d as s t a] by (simp add: queue_inv_def)
  then have "chain ((heap (que s))(a := None)) (Some d) (d # as)"
    using m_free chain_frame [of "heap (que s)" "Some d" "d # as" "(heap (que s))(a := None)", THEN conjunct1]
    by (fastforce simp: queue_inv_def qi_chain_def simp del: chain.simps)
  then show ?case using m_free by (simp add: queue_inv_def qi_chain_def del: chain.simps)
qed (simp_all add: queue_inv_def qi_chain_def)

lemma qi_tail_same:
  assumes "qi_tail d as s" "at s' = (at s)(t := c)" "\<And>b. at s t \<noteq> E_tail b" "\<And>b. c \<noteq> E_tail b"
    "qtail (que s') = qtail (que s)" "last (d' # as') = last (d # as)"
  shows "qi_tail d' as' s'"
proof -
  have "at s' u = E_tail b \<longleftrightarrow> at s u = E_tail b" for u b using assms(2-4) by simp
  then show ?thesis using assms(1,5,6) unfolding qi_tail_def by presburger
qed

lemma qi_tail_step:
  assumes "qmove d as a s d' as' s'" "qi_tail d as s" "qi_locks s"
  shows "qi_tail d' as' s'"
  using assms
proof (induction rule: qmove.induct)
  case (m_link s t a v d as n)
  then show ?case using in_tail_unique [of s t] by (auto simp: qi_tail_def)
next
  case (m_tail s t a d as)
  have "at s u \<noteq> E_tail b" if "u \<noteq> t" for u b
    using in_tail_unique [of s t u] m_tail that by auto
  then show ?case using m_tail by (auto simp: qi_tail_def)
next
  case (m_abort d as t v s)
  then show ?case by (simp add: qi_tail_def)
qed (erule qi_tail_same, simp, simp, simp, simp, simp)+

lemma qi_locks_step:
  assumes "qmove d as a s d' as' s'" "qi_locks s"
  shows "qi_locks s'"
  using assms
  by (induction rule: qmove.induct) (auto simp: qi_locks_def held_by_same held_by_take intro: held_by_drop)

lemma qi_stop_step: "qmove d as a s d' as' s' \<Longrightarrow> qi_stop s \<Longrightarrow> qi_stop s'"
  by (induction rule: qmove.induct) (simp_all add: qi_stop_def)

lemma qi_private_same:
  "qi_private d as s \<Longrightarrow> at s' = (at s)(t := c) \<Longrightarrow> private_node c = private_node (at s t) \<Longrightarrow>
    heap (que s') = heap (que s) \<Longrightarrow> qi_private d as s'"
  unfolding qi_private_def by (simp split: if_splits) metis

lemma qi_private_upd:
  assumes inv: "qi_private d as s" and at: "at s' = (at s)(t := c)"
    and new: "\<And>b. private_node c = Some b \<Longrightarrow>
      heap (que s') b \<noteq> None \<and> b \<notin> set (d' # as') \<and> (\<forall>u. u \<noteq> t \<longrightarrow> private_node (at s u) \<noteq> Some b)"
    and old: "\<And>u b. u \<noteq> t \<Longrightarrow> private_node (at s u) = Some b \<Longrightarrow> heap (que s) b \<noteq> None \<Longrightarrow> b \<notin> set (d # as) \<Longrightarrow>
      heap (que s') b \<noteq> None \<and> b \<notin> set (d' # as')"
  shows "qi_private d' as' s'"
  unfolding qi_private_def
proof (intro allI impI)
  fix u b assume b: "private_node (at s' u) = Some b"
  show "heap (que s') b \<noteq> None \<and> b \<notin> set (d' # as') \<and> (\<forall>v. private_node (at s' v) = Some b \<longrightarrow> v = u)"
  proof (cases "u = t")
    case True
    then show ?thesis using b new [of b] by (simp add: at)
  next
    case False
    then have u: "private_node (at s u) = Some b" using b by (simp add: at)
    have "private_node c \<noteq> Some b" using new [of b] u False by blast
    then show ?thesis
      using old [OF False u qi_privateD(1,2) [OF inv u]] qi_privateD(3) [OF inv u] by (simp add: at)
  qed
qed

lemma qi_private_step:
  assumes "qmove d as a s d' as' s'" "qi_private d as s" "qi_chain d as s"
  shows "qi_private d' as' s'"
  using assms
proof (induction rule: qmove.induct)
  case (m_abort d as t v s)
  then show ?case by (simp add: qi_private_def)
next
  case (m_call s t a d as v)
  have new: "a \<notin> set (d # as)" "\<And>u. private_node (at s u) \<noteq> Some a"
    using m_call qi_chain_dom [of d as s a] qi_privateD(1) [of d as s _ a] by auto
  show ?case by (rule qi_private_upd [OF m_call(3)]) (use new in auto)
next
  case (m_link s t a v d as n)
  have "private_node (at s u) \<noteq> Some a" if "u \<noteq> t" for u
    using qi_privateD(3) [OF m_link(4), of t a u] m_link(1) that by auto
  then show ?case by (intro qi_private_upd [OF m_link(4)]) auto
next
  case (m_move s t d a as)
  have "heap (que s) d \<noteq> None" "d \<notin> set (a # as)" using qi_chain_dom [OF m_move(3), of d] m_move(3)
    by (auto simp: qi_chain_def)
  moreover have "private_node (at s u) \<noteq> Some d" for u using qi_privateD(2) [OF m_move(2), of u d] by auto
  ultimately show ?case by (intro qi_private_upd [OF m_move(2)]) auto
next
  case (m_free s t a d as)
  have "private_node (at s u) \<noteq> Some a" if "u \<noteq> t" for u
    using qi_privateD(3) [OF m_free(2), of t a u] m_free(1) that by auto
  then show ?case by (intro qi_private_upd [OF m_free(2)]) auto
qed (erule qi_private_same, simp, simp, simp)+

lemma qi_nodes_step:
  assumes "qmove d as a s d' as' s'" "qi_nodes s" "qi_private d as s" "qi_chain d as s"
  shows "qi_nodes s'"
  using assms
proof (induction rule: qmove.induct)
  case (m_call s t a d as v)
  have "private_node (at s u) \<noteq> Some a" for u using m_call(2) qi_privateD(1) [OF m_call(4), of u a] by auto
  then have "at s u \<noteq> E_lock a w" "at s u \<noteq> E_link a w" for u w by (metis private_node.simps(1,2))+
  then show ?case using m_call(3) by (auto simp: qi_nodes_def)
next
  case (m_link s t a v d as n)
  have "private_node (at s u) \<noteq> Some (last (d # as))" for u
    using qi_privateD(2) [OF m_link(5), of u "last (d # as)"] last_in_set [of "d # as"] by blast
  then have "at s u \<noteq> E_lock (last (d # as)) w" "at s u \<noteq> E_link (last (d # as)) w" for u w
    by (metis private_node.simps(1,2))+
  then show ?case using m_link(4) by (auto simp: qi_nodes_def simp del: last.simps)
next
  case (m_free s t a d as)
  have "at s u \<noteq> E_lock a w" "at s u \<noteq> E_link a w" for u w
    using qi_privateD(3) [OF m_free(3), of t a u] m_free(1) by auto
  then show ?case using m_free(2) by (auto simp: qi_nodes_def)
qed (simp_all add: qi_nodes_def)

lemma qi_deqD:
  assumes "qi_deq d as s"
  shows "at s t = D_next x \<Longrightarrow> x = d"
    and "at s t = D_value x n \<Longrightarrow> x = d \<and> as \<noteq> [] \<and> n = hd as"
    and "at s t = D_move x n \<Longrightarrow> x = d \<and> as \<noteq> [] \<and> n = hd as \<and> value_of s t = val (the (heap (que s) n))"
  using assms [unfolded qi_deq_def, rule_format, of t] by simp_all

lemma qi_deq_same:
  assumes inv: "qi_deq d as s" and at: "at s' = (at s)(t := c)" and c: "in_head c \<Longrightarrow> c = D_head \<or> c = D_empty \<or> (\<exists>x. c = D_unlock x)"
    and val: "value_of s' = value_of s"
    and old: "as \<noteq> [] \<Longrightarrow> as' \<noteq> [] \<and> hd as' = hd as \<and> val (the (heap (que s') (hd as))) = val (the (heap (que s) (hd as)))"
  shows "qi_deq d as' s'"
  unfolding qi_deq_def
proof (rule allI)
  fix u
  show "case at s' u of D_next tmp \<Rightarrow> tmp = d | D_value tmp n \<Rightarrow> tmp = d \<and> as' \<noteq> [] \<and> n = hd as'
    | D_move tmp n \<Rightarrow> tmp = d \<and> as' \<noteq> [] \<and> n = hd as' \<and> value_of s' u = val (the (heap (que s') n)) | _ \<Rightarrow> True"
  proof (cases "u = t")
    case True
    then show ?thesis using c by (cases c) (simp_all add: at)
  next
    case False
    then show ?thesis using qi_deqD [OF inv, of u] old by (cases "at s u") (auto simp: at val)
  qed
qed

text \<open>A step of the only thread in the region of the head: the others have no obligation.\<close>

lemma qi_deq_alone:
  assumes "qi_locks s" "in_head (at s t)" "at s' = (at s)(t := c)"
    and "case c of D_next tmp \<Rightarrow> tmp = d | D_value tmp n \<Rightarrow> tmp = d \<and> as \<noteq> [] \<and> n = hd as
      | D_move tmp n \<Rightarrow> tmp = d \<and> as \<noteq> [] \<and> n = hd as \<and> value_of s' t = val (the (heap (que s') n)) | _ \<Rightarrow> True"
  shows "qi_deq d as s'"
  unfolding qi_deq_def
proof (rule allI)
  fix u
  have "\<not> in_head (at s u)" if "u \<noteq> t" using in_head_unique [OF assms(1,2)] that by blast
  then show "case at s' u of D_next tmp \<Rightarrow> tmp = d | D_value tmp n \<Rightarrow> tmp = d \<and> as \<noteq> [] \<and> n = hd as
    | D_move tmp n \<Rightarrow> tmp = d \<and> as \<noteq> [] \<and> n = hd as \<and> value_of s' u = val (the (heap (que s') n)) | _ \<Rightarrow> True"
    using assms(3,4) by (cases "u = t"; cases "at s u") auto
qed

lemma qi_deq_step:
  assumes "qmove d as a s d' as' s'" "qi_deq d as s" "qi_locks s" "qi_private d as s" "qi_chain d as s"
  shows "qi_deq d' as' s'"
  using assms
proof (induction rule: qmove.induct)
  case (m_abort d as t v s)
  then show ?case unfolding qi_deq_def fail_simps by blast
next
  case (m_call s t a d as v)
  have "as \<noteq> [] \<Longrightarrow> hd as \<noteq> a" using qi_chain_dom [OF m_call(6), of a] m_call(2) hd_in_set [of as] by auto
  then show ?case by (intro qi_deq_same [OF m_call(3)]) auto
next
  case (m_link s t a v d as n)
  then show ?case by (intro qi_deq_same [OF m_link(4)]) auto
next
  case (m_free s t a d as)
  have "a \<notin> set (d # as)" using qi_privateD(2) [OF m_free(4), of t a] m_free(1) by simp
  then have "as \<noteq> [] \<Longrightarrow> hd as \<noteq> a" using hd_in_set [of as] by auto
  then show ?case by (intro qi_deq_same [OF m_free(2)]) auto
next
  case (m_head s t d as)
  then show ?case by (intro qi_deq_alone [of s t]) auto
next
  case (m_next s t d a as)
  then show ?case by (intro qi_deq_alone [of s t]) auto
next
  case (m_value s t d a n as)
  then show ?case by (intro qi_deq_alone [of s t]) auto
next
  case (m_move s t d a as)
  then show ?case by (intro qi_deq_alone [of s t]) auto
qed (erule qi_deq_same, simp, simp, simp, simp)+

lemma queue_inv_step:
  assumes "qmove d as a s d' as' s'" "queue_inv d as s"
  shows "queue_inv d' as' s'"
  using assms(2) qi_chain_step [OF assms] qi_tail_step [OF assms(1)] qi_locks_step [OF assms(1)] qi_private_step [OF assms(1)]
    qi_nodes_step [OF assms(1)] qi_deq_step [OF assms(1)] qi_stop_step [OF assms(1)]
  unfolding queue_inv_def by blast

lemma queue_inv_start:
  assumes "queue_start s"
  shows "\<exists>d. queue_inv d [] s"
proof -
  obtain malloc a q where q: "malloc Map.empty = Some a" "Queue_Init malloc Map.empty = Inr q" "s = queue_initial q"
    using assms unfolding queue_start_def by blast
  then have "queue_inv a [] s"
    by (auto simp: Queue_Init_def queue_initial_def queue_inv_def qi_chain_def qi_tail_def qi_locks_def held_by_def
        qi_private_def qi_nodes_def qi_deq_def qi_stop_def)
  then show ?thesis ..
qed

text \<open>The event of a step is what the list of the values undergoes.\<close>

lemma event_sequential:
  assumes "qmove d as a s d' as' s'" "queue_inv d as s"
  shows "sequential (event a s) (vals_of (heap (que s)) as) = Some (vals_of (heap (que s')) as')"
  using assms
proof (induction rule: qmove.induct)
  case (m_call s t a d as v)
  have "a \<notin> set as" using qi_chain_dom [of d as s a] m_call by (auto simp: queue_inv_def)
  then show ?case by (auto simp: event_def vals_of_def)
next
  case (m_link s t a v d as n)
  have a: "heap (que s) a = Some \<lparr>val = v, link = None\<rparr>" "a \<notin> set (d # as)"
    using m_link qi_privateD(2) [of d as s t a] by (auto simp: queue_inv_def qi_nodes_def)
  have "last (d # as) \<in> set (d # as)" by (rule last_in_set) simp
  then have "last (d # as) \<noteq> a" using a(2) by metis
  then show ?case using a m_link(1,3) by (auto simp: event_def vals_of_def)
next
  case (m_move s t d a as)
  then show ?case using qi_deqD(3) [of d "a # as" s t d a] by (auto simp: queue_inv_def event_def vals_of_def)
next
  case (m_free s t a d as)
  have "a \<notin> set as" using qi_privateD(2) [of d as s t a] m_free by (auto simp: queue_inv_def)
  then show ?case using m_free(1) by (auto simp: event_def vals_of_def)
qed (simp_all add: event_def vals_of_def)

section \<open>Progress\<close>

text \<open>How many steps a call has left.\<close>

fun left :: "qpc \<Rightarrow> nat" where
  "left Outside = 0"
| "left (E_lock _ _) = 4"
| "left (E_link _ _) = 3"
| "left (E_tail _) = 2"
| "left E_unlock = 1"
| "left D_lock = 7"
| "left D_head = 6"
| "left (D_next _) = 5"
| "left (D_value _ _) = 4"
| "left (D_move _ _) = 3"
| "left (D_unlock _) = 2"
| "left (D_free _) = 1"
| "left D_empty = 1"

definition inside :: "qsys \<Rightarrow> nat set" where
  "inside s = {t. at s t \<noteq> Outside}"

definition qrank :: "qsys \<Rightarrow> nat" where
  "qrank s = (\<Sum>t\<in>inside s. left (at s t))"

definition queue_invar :: "qsys \<Rightarrow> bool" where
  "queue_invar s \<longleftrightarrow> (\<exists>d as. queue_inv d as s) \<and> finite (inside s)"

definition is_go :: "qact \<Rightarrow> bool" where
  "is_go a = (case a of Go _ \<Rightarrow> True | _ \<Rightarrow> False)"

definition all_out :: "qsys \<Rightarrow> bool" where
  "all_out s \<longleftrightarrow> stopped s \<noteq> None \<or> inside s = {}"

lemma qmove_inside: "qmove d as a s d' as' s' \<Longrightarrow> \<exists>t. inside s' \<subseteq> insert t (inside s)"
  by (induction rule: qmove.induct) (auto simp: inside_def)

lemma qmove_go:
  "qmove d as a s d' as' s' \<Longrightarrow> a = Go t \<Longrightarrow> (\<forall>u. u \<noteq> t \<longrightarrow> at s' u = at s u) \<and> left (at s' t) < left (at s t)"
  by (induction rule: qmove.induct) auto

lemma qrank_step:
  assumes "qmove d as (Go t) s d' as' s'" "finite (inside s)"
  shows "qrank s' < qrank s"
proof -
  have m: "\<And>u. u \<noteq> t \<Longrightarrow> at s' u = at s u" "left (at s' t) < left (at s t)"
    using qmove_go [OF assms(1)] by blast+
  have out: "left c = 0 \<longleftrightarrow> c = Outside" for c by (cases c) simp_all
  have t: "t \<in> inside s" using m(2) out [of "at s t"] by (auto simp: inside_def)
  have sub: "inside s' \<subseteq> inside s"
  proof
    fix u assume "u \<in> inside s'"
    then show "u \<in> inside s" using t m(1) [of u] by (cases "u = t") (auto simp: inside_def)
  qed
  have "qrank s' = (\<Sum>u\<in>inside s. left (at s' u))"
    unfolding qrank_def by (rule sum.mono_neutral_left [OF assms(2) sub]) (simp add: inside_def out)
  also have "\<dots> < qrank s"
    unfolding qrank_def by (rule sum_less [OF assms(2) t]) (simp_all add: m)
  finally show ?thesis .
qed

lemma queue_go_not_None:
  assumes "stopped s = None" "at s t \<noteq> Outside" "\<And>a v. at s t = E_lock a v \<Longrightarrow> tail_lock s = None"
    "at s t = D_lock \<Longrightarrow> head_lock s = None"
  shows "queue_step (Go t) s \<noteq> None"
  using assms
  by (cases "at s t") (simp_all add: queue_step_def enq_step_def deq_step_def Let_def split: sum.split option.split)

lemma region_goes: "in_tail c \<or> in_head c \<Longrightarrow> c \<noteq> Outside \<and> c \<noteq> E_lock a v \<and> c \<noteq> D_lock"
  by (cases c) simp_all

text \<open>A thread that is blocked waits for a lock whose holder can go on.\<close>

lemma queue_go:
  assumes inv: "queue_inv d as s" and run: "stopped s = None" "at s t \<noteq> Outside"
  shows "\<exists>u s'. queue_step (Go u) s = Some s'"
proof -
  have l: "held_by in_tail (tail_lock s) (at s)" "held_by in_head (head_lock s) (at s)"
    using inv by (simp_all add: queue_inv_def qi_locks_def)
  have "\<exists>u. at s u \<noteq> Outside \<and> (\<forall>a v. at s u = E_lock a v \<longrightarrow> tail_lock s = None) \<and>
      (at s u = D_lock \<longrightarrow> head_lock s = None)"
  proof (cases "tail_lock s = None \<and> head_lock s = None")
    case True
    then show ?thesis using run by blast
  next
    case False
    then obtain u where "tail_lock s = Some u \<or> head_lock s = Some u" by auto
    then have "in_tail (at s u) \<or> in_head (at s u)" using l unfolding held_by_def by metis
    from region_goes [OF this] show ?thesis by blast
  qed
  then show ?thesis using queue_go_not_None [OF run(1)] by blast
qed

interpretation qt: terminating_program queue_step queue_start queue_invar is_go all_out qrank
proof unfold_locales
  fix s assume "queue_start s"
  then show "queue_invar s"
    using queue_inv_start [of s] by (auto simp: queue_invar_def queue_start_def queue_initial_def inside_def)
next
  fix s a s' assume a: "queue_invar s" "queue_step a s = Some s'"
  then obtain d as where inv: "queue_inv d as s" "finite (inside s)" unfolding queue_invar_def by blast
  obtain d' as' where mv: "qmove d as a s d' as' s'" using qmove_if_step [OF inv(1) a(2)] by blast
  obtain t where "inside s' \<subseteq> insert t (inside s)" using qmove_inside [OF mv] by blast
  then have "finite (inside s')" using inv(2) finite_subset by blast
  then show "queue_invar s'" using queue_inv_step [OF mv inv(1)] unfolding queue_invar_def by blast
  show "qrank s' < qrank s" if "is_go a"
    using that mv qrank_step [OF _ inv(2)] by (cases a) (auto simp: is_go_def)
next
  fix s assume a: "queue_invar s" "\<not> all_out s"
  then obtain d as t where "queue_inv d as s" "stopped s = None" "at s t \<noteq> Outside"
    unfolding queue_invar_def all_out_def inside_def by blast
  then obtain u s' where "queue_step (Go u) s = Some s'" using queue_go by blast
  then show "\<exists>a s'. is_go a \<and> queue_step a s = Some s'" by (intro exI [of _ "Go u"]) (auto simp: is_go_def)
qed

section \<open>The properties\<close>

definition enqueued_in :: "qevent list \<Rightarrow> int list" where
  "enqueued_in es = concat (map (\<lambda>e. case e of Enqueued v \<Rightarrow> [v] | _ \<Rightarrow> []) es)"

definition dequeued_in :: "qevent list \<Rightarrow> int list" where
  "dequeued_in es = concat (map (\<lambda>e. case e of Dequeued v \<Rightarrow> [v] | _ \<Rightarrow> []) es)"

lemma sequential_fifo: "sequential es xs = Some ys \<Longrightarrow> dequeued_in es @ ys = xs @ enqueued_in es"
  by (induction es xs rule: sequential.induct)
    (auto simp: enqueued_in_def dequeued_in_def split: list.splits if_splits)

lemma events_sequential:
  assumes "queue_inv d bs s" "run queue_step as s = Some s'"
  shows "\<exists>d' bs'. queue_inv d' bs' s' \<and>
    sequential (events as s) (vals_of (heap (que s)) bs) = Some (vals_of (heap (que s')) bs')"
  using assms
proof (induction as arbitrary: d bs s)
  case Nil
  then show ?case by auto
next
  case (Cons a as)
  then obtain t where t: "queue_step a s = Some t" "run queue_step as t = Some s'" by (auto split: option.splits)
  obtain d' bs' where mv: "qmove d bs a s d' bs' t" using qmove_if_step [OF Cons.prems(1) t(1)] by blast
  obtain d'' bs'' where r: "queue_inv d'' bs'' s'"
    "sequential (events as t) (vals_of (heap (que t)) bs') = Some (vals_of (heap (que s')) bs'')"
    using Cons.IH [OF queue_inv_step [OF mv Cons.prems(1)] t(2)] by blast
  have "sequential (events (a # as) s) (vals_of (heap (que s)) bs) = Some (vals_of (heap (que s')) bs'')"
    using event_sequential [OF mv Cons.prems(1)] r(2) t(1) by (simp add: sequential_append)
  then show ?case using r(1) by blast
qed

text \<open>An enqueue writes the \<open>next\<close> of the last node while a dequeue reads it, under different locks.\<close>

definition next_race :: "qsys \<Rightarrow> bool" where
  "next_race s \<longleftrightarrow> (\<exists>t u tmp a v. t \<noteq> u \<and> at s t = E_link a v \<and> at s u = D_next tmp \<and> qtail (que s) = Some tmp)"

definition race_start :: qsys where
  "race_start = queue_initial \<lparr>heap = [0 \<mapsto> \<lparr>val = 0, link = None\<rparr>], qhead = Some 0, qtail = Some 0\<rparr>"

definition race_schedule :: "qact list" where
  "race_schedule = [Call_enq 0 5 (Some 1), Call_deq 1, Go 1, Go 1, Go 0]"

lemma race_start_ok: "queue_start race_start"
  unfolding queue_start_def
  by (intro exI [of _ "\<lambda>_. Some 0"] exI [of _ 0] exI conjI)
    (auto simp: Queue_Init_def race_start_def)

lemma race_reached: "\<exists>s. run queue_step race_schedule race_start = Some s \<and> next_race s"
proof -
  have "\<exists>s. run queue_step race_schedule race_start = Some s \<and> at s 0 = E_link 1 5 \<and> at s 1 = D_next 0 \<and> qtail (que s) = Some 0"
    by (simp add: race_schedule_def race_start_def queue_initial_def queue_step_def enq_call_def deq_step_def enq_step_def goto_def)
  then show ?thesis unfolding next_race_def by (metis zero_neq_one)
qed

text \<open>Property C3.
  The queue with any number of threads in it behaves like a list, whatever the schedule and whatever addresses \<open>malloc\<close> returns: the
  events of every run (an enqueue linking its node, a dequeue moving \<open>head\<close>, a dequeue seeing that there is no next node) can be
  performed one after the other by a sequential queue, which then holds what the nodes hold. So the values were dequeued in the order in
  which they were enqueued, each once, and a dequeue that returns -1 saw the queue empty at one moment of its call.
\<close>

theorem queue_threads_linearizable:
  assumes "queue_start s0" "run queue_step as s0 = Some s"
  shows "\<exists>d bs. qhead (que s) = Some d \<and> chain (heap (que s)) (Some d) (d # bs) \<and>
    sequential (events as s0) [] = Some (vals_of (heap (que s)) bs) \<and>
    enqueued_in (events as s0) = dequeued_in (events as s0) @ vals_of (heap (que s)) bs"
proof -
  obtain d where "queue_inv d [] s0" using queue_inv_start [OF assms(1)] by blast
  then obtain d' bs where r: "queue_inv d' bs s" "sequential (events as s0) [] = Some (vals_of (heap (que s)) bs)"
    using events_sequential [OF _ assms(2), of d "[]"] by (auto simp: vals_of_def)
  then show ?thesis using sequential_fifo [OF r(2)] unfolding queue_inv_def qi_chain_def by auto
qed

text \<open>A dequeue that takes the node while its enqueue has not moved \<open>tail\<close> yet, and an enqueue after it.\<close>

definition busy_schedule :: "qact list" where
  "busy_schedule = [Call_enq 0 5 (Some 1), Call_enq 1 7 (Some 2), Go 1, Go 1, Call_deq 2, Go 2, Go 2, Go 2, Go 2, Go 2,
     Go 2, Go 2, Go 1, Go 1, Go 0, Go 0]"

lemma busy_run:
  "run queue_step busy_schedule race_start \<noteq> None \<and> events busy_schedule race_start = [Enqueued 7, Dequeued 7, Enqueued 5]"
  by (simp add: busy_schedule_def race_start_def queue_initial_def queue_step_def enq_call_def deq_step_def enq_step_def goto_def
      access_def deref_def event_def)

theorem queue_threads_linearizable_witness:
  "\<exists>s d bs. run queue_step busy_schedule race_start = Some s \<and> chain (heap (que s)) (Some d) (d # bs) \<and>
    vals_of (heap (que s)) bs = [5]"
proof -
  obtain s where "run queue_step busy_schedule race_start = Some s" using busy_run by blast
  then show ?thesis using queue_threads_linearizable [OF race_start_ok, of busy_schedule s] busy_run
    by (fastforce simp del: chain.simps)
qed

text \<open>Property C15.
  With any number of threads in the queue, whatever the schedule: nothing that is not allocated is accessed and nothing is freed
  twice (the process ends early only when \<open>malloc\<close> fails); each lock protects its statements; some thread that is inside can always go
  on, every run without new calls is bounded, and it can go on until all calls have returned. But an enqueue can write the \<open>next\<close> of the
  dummy node while a dequeue reads it, because they hold different locks: a data race.
\<close>

theorem queue_threads_safe:
  assumes "reach queue_step queue_start s"
  shows "(stopped s = None \<or> stopped s = Some Assertion) \<and>
    (\<forall>t u. in_tail (at s t) \<and> in_tail (at s u) \<or> in_head (at s t) \<and> in_head (at s u) \<longrightarrow> t = u) \<and>
    (\<forall>as s'. list_all is_go as \<and> run queue_step as s = Some s' \<longrightarrow> length as \<le> qrank s) \<and>
    (\<exists>as s'. list_all is_go as \<and> run queue_step as s = Some s' \<and> all_out s') \<and>
    (\<exists>s'. reach queue_step queue_start s' \<and> next_race s')"
proof -
  obtain d bs where inv: "queue_inv d bs s" using qt.invar_reach [OF assms] unfolding queue_invar_def by blast
  then have "qi_stop s" "qi_locks s" by (simp_all add: queue_inv_def)
  then have "stopped s = None \<or> stopped s = Some Assertion"
    "\<forall>t u. in_tail (at s t) \<and> in_tail (at s u) \<or> in_head (at s t) \<and> in_head (at s u) \<longrightarrow> t = u"
    using in_tail_unique in_head_unique unfolding qi_stop_def by blast+
  moreover have "\<forall>as s'. list_all is_go as \<and> run queue_step as s = Some s' \<longrightarrow> length as \<le> qrank s"
    using qt.run_length [OF assms] by blast
  moreover have "\<exists>s'. reach queue_step queue_start s' \<and> next_race s'"
    using race_reached reach_run [where start = queue_start, OF race_start_ok] by blast
  ultimately show ?thesis using qt.can_finish [OF assms] by blast
qed

theorem queue_threads_safe_witness:
  "\<exists>as s'. list_all is_go as \<and> run queue_step as race_start = Some s' \<and> all_out s'"
  using queue_threads_safe [OF reach_start [where start = queue_start, OF race_start_ok]] by blast

end
