(* ===== verification/Forks.thy ===== *)
theory Forks
  imports Ctext
begin

text \<open>
  The programs of \<open>src/process_api\<close> that fork: \<open>callingfork\<close>, \<open>callingforkandwait\<close>, \<open>callfork2\<close>, \<open>callexec\<close>, \<open>redirection\<close> and \<open>fkfile\<close>. A
  \<open>main\<close> is the list of its statements, and one machine runs the processes, one statement at a time in any order. It keeps what \<open>fork\<close>
  copies (the variables, the descriptor of standard output and the buffer of \<open>stdout\<close>) and what the processes share (the files). The
  pid of a child, whether \<open>open\<close> and \<open>fork\<close> succeed, the files that exist at the start, and what the programs given to \<open>execvp\<close> write
  to standard output and to standard error are parameters.
\<close>

section \<open>The machine\<close>

text \<open>A write of the program that \<open>execvp\<close> started.\<close>

datatype chunk = Stdout string | Stderr string

record pvars =
  pid :: nat
  var_x :: int
  rc :: int
  initpid :: int
  rc_wait :: int

datatype stmt =
    Printf "pvars \<Rightarrow> string"
  | Eprintf string               \<comment> \<open>\<open>fprintf(stderr, ...)\<close>, not buffered\<close>
  | Initpid                      \<comment> \<open>\<open>initpid = getpid()\<close>\<close>
  | Fork                         \<comment> \<open>\<open>rc = fork()\<close>\<close>
  | Wait                         \<comment> \<open>\<open>rc_wait = wait(NULL)\<close>\<close>
  | Set_x int
  | Branch "pvars \<Rightarrow> bool" "stmt list" "stmt list"
  | Close_stdout
  | Open string                  \<comment> \<open>created or truncated, in place of standard output\<close>
  | Execvp "string list"
  | Exit int
  | Write chunk                  \<comment> \<open>by the program that \<open>execvp\<close> started\<close>

datatype sink = Console | File string

record proc =
  vars :: pvars
  todo :: "stmt list"
  children :: "nat list"         \<comment> \<open>not waited for yet\<close>
  stdout_fd :: "sink option"
  buffered :: string             \<comment> \<open>written to \<open>stdout\<close> and not to the descriptor\<close>
  exited :: "int option"

record world =
  procs :: "nat \<Rightarrow> proc option"
  console :: string
  errors :: string
  files :: "string \<Rightarrow> string option"

text \<open>
  Whether standard output is a terminal, which files can be opened, and what a program writes with the standard output that it is
  given, or that there is no such program.
\<close>

record setting =
  tty :: bool
  opens :: "string \<Rightarrow> bool"
  program :: "string list \<Rightarrow> sink option \<Rightarrow> chunk list option"

definition line :: "string \<Rightarrow> string" where
  "line s = s @ [newline]"

text \<open>What a statement does outside of its process: a write to the descriptor of standard output or to standard error, or a new file.\<close>

datatype effect = Nothing | Out "sink option" string | Err string | Create string

definition apply_effect :: "effect \<Rightarrow> world \<Rightarrow> world" where
  "apply_effect eff w = (case eff of
       Nothing \<Rightarrow> w
     | Out None s \<Rightarrow> w
     | Out (Some Console) s \<Rightarrow> w\<lparr>console := console w @ s\<rparr>
     | Out (Some (File f)) s \<Rightarrow> w\<lparr>files := (files w)(f := map_option (\<lambda>t. t @ s) (files w f))\<rparr>
     | Err s \<Rightarrow> w\<lparr>errors := errors w @ s\<rparr>
     | Create f \<Rightarrow> w\<lparr>files := (files w)(f \<mapsto> [])\<rparr>)"

text \<open>The part of the buffer after its last newline stays in a line buffer.\<close>

definition unfinished :: "string \<Rightarrow> string" where
  "unfinished s = rev (takeWhile (\<lambda>c. c \<noteq> newline) (rev s))"

definition finished_lines :: "string \<Rightarrow> string" where
  "finished_lines s = rev (dropWhile (\<lambda>c. c \<noteq> newline) (rev s))"

text \<open>
  \<open>printf\<close>: \<open>stdout\<close> is line buffered on a terminal, and fully buffered otherwise. The texts of the programs fit into the buffer.
\<close>

definition put :: "setting \<Rightarrow> proc \<Rightarrow> string \<Rightarrow> proc \<times> effect" where
  "put e P s =
     (let buf = buffered P @ s
      in if tty e \<and> stdout_fd P = Some Console
         then (P\<lparr>buffered := unfinished buf\<rparr>, Out (stdout_fd P) (finished_lines buf))
         else (P\<lparr>buffered := buf\<rparr>, Nothing))"

text \<open>\<open>exit\<close>, and the return from \<open>main\<close>: the buffer is written.\<close>

definition exit_proc :: "proc \<Rightarrow> int \<Rightarrow> proc \<times> effect" where
  "exit_proc P status = (P\<lparr>todo := [], buffered := [], exited := Some status\<rparr>, Out (stdout_fd P) (buffered P))"

text \<open>A program that is started has the descriptors of the process; the buffer is lost with the old image.\<close>

definition chunk_effect :: "sink option \<Rightarrow> chunk \<Rightarrow> effect" where
  "chunk_effect d c = (case c of Stdout s \<Rightarrow> Out d s | Stderr s \<Rightarrow> Err s)"

definition do_execvp :: "setting \<Rightarrow> proc \<Rightarrow> string list \<Rightarrow> proc" where
  "do_execvp e P args = (case program e args (stdout_fd P) of
       None \<Rightarrow> P
     | Some chunks \<Rightarrow> P\<lparr>todo := map Write chunks, buffered := []\<rparr>)"

text \<open>A statement of one process alone.\<close>

definition local_stmt :: "setting \<Rightarrow> proc \<Rightarrow> stmt \<Rightarrow> proc \<times> effect" where
  "local_stmt e P st = (case st of
       Printf f \<Rightarrow> put e P (f (vars P))
     | Eprintf s \<Rightarrow> (P, Err s)
     | Initpid \<Rightarrow> (P\<lparr>vars := (vars P)\<lparr>initpid := int (pid (vars P))\<rparr>\<rparr>, Nothing)
     | Set_x v \<Rightarrow> (P\<lparr>vars := (vars P)\<lparr>var_x := v\<rparr>\<rparr>, Nothing)
     | Branch b ss ts \<Rightarrow> (P\<lparr>todo := (if b (vars P) then ss else ts) @ todo P\<rparr>, Nothing)
     | Close_stdout \<Rightarrow> (P\<lparr>stdout_fd := None\<rparr>, Nothing)
     | Open f \<Rightarrow> if opens e f then (P\<lparr>stdout_fd := Some (File f)\<rparr>, Create f) else (P, Nothing)
     | Execvp args \<Rightarrow> (do_execvp e P args, Nothing)
     | Exit status \<Rightarrow> exit_proc P status
     | Write c \<Rightarrow> (P, chunk_effect (stdout_fd P) c)
     | _ \<Rightarrow> (P, Nothing))"

definition local_step :: "setting \<Rightarrow> proc \<Rightarrow> proc \<times> effect" where
  "local_step e P = (case todo P of [] \<Rightarrow> exit_proc P 0 | st # rest \<Rightarrow> local_stmt e (P\<lparr>todo := rest\<rparr>) st)"

definition set_proc :: "nat \<Rightarrow> proc \<Rightarrow> world \<Rightarrow> world" where
  "set_proc p P w = w\<lparr>procs := (procs w)(p \<mapsto> P)\<rparr>"

text \<open>\<open>fork\<close> fails, or makes a copy of the process under a new pid.\<close>

definition set_rc :: "int \<Rightarrow> proc \<Rightarrow> proc" where
  "set_rc r P = P\<lparr>vars := (vars P)\<lparr>rc := r\<rparr>\<rparr>"

definition forked :: "nat \<Rightarrow> proc \<Rightarrow> proc" where
  "forked c P = P\<lparr>vars := (vars P)\<lparr>pid := c, rc := 0\<rparr>, children := []\<rparr>"

definition do_fork :: "nat \<Rightarrow> proc \<Rightarrow> nat option \<Rightarrow> world \<Rightarrow> world option" where
  "do_fork p P child w = (case child of
       None \<Rightarrow> Some (set_proc p (set_rc (- 1) P) w)
     | Some c \<Rightarrow>
         if procs w c = None \<and> 0 < c
         then Some (set_proc c (forked c P) (set_proc p (set_rc (int c) (P\<lparr>children := c # children P\<rparr>)) w))
         else None)"

text \<open>\<open>wait\<close> waits for a child that has ended, and returns -1 if there is no child.\<close>

definition set_rc_wait :: "int \<Rightarrow> proc \<Rightarrow> proc" where
  "set_rc_wait r P = P\<lparr>vars := (vars P)\<lparr>rc_wait := r\<rparr>\<rparr>"

definition ended :: "nat \<Rightarrow> world \<Rightarrow> bool" where
  "ended c w \<longleftrightarrow> (case procs w c of None \<Rightarrow> False | Some C \<Rightarrow> exited C \<noteq> None)"

definition do_wait :: "nat \<Rightarrow> proc \<Rightarrow> nat option \<Rightarrow> world \<Rightarrow> world option" where
  "do_wait p P child w = (case child of
       None \<Rightarrow> if children P = [] then Some (set_proc p (set_rc_wait (- 1) P) w) else None
     | Some c \<Rightarrow>
         if c \<in> set (children P) \<and> ended c w
         then Some (set_proc p (set_rc_wait (int c) (P\<lparr>children := remove1 c (children P)\<rparr>)) (w\<lparr>procs := (procs w)(c := None)\<rparr>))
         else None)"

text \<open>One statement of the process \<open>p\<close>; \<open>child\<close> is the process that \<open>fork\<close> makes or \<open>wait\<close> returns.\<close>

definition alone :: "nat \<Rightarrow> proc \<times> effect \<Rightarrow> world \<Rightarrow> world" where
  "alone p r w = apply_effect (snd r) (set_proc p (fst r) w)"

definition proc_step :: "setting \<Rightarrow> nat \<times> nat option \<Rightarrow> world \<Rightarrow> world option" where
  "proc_step e a w = (case a of (p, child) \<Rightarrow>
     (case procs w p of
        None \<Rightarrow> None
      | Some P \<Rightarrow>
          if exited P \<noteq> None then None
          else (case todo P of
              Fork # rest \<Rightarrow> do_fork p (P\<lparr>todo := rest\<rparr>) child w
            | Wait # rest \<Rightarrow> do_wait p (P\<lparr>todo := rest\<rparr>) child w
            | _ \<Rightarrow> if child = None then Some (alone p (local_step e P) w) else None)))"

text \<open>A process that starts a \<open>main\<close>; its variables have no value that the programs use before they assign one.\<close>

definition boot_proc :: "nat \<Rightarrow> stmt list \<Rightarrow> proc" where
  "boot_proc p main = \<lparr>vars = \<lparr>pid = p, var_x = 0, rc = 0, initpid = 0, rc_wait = 0\<rparr>, todo = main, children = [],
     stdout_fd = Some Console, buffered = [], exited = None\<rparr>"

definition boot :: "(string \<Rightarrow> string option) \<Rightarrow> nat \<Rightarrow> stmt list \<Rightarrow> world" where
  "boot fs p main = \<lparr>procs = [p \<mapsto> boot_proc p main], console = [], errors = [], files = fs\<rparr>"

section \<open>The programs\<close>

definition show_int :: "int \<Rightarrow> string" where
  "show_int i = (if i < 0 then ''-'' @ decimal (nat (- i)) else decimal (nat i))"

definition show_pid :: "nat \<Rightarrow> string" where
  "show_pid p = '' (pid:'' @ decimal p @ '')''"

definition msg_failed :: string where
  "msg_failed = line ''fork failed''"

definition fork_failed :: "stmt list" where
  "fork_failed = [Eprintf msg_failed, Exit 1]"

text \<open>callingfork.c\<close>

definition msg_child_x :: "int \<Rightarrow> nat \<Rightarrow> string" where
  "msg_child_x x p = line (''(child) x: '' @ show_int x @ show_pid p)"

definition msg_parent_x :: "int \<Rightarrow> int \<Rightarrow> nat \<Rightarrow> string" where
  "msg_parent_x r x p = line (''(parent '' @ show_int r @ '') x: '' @ show_int x @ show_pid p)"

definition callingfork :: "stmt list" where
  "callingfork =
     [Set_x 100, Fork,
      Branch (\<lambda>v. rc v < 0) fork_failed
        [Branch (\<lambda>v. rc v = 0)
           [Set_x 900, Printf (\<lambda>v. msg_child_x (var_x v) (pid v))]
           [Set_x 700, Printf (\<lambda>v. msg_parent_x (rc v) (var_x v) (pid v))]]]"

text \<open>callingforkandwait.c\<close>

definition msg_hello :: "nat \<Rightarrow> string" where
  "msg_hello p = line (''Hello world'' @ show_pid p)"

definition msg_child :: "nat \<Rightarrow> string" where
  "msg_child p = line (''hello, I am child'' @ show_pid p)"

definition msg_parent :: "int \<Rightarrow> nat \<Rightarrow> string" where
  "msg_parent r p = line (''hello, I am parent of '' @ show_int r @ show_pid p)"

definition callingforkandwait :: "stmt list" where
  "callingforkandwait =
     [Printf (\<lambda>v. msg_hello (pid v)), Fork,
      Branch (\<lambda>v. rc v < 0) fork_failed
        [Branch (\<lambda>v. rc v = 0)
           [Printf (\<lambda>v. msg_child (pid v))]
           [Wait, Printf (\<lambda>v. msg_parent (rc v) (pid v))]]]"

text \<open>callfork2.c\<close>

definition msg_rc :: "int \<Rightarrow> string" where
  "msg_rc r = line (''rc: '' @ show_int r)"

definition msg_initpid :: "int \<Rightarrow> string" where
  "msg_initpid i = line (''initpid: '' @ show_int i)"

definition msg_child_hello :: "nat \<Rightarrow> string" where
  "msg_child_hello p = line (''child says hello'' @ show_pid p)"

definition msg_goodbye :: "nat \<Rightarrow> string" where
  "msg_goodbye p = line (''parent says goodbye'' @ show_pid p)"

definition callfork2 :: "stmt list" where
  "callfork2 =
     [Initpid, Fork, Printf (\<lambda>v. msg_rc (rc v)), Printf (\<lambda>v. msg_initpid (initpid v)),
      Branch (\<lambda>v. rc v < 0) fork_failed
        [Branch (\<lambda>v. rc v = initpid v + 1)
           [Printf (\<lambda>v. msg_child_hello (pid v))]
           [Printf (\<lambda>v. msg_goodbye (pid v))]]]"

text \<open>callexec.c\<close>

definition msg_no_print :: string where
  "msg_no_print = ''this shouldn'' @ [CHR 0x27] @ ''t print out''"

definition msg_parent_wait :: "int \<Rightarrow> int \<Rightarrow> nat \<Rightarrow> string" where
  "msg_parent_wait r rw p =
     line (''hello, I am parent of '' @ show_int r @ '' (rc_wait:'' @ show_int rw @ '')'' @ show_pid p)"

definition callexec :: "stmt list" where
  "callexec =
     [Printf (\<lambda>v. msg_hello (pid v)), Fork,
      Branch (\<lambda>v. rc v < 0) fork_failed
        [Branch (\<lambda>v. rc v = 0)
           [Printf (\<lambda>v. msg_child (pid v)), Execvp [''wc'', ''callexec.c''], Printf (\<lambda>v. msg_no_print)]
           [Wait, Printf (\<lambda>v. msg_parent_wait (rc v) (rc_wait v) (pid v))]]]"

text \<open>redirection.c\<close>

definition redirect_output :: string where
  "redirect_output = ''./redirect.output''"

definition redirection :: "stmt list" where
  "redirection =
     [Fork,
      Branch (\<lambda>v. rc v < 0) fork_failed
        [Branch (\<lambda>v. rc v = 0)
           [Close_stdout, Open redirect_output, Execvp [''wc'', ''redirection.c''], Printf (\<lambda>v. msg_no_print)]
           [Wait]]]"

text \<open>fkfile.c\<close>

definition fkfile_output :: string where
  "fkfile_output = ''./fkfile.output''"

definition fkfile :: "stmt list" where
  "fkfile =
     [Close_stdout, Open fkfile_output, Fork,
      Branch (\<lambda>v. rc v < 0) fork_failed
        [Branch (\<lambda>v. rc v = 0)
           [Execvp [''wc'', ''fkfile.c''], Printf (\<lambda>v. msg_no_print)]
           [Execvp [''ls'', ''..'']]]]"

end
