(* ===== verification/ForkProps.thy ===== *)
theory ForkProps
  imports Forks
begin

text \<open>
  What the programs of \<open>Forks\<close> print, whatever the schedule. The steps of a process that neither forks nor waits depend on nothing but the
  process, so its effects are a list; two processes side by side have their lists shuffled. One lemma for each shape of program (wait
  for the child, or not) leaves the lists to be computed.
\<close>

section \<open>All runs of a program\<close>

text \<open>Every run has at most \<open>n\<close> steps, and one that cannot go on is at a state with \<open>Q\<close>.\<close>

primrec always :: "('a \<Rightarrow> 's \<Rightarrow> 's option) \<Rightarrow> nat \<Rightarrow> ('s \<Rightarrow> bool) \<Rightarrow> 's \<Rightarrow> bool" where
  "always step 0 Q s \<longleftrightarrow> Q s \<and> (\<forall>a. step a s = None)"
| "always step (Suc n) Q s \<longleftrightarrow> (Q s \<or> (\<exists>a. step a s \<noteq> None)) \<and> (\<forall>a t. step a s = Some t \<longrightarrow> always step n Q t)"

lemma always_run:
  "always step n Q s \<Longrightarrow> run step as s = Some t \<Longrightarrow> length as \<le> n \<and> ((\<forall>a. step a t = None) \<longrightarrow> Q t)"
proof (induction n arbitrary: s as)
  case 0
  then show ?case by (cases as) (auto split: option.splits)
next
  case (Suc n)
  then show ?case by (cases as) (auto split: option.splits)
qed

lemma always_end: "Q s \<Longrightarrow> (\<And>a. step a s = None) \<Longrightarrow> always step n Q s"
  by (cases n) simp_all

lemma always_more: "always step n Q s \<Longrightarrow> n \<le> m \<Longrightarrow> always step m Q s"
proof (induction n arbitrary: s m)
  case 0
  then show ?case by (simp add: always_end)
next
  case (Suc n)
  then show ?case by (cases m) auto
qed

text \<open>The local steps of a process that neither forks nor waits, until it has ended.\<close>

definition talks :: "proc \<Rightarrow> bool" where
  "talks P \<longleftrightarrow> (case todo P of Fork # _ \<Rightarrow> True | Wait # _ \<Rightarrow> True | _ \<Rightarrow> False)"

fun after :: "setting \<Rightarrow> nat \<Rightarrow> proc \<Rightarrow> proc" where
  "after e 0 P = P"
| "after e (Suc n) P = after e n (fst (local_step e P))"

fun trace :: "setting \<Rightarrow> nat \<Rightarrow> proc \<Rightarrow> effect list" where
  "trace e 0 P = []"
| "trace e (Suc n) P = snd (local_step e P) # trace e n (fst (local_step e P))"

fun undisturbed :: "setting \<Rightarrow> nat \<Rightarrow> proc \<Rightarrow> bool" where
  "undisturbed e 0 P = True"
| "undisturbed e (Suc n) P = (exited P = None \<and> \<not> talks P \<and> undisturbed e n (fst (local_step e P)))"

definition apply_all :: "effect list \<Rightarrow> world \<Rightarrow> world" where
  "apply_all es w = fold apply_effect es w"

lemma apply_effect_procs [simp]:
  "procs (apply_effect eff w) = procs w"
  "(apply_effect eff (w\<lparr>procs := X\<rparr>)) = (apply_effect eff w)\<lparr>procs := X\<rparr>"
  by (simp_all add: apply_effect_def split: effect.split option.split sink.split)

lemma apply_all_procs [simp]:
  "procs (apply_all es w) = procs w"
  "apply_all es (w\<lparr>procs := X\<rparr>) = (apply_all es w)\<lparr>procs := X\<rparr>"
  unfolding apply_all_def by (induction es arbitrary: w) simp_all

lemma apply_all_simps [simp]:
  "apply_all [] w = w" "apply_all (eff # es) w = apply_all es (apply_effect eff w)"
  by (simp_all add: apply_all_def)

lemma step_local:
  assumes "procs w p = Some P" "exited P = None" "\<not> talks P"
  shows "proc_step e (p, child) w = (if child = None then Some (alone p (local_step e P) w) else None)"
  using assms by (auto simp: proc_step_def talks_def split: list.splits stmt.splits)

lemma step_ended: "procs w p = Some P \<Longrightarrow> exited P \<noteq> None \<Longrightarrow> proc_step e (p, child) w = None"
  by (auto simp: proc_step_def)

lemma step_no_proc: "procs w p = None \<Longrightarrow> proc_step e (p, child) w = None"
  by (simp add: proc_step_def)

lemma alone_simps [simp]:
  "procs (alone p r w) = (procs w)(p \<mapsto> fst r)"
  "apply_all es (alone p r w)\<lparr>procs := X\<rparr> = apply_all (snd r # es) w\<lparr>procs := X\<rparr>"
  by (simp_all add: alone_def set_proc_def)

lemma procs_id: "procs w = X \<Longrightarrow> w\<lparr>procs := X\<rparr> = w"
  by simp

text \<open>A process alone, until it has ended or waits for nothing, and then what comes after.\<close>

lemma always_solo:
  assumes "undisturbed e n P" "procs w = [p \<mapsto> P]"
    "always (proc_step e) m Q ((apply_all (trace e n P) w)\<lparr>procs := [p \<mapsto> after e n P]\<rparr>)"
  shows "always (proc_step e) (n + m) Q w"
  using assms
proof (induction n arbitrary: P w)
  case 0
  show ?case using 0(3) by (simp only: add_0 after.simps trace.simps apply_all_simps procs_id [OF 0(2)])
next
  case (Suc n)
  let ?t = "alone p (local_step e P) w"
  have st: "proc_step e (q, child) w = (if q = p \<and> child = None then Some ?t else None)" for q child
    using Suc.prems by (cases "q = p") (simp_all add: step_local step_no_proc)
  have "always (proc_step e) (n + m) Q ?t"
    using Suc.prems by (intro Suc.IH) (simp_all add: fun_eq_iff)
  then show ?case using st by (auto split: if_splits)
qed

text \<open>The parent can go on with its \<open>wait\<close> only when the child has ended.\<close>

definition parked :: "nat \<Rightarrow> proc \<Rightarrow> bool" where
  "parked c P \<longleftrightarrow> exited P \<noteq> None \<or> (\<exists>rest. todo P = Wait # rest \<and> children P = [c])"

lemma step_parked:
  assumes "procs w p = Some P" "parked c P" "procs w c = Some C" "exited C = None"
  shows "proc_step e (p, child) w = None"
  using assms by (auto simp: proc_step_def parked_def do_wait_def ended_def split: option.split)

text \<open>Parent and child side by side: their effects are shuffled.\<close>

lemma always_pair:
  assumes "undisturbed e n P" "undisturbed e k C" "procs w = [p \<mapsto> P, c \<mapsto> C]" "p \<noteq> c"
    "parked c (after e n P)" "exited (after e k C) \<noteq> None"
    "\<And>es. es \<in> shuffles (trace e n P) (trace e k C) \<Longrightarrow>
       always (proc_step e) m Q ((apply_all es w)\<lparr>procs := [p \<mapsto> after e n P, c \<mapsto> after e k C]\<rparr>)"
  shows "always (proc_step e) (n + k + m) Q w"
  using assms
proof (induction "n + k" arbitrary: n k P C w)
  case 0
  then have z: "n = 0" "k = 0" by simp_all
  show ?case using 0(8) [of "[]"] unfolding z
    by (simp only: add_0 after.simps trace.simps shuffles.simps singleton_iff apply_all_simps procs_id [OF 0(4)] simp_thms)
next
  case (Suc j)
  let ?t = "alone p (local_step e P) w" and ?u = "alone c (local_step e C) w"
  have pc: "procs w p = Some P" "procs w c = Some C" using Suc.prems(3,4) by simp_all
  have p_step: "proc_step e (p, child) w = (if 0 < n \<and> child = None then Some ?t else None)" for child
  proof (cases n)
    case 0
    then have "0 < k" using Suc.hyps(2) by simp
    then have "exited C = None" using Suc.prems(2) by (cases k) simp_all
    then show ?thesis using 0 Suc.prems(5) step_parked [OF pc(1) _ pc(2)] by simp
  qed (use Suc.prems(1) step_local [OF pc(1)] in simp)
  have c_step: "proc_step e (c, child) w = (if 0 < k \<and> child = None then Some ?u else None)" for child
  proof (cases k)
    case 0
    then show ?thesis using Suc.prems(6) step_ended [OF pc(2)] by simp
  qed (use Suc.prems(2) step_local [OF pc(2)] in simp)
  have other: "proc_step e (q, child) w = None" if "q \<noteq> p" "q \<noteq> c" for q child
    using that Suc.prems(3) by (simp add: step_no_proc)
  have t: "always (proc_step e) (j + m) Q ?t" if n: "0 < n"
  proof -
    obtain n' where n': "n = Suc n'" using n by (cases n) simp_all
    have "always (proc_step e) (n' + k + m) Q ?t"
    proof (rule Suc.hyps(1))
      show "j = n' + k" using Suc.hyps(2) n' by simp
      show "procs ?t = [p \<mapsto> fst (local_step e P), c \<mapsto> C]" using Suc.prems(3,4) by (auto simp: fun_eq_iff)
      fix es assume "es \<in> shuffles (trace e n' (fst (local_step e P))) (trace e k C)"
      then have "snd (local_step e P) # es \<in> shuffles (trace e n P) (trace e k C)"
        using Cons_in_shuffles_leftI n' by simp
      from Suc.prems(7) [OF this] show "always (proc_step e) m Q
          ((apply_all es ?t)\<lparr>procs := [p \<mapsto> after e n' (fst (local_step e P)), c \<mapsto> after e k C]\<rparr>)"
        using n' by (simp only: alone_simps after.simps)
    qed (use Suc.prems n' in simp_all)
    then show ?thesis using Suc.hyps(2) n' by simp
  qed
  have u: "always (proc_step e) (j + m) Q ?u" if k: "0 < k"
  proof -
    obtain k' where k': "k = Suc k'" using k by (cases k) simp_all
    have "always (proc_step e) (n + k' + m) Q ?u"
    proof (rule Suc.hyps(1))
      show "j = n + k'" using Suc.hyps(2) k' by simp
      show "procs ?u = [p \<mapsto> P, c \<mapsto> fst (local_step e C)]" using Suc.prems(3,4) by (auto simp: fun_eq_iff)
      fix es assume "es \<in> shuffles (trace e n P) (trace e k' (fst (local_step e C)))"
      then have "snd (local_step e C) # es \<in> shuffles (trace e n P) (trace e k C)"
        using Cons_in_shuffles_rightI k' by simp
      from Suc.prems(7) [OF this] show "always (proc_step e) m Q
          ((apply_all es ?u)\<lparr>procs := [p \<mapsto> after e n P, c \<mapsto> after e k' (fst (local_step e C))]\<rparr>)"
        using k' by (simp only: alone_simps after.simps)
    qed (use Suc.prems k' in simp_all)
    then show ?thesis using Suc.hyps(2) k' by simp
  qed
  have "\<exists>a. proc_step e a w \<noteq> None"
    using p_step [of None] c_step [of None] Suc.hyps(2) by (cases "0 < n") (auto split: if_splits)
  moreover have "always (proc_step e) (j + m) Q x" if "proc_step e a w = Some x" for a x
    using that p_step c_step other t u by (cases a) (metis option.distinct(1) option.inject)
  moreover have "n + k + m = Suc (j + m)" using Suc.hyps(2) by simp
  ultimately show ?case by simp
qed

lemma always_fork:
  assumes "procs w = [p \<mapsto> P]" "exited P = None" "todo P = Fork # rest"
    and failed: "always (proc_step e) n Q (w\<lparr>procs := [p \<mapsto> set_rc (- 1) (P\<lparr>todo := rest\<rparr>)]\<rparr>)"
    and made: "\<And>c. c \<noteq> p \<Longrightarrow> 0 < c \<Longrightarrow> always (proc_step e) n Q
      (w\<lparr>procs := [p \<mapsto> set_rc (int c) (P\<lparr>todo := rest, children := c # children P\<rparr>), c \<mapsto> forked c (P\<lparr>todo := rest\<rparr>)]\<rparr>)"
  shows "always (proc_step e) (Suc n) Q w"
proof -
  have st: "proc_step e (q, child) w = (if q = p then do_fork p (P\<lparr>todo := rest\<rparr>) child w else None)" for q child
    using assms(1-3) by (simp add: proc_step_def)
  have "proc_step e (p, None) w \<noteq> None" by (simp add: st do_fork_def)
  moreover have "always (proc_step e) n Q t" if "proc_step e (q, child) w = Some t" for q child t
  proof (cases child)
    case None
    then have "t = w\<lparr>procs := [p \<mapsto> set_rc (- 1) (P\<lparr>todo := rest\<rparr>)]\<rparr>"
      using that by (simp add: st do_fork_def set_proc_def assms(1) split: if_splits)
    then show ?thesis using failed by simp
  next
    case (Some c)
    then have c: "c \<noteq> p" "0 < c" and t: "t = w\<lparr>procs := [p \<mapsto> set_rc (int c) (P\<lparr>todo := rest, children := c # children P\<rparr>),
        c \<mapsto> forked c (P\<lparr>todo := rest\<rparr>)]\<rparr>"
      using that by (auto simp: st do_fork_def set_proc_def assms(1) split: if_splits)
    show ?thesis unfolding t by (rule made [OF c])
  qed
  ultimately show ?thesis by auto
qed

lemma always_wait:
  assumes "procs w = [p \<mapsto> P, c \<mapsto> C]" "p \<noteq> c" "exited P = None" "todo P = Wait # rest" "children P = [c]" "exited C \<noteq> None"
    and then_: "always (proc_step e) n Q (w\<lparr>procs := [p \<mapsto> set_rc_wait (int c) (P\<lparr>todo := rest, children := []\<rparr>)]\<rparr>)"
  shows "always (proc_step e) (Suc n) Q w"
proof -
  have pc: "procs w p = Some P" "procs w c = Some C" "\<And>q. q \<noteq> p \<Longrightarrow> q \<noteq> c \<Longrightarrow> procs w q = None"
    and drop_c: "(procs w)(c := None) = [p \<mapsto> P]"
    using assms(1,2) by (simp_all add: fun_eq_iff)
  let ?t = "w\<lparr>procs := [p \<mapsto> set_rc_wait (int c) (P\<lparr>todo := rest, children := []\<rparr>)]\<rparr>"
  have st: "proc_step e (q, child) w = (if q = p then do_wait p (P\<lparr>todo := rest\<rparr>) child w else None)" for q child
  proof -
    have "proc_step e (c, child) w = None" by (rule step_ended [OF pc(2) assms(6)])
    moreover have "proc_step e (p, child) w = do_wait p (P\<lparr>todo := rest\<rparr>) child w"
      using pc(1) assms(3,4) by (simp add: proc_step_def)
    moreover have "proc_step e (q, child) w = None" if "q \<noteq> p" "q \<noteq> c" by (rule step_no_proc [OF pc(3) [OF that]])
    ultimately show ?thesis by (cases "q = p"; cases "q = c") simp_all
  qed
  have "do_wait p (P\<lparr>todo := rest\<rparr>) child w = (if child = Some c then Some ?t else None)" for child
    using pc(2) assms(5,6) drop_c by (cases child) (auto simp: do_wait_def ended_def set_proc_def)
  then have "proc_step e (q, child) w = (if q = p \<and> child = Some c then Some ?t else None)" for q child
    by (simp add: st)
  then have "(\<exists>a. proc_step e a w \<noteq> None) \<and> (\<forall>a t. proc_step e a w = Some t \<longrightarrow> always (proc_step e) n Q t)"
    using then_ by (auto split: if_splits)
  then show ?thesis by simp
qed

lemma always_one_ended:
  "procs w = [p \<mapsto> P] \<Longrightarrow> exited P \<noteq> None \<Longrightarrow> Q w \<Longrightarrow> always (proc_step e) n Q w"
  by (rule always_end) (auto simp: proc_step_def split: option.splits)

lemma always_two_ended:
  "procs w = [p \<mapsto> P, c \<mapsto> C] \<Longrightarrow> exited P \<noteq> None \<Longrightarrow> exited C \<noteq> None \<Longrightarrow> Q w \<Longrightarrow> always (proc_step e) n Q w"
  by (rule always_end) (auto simp: proc_step_def split: option.splits)

text \<open>Effects that nobody can see.\<close>

definition visible :: "effect \<Rightarrow> bool" where
  "visible eff = (case eff of Nothing \<Rightarrow> False | Out d s \<Rightarrow> d \<noteq> None \<and> s \<noteq> [] | _ \<Rightarrow> True)"

definition seen :: "setting \<Rightarrow> nat \<Rightarrow> proc \<Rightarrow> effect list" where
  "seen e n P = filter visible (trace e n P)"

text \<open>An empty write to a file leaves it as it is, if it exists or not.\<close>

lemma apply_invisible: "\<not> visible eff \<Longrightarrow> apply_effect eff w = w"
proof (cases eff)
  case (Out d s)
  moreover have "(files w)(f := map_option (\<lambda>t. t) (files w f)) = files w" for f
    by (simp add: option.map_ident)
  moreover assume "\<not> visible eff"
  ultimately show ?thesis by (auto simp: visible_def apply_effect_def split: option.splits sink.splits)
qed (auto simp: visible_def apply_effect_def)

lemma apply_all_visible: "apply_all (filter visible es) w = apply_all es w"
  by (induction es arbitrary: w) (simp_all add: apply_invisible)

lemma apply_all_append: "apply_all (xs @ ys) w = apply_all ys (apply_all xs w)"
  by (simp add: apply_all_def)

lemma apply_all_seen: "apply_all (seen e n P) w = apply_all (trace e n P) w"
  by (simp add: seen_def apply_all_visible)

text \<open>The common course of the programs: some statements, \<open>fork\<close>, and then the failure or two processes side by side.\<close>

lemma always_forking:
  assumes start: "undisturbed e i B" "procs w = [p \<mapsto> B]" "after e i B = P" "exited P = None" "todo P = Fork # rest"
    and failed: "undisturbed e j (set_rc (- 1) (P\<lparr>todo := rest\<rparr>))" "exited (after e j (set_rc (- 1) (P\<lparr>todo := rest\<rparr>))) \<noteq> None"
      "\<And>X. Q ((apply_all (seen e i B @ seen e j (set_rc (- 1) (P\<lparr>todo := rest\<rparr>))) w)\<lparr>procs := X\<rparr>)"
    and sides: "\<And>c. c \<noteq> p \<Longrightarrow> 0 < c \<Longrightarrow> A c = set_rc (int c) (P\<lparr>todo := rest, children := c # children P\<rparr>)"
      "\<And>c. c \<noteq> p \<Longrightarrow> 0 < c \<Longrightarrow> C c = forked c (P\<lparr>todo := rest\<rparr>)"
      "\<And>c. c \<noteq> p \<Longrightarrow> 0 < c \<Longrightarrow> undisturbed e n (A c) \<and> undisturbed e k (C c) \<and> parked c (after e n (A c)) \<and> exited (after e k (C c)) \<noteq> None"
      "\<And>c es. c \<noteq> p \<Longrightarrow> 0 < c \<Longrightarrow> es \<in> shuffles (seen e n (A c)) (seen e k (C c)) \<Longrightarrow>
         always (proc_step e) m Q ((apply_all (seen e i B @ es) w)\<lparr>procs := [p \<mapsto> after e n (A c), c \<mapsto> after e k (C c)]\<rparr>)"
    and len: "j \<le> n + k + m"
  shows "always (proc_step e) (i + Suc (n + k + m)) Q w"
proof (rule always_solo [OF start(1,2)], rule always_fork)
  let ?w = "(apply_all (trace e i B) w)\<lparr>procs := [p \<mapsto> after e i B]\<rparr>"
  show "procs ?w = [p \<mapsto> P]" "exited P = None" "todo P = Fork # rest" using start by simp_all
  show "always (proc_step e) (n + k + m) Q (?w\<lparr>procs := [p \<mapsto> set_rc (- 1) (P\<lparr>todo := rest\<rparr>)]\<rparr>)" (is "always _ _ _ ?v")
  proof (rule always_more [OF _ len])
    have "always (proc_step e) (j + 0) Q ?v"
    proof (rule always_solo [OF failed(1)])
      let ?u = "(apply_all (trace e j (set_rc (- 1) (P\<lparr>todo := rest\<rparr>))) ?v)\<lparr>procs := [p \<mapsto> after e j (set_rc (- 1) (P\<lparr>todo := rest\<rparr>))]\<rparr>"
      have "Q ?u" using failed(3) by (simp add: apply_all_append apply_all_seen)
      then show "always (proc_step e) 0 Q ?u" using failed(2) by (intro always_one_ended) simp_all
    qed simp
    then show "always (proc_step e) j Q ?v" by simp
  qed
  fix c :: nat assume c: "c \<noteq> p" "0 < c"
  show "always (proc_step e) (n + k + m) Q
      (?w\<lparr>procs := [p \<mapsto> set_rc (int c) (P\<lparr>todo := rest, children := c # children P\<rparr>), c \<mapsto> forked c (P\<lparr>todo := rest\<rparr>)]\<rparr>)"
    (is "always _ _ _ ?v")
  proof (rule always_pair [where P = "A c" and C = "C c" and p = p and c = c])
    fix es assume "es \<in> shuffles (trace e n (A c)) (trace e k (C c))"
    then have "filter visible es \<in> shuffles (seen e n (A c)) (seen e k (C c))"
      unfolding seen_def by (metis filter_shuffles imageI)
    from sides(4) [OF c this]
    show "always (proc_step e) m Q ((apply_all es ?v)\<lparr>procs := [p \<mapsto> after e n (A c), c \<mapsto> after e k (C c)]\<rparr>)"
      by (simp add: apply_all_append apply_all_seen apply_all_visible)
  qed (use c sides(1-3) [OF c] in simp_all)
qed

text \<open>Two ways to go on: the parent waits, and ends after it; or both go to their ends.\<close>

lemma always_forking_wait:
  assumes start: "undisturbed e i B" "procs w = [p \<mapsto> B]" "after e i B = P" "exited P = None" "todo P = Fork # rest"
    and failed: "undisturbed e j (set_rc (- 1) (P\<lparr>todo := rest\<rparr>))" "exited (after e j (set_rc (- 1) (P\<lparr>todo := rest\<rparr>))) \<noteq> None"
      "\<And>X. Q ((apply_all (seen e i B @ seen e j (set_rc (- 1) (P\<lparr>todo := rest\<rparr>))) w)\<lparr>procs := X\<rparr>)"
    and A: "\<And>c. A c = set_rc (int c) (P\<lparr>todo := rest, children := c # children P\<rparr>)"
      "\<And>c. c \<noteq> p \<Longrightarrow> 0 < c \<Longrightarrow> undisturbed e n (A c) \<and> exited (after e n (A c)) = None \<and> seen e n (A c) = [] \<and>
         todo (after e n (A c)) = Wait # rest' \<and> children (after e n (A c)) = [c]"
    and C: "\<And>c. C c = forked c (P\<lparr>todo := rest\<rparr>)"
      "\<And>c. c \<noteq> p \<Longrightarrow> 0 < c \<Longrightarrow> undisturbed e k (C c) \<and> exited (after e k (C c)) \<noteq> None"
    and D: "\<And>c. D c = set_rc_wait (int c) (after e n (A c)\<lparr>todo := rest', children := []\<rparr>)"
      "\<And>c. c \<noteq> p \<Longrightarrow> 0 < c \<Longrightarrow> undisturbed e l (D c) \<and> exited (after e l (D c)) \<noteq> None"
      "\<And>c X. c \<noteq> p \<Longrightarrow> 0 < c \<Longrightarrow> Q ((apply_all (seen e i B @ seen e k (C c) @ seen e l (D c)) w)\<lparr>procs := X\<rparr>)"
    and len: "j \<le> n + k + Suc l"
  shows "always (proc_step e) (i + Suc (n + k + Suc l)) Q w"
proof (rule always_forking [where A = A and C = C and Q = Q, OF start failed A(1) C(1) _ _ len])
  fix c :: nat assume c: "c \<noteq> p" "0 < c"
  note Ac = A(2) [OF c] and Cc = C(2) [OF c] and Dc = D(2) [OF c]
  show "undisturbed e n (A c) \<and> undisturbed e k (C c) \<and> parked c (after e n (A c)) \<and> exited (after e k (C c)) \<noteq> None"
    using Ac Cc by (simp add: parked_def)
  fix es assume "es \<in> shuffles (seen e n (A c)) (seen e k (C c))"
  then have es: "es = seen e k (C c)" using Ac by simp
  let ?w = "(apply_all (seen e i B @ es) w)\<lparr>procs := [p \<mapsto> after e n (A c), c \<mapsto> after e k (C c)]\<rparr>"
  show "always (proc_step e) (Suc l) Q ?w"
  proof (rule always_wait)
    show "procs ?w = [p \<mapsto> after e n (A c), c \<mapsto> after e k (C c)]" by simp
    have "always (proc_step e) (l + 0) Q (?w\<lparr>procs := [p \<mapsto> D c]\<rparr>)"
    proof (rule always_solo [where P = "D c" and n = l])
      let ?u = "(apply_all (trace e l (D c)) (?w\<lparr>procs := [p \<mapsto> D c]\<rparr>))\<lparr>procs := [p \<mapsto> after e l (D c)]\<rparr>"
      have "Q ?u" using D(3) [OF c] by (simp add: es apply_all_append apply_all_seen)
      then show "always (proc_step e) 0 Q ?u" using Dc by (intro always_one_ended [where p = p and P = "after e l (D c)"]) auto
    qed (use Dc in simp_all)
    then show "always (proc_step e) l Q (?w\<lparr>procs := [p \<mapsto> set_rc_wait (int c) (after e n (A c)\<lparr>todo := rest', children := []\<rparr>)]\<rparr>)"
      by (simp add: D(1))
  qed (use c Ac Cc in simp_all)
qed

lemma always_forking_both:
  assumes start: "undisturbed e i B" "procs w = [p \<mapsto> B]" "after e i B = P" "exited P = None" "todo P = Fork # rest"
    and failed: "undisturbed e j (set_rc (- 1) (P\<lparr>todo := rest\<rparr>))" "exited (after e j (set_rc (- 1) (P\<lparr>todo := rest\<rparr>))) \<noteq> None"
      "\<And>X. Q ((apply_all (seen e i B @ seen e j (set_rc (- 1) (P\<lparr>todo := rest\<rparr>))) w)\<lparr>procs := X\<rparr>)"
    and A: "\<And>c. A c = set_rc (int c) (P\<lparr>todo := rest, children := c # children P\<rparr>)"
      "\<And>c. c \<noteq> p \<Longrightarrow> 0 < c \<Longrightarrow> undisturbed e n (A c) \<and> exited (after e n (A c)) \<noteq> None"
    and C: "\<And>c. C c = forked c (P\<lparr>todo := rest\<rparr>)"
      "\<And>c. c \<noteq> p \<Longrightarrow> 0 < c \<Longrightarrow> undisturbed e k (C c) \<and> exited (after e k (C c)) \<noteq> None"
    and Q: "\<And>c es X. c \<noteq> p \<Longrightarrow> 0 < c \<Longrightarrow> es \<in> shuffles (seen e n (A c)) (seen e k (C c)) \<Longrightarrow>
      Q ((apply_all (seen e i B @ es) w)\<lparr>procs := X\<rparr>)"
    and len: "j \<le> n + k + 0"
  shows "always (proc_step e) (i + Suc (n + k + 0)) Q w"
proof (rule always_forking [where A = A and C = C and Q = Q, OF start failed A(1) C(1) _ _ len])
  fix c :: nat assume c: "c \<noteq> p" "0 < c"
  show "undisturbed e n (A c) \<and> undisturbed e k (C c) \<and> parked c (after e n (A c)) \<and> exited (after e k (C c)) \<noteq> None"
    using A(2) C(2) c by (simp add: parked_def)
  fix es assume es: "es \<in> shuffles (seen e n (A c)) (seen e k (C c))"
  show "always (proc_step e) 0 Q ((apply_all (seen e i B @ es) w)\<lparr>procs := [p \<mapsto> after e n (A c), c \<mapsto> after e k (C c)]\<rparr>)"
    by (rule always_two_ended [where P = "after e n (A c)" and C = "after e k (C c)" and p = p and c = c])
      (use A(2) [OF c] C(2) [OF c] Q [OF c es] in auto)
qed

text \<open>What a program writes to standard output and to standard error.\<close>

definition stdout_text :: "chunk list \<Rightarrow> string" where
  "stdout_text cs = concat (map (\<lambda>c. case c of Stdout s \<Rightarrow> s | Stderr s \<Rightarrow> []) cs)"

definition stderr_text :: "chunk list \<Rightarrow> string" where
  "stderr_text cs = concat (map (\<lambda>c. case c of Stdout s \<Rightarrow> [] | Stderr s \<Rightarrow> s) cs)"

lemma chunk_simps [simp]:
  "stdout_text [] = []" "stdout_text (Stdout s # cs) = s @ stdout_text cs" "stdout_text (Stderr s # cs) = stdout_text cs"
  "stderr_text [] = []" "stderr_text (Stdout s # cs) = stderr_text cs" "stderr_text (Stderr s # cs) = s @ stderr_text cs"
  "chunk_effect d (Stdout s) = Out d s" "chunk_effect d (Stderr s) = Err s"
  by (simp_all add: stdout_text_def stderr_text_def chunk_effect_def)

text \<open>Texts of whole lines go through a line buffer at once.\<close>

definition whole :: "string \<Rightarrow> bool" where
  "whole s \<longleftrightarrow> s \<noteq> [] \<and> last s = newline"

lemma whole_line [simp]: "whole (line s)"
  by (simp add: whole_def line_def)

lemma whole_msgs [simp]:
  "whole msg_failed" "whole (msg_child_x x p)" "whole (msg_parent_x r x p)" "whole (msg_hello p)" "whole (msg_child p)"
  "whole (msg_parent r p)" "whole (msg_rc r)" "whole (msg_initpid r)" "whole (msg_child_hello p)" "whole (msg_goodbye p)"
  "whole (msg_parent_wait r rw p)"
  by (simp_all add: msg_failed_def msg_child_x_def msg_parent_x_def msg_hello_def msg_child_def msg_parent_def msg_rc_def
      msg_initpid_def msg_child_hello_def msg_goodbye_def msg_parent_wait_def)

lemma buffer_whole [simp]:
  assumes "whole t"
  shows "finished_lines t = t" "unfinished t = []" "finished_lines (s @ t) = s @ t" "unfinished (s @ t) = []" "t \<noteq> []"
proof -
  obtain u where "t = u @ [newline]" using assms unfolding whole_def by (metis append_butlast_last_id)
  then show "finished_lines t = t" "unfinished t = []" "finished_lines (s @ t) = s @ t" "unfinished (s @ t) = []" "t \<noteq> []"
    by (simp_all add: finished_lines_def unfinished_def)
qed

lemma buffer_empty [simp]: "finished_lines [] = []" "unfinished [] = []"
  by (simp_all add: finished_lines_def unfinished_def)

lemma visible_simps [simp]:
  "visible (Out (Some d) s) \<longleftrightarrow> s \<noteq> []" "\<not> visible (Out None s)" "\<not> visible (Out d' [])" "\<not> visible Nothing" "visible (Create f)" "visible (Err s)"
  by (simp_all add: visible_def)

lemma apply_effect_simps [simp]:
  "apply_effect (Out (Some Console) s) w = w\<lparr>console := console w @ s\<rparr>"
  "apply_effect (Out (Some (File f)) s) w = w\<lparr>files := (files w)(f := map_option (\<lambda>t. t @ s) (files w f))\<rparr>"
  "apply_effect (Err s) w = w\<lparr>errors := errors w @ s\<rparr>"
  "apply_effect (Create f) w = w\<lparr>files := (files w)(f \<mapsto> [])\<rparr>"
  "apply_effect Nothing w = w" "apply_effect (Out None s) w = w"
  by (simp_all add: apply_effect_def)

lemma buffer_no_print [simp]:
  "finished_lines msg_no_print = []" "unfinished msg_no_print = msg_no_print" "msg_no_print \<noteq> []"
  by (simp_all add: finished_lines_def unfinished_def msg_no_print_def newline_def)

lemmas stmt_simps = local_step_def local_stmt_def put_def exit_proc_def do_execvp_def set_rc_def forked_def set_rc_wait_def
  boot_proc_def talks_def parked_def fork_failed_def Let_def eval_nat_numeral

lemmas local_simps = stmt_simps seen_def

lemma boot_simps [simp]:
  "procs (boot fs p main) = [p \<mapsto> boot_proc p main]" "console (boot fs p main) = []" "errors (boot fs p main) = []" "files (boot fs p main) = fs"
  by (simp_all add: boot_def)

section \<open>The programs that wait\<close>

text \<open>
  The console after \<open>callingforkandwait\<close> and \<open>callexec\<close>, with the pid \<open>c\<close> of the child. What was printed before \<open>fork\<close> is still in
  the buffer when standard output is no terminal: it is copied with the process, and it is lost when the process runs another program.
\<close>

definition forkandwait_text :: "bool \<Rightarrow> nat \<Rightarrow> nat \<Rightarrow> string" where
  "forkandwait_text terminal p c =
     msg_hello p @ msg_child c @ (if terminal then [] else msg_hello p) @ msg_parent (int c) p"

definition callexec_text :: "bool \<Rightarrow> chunk list option \<Rightarrow> nat \<Rightarrow> nat \<Rightarrow> string" where
  "callexec_text terminal wc p c =
     (if terminal then msg_hello p @ msg_child c @ (case wc of None \<Rightarrow> msg_no_print | Some chunks \<Rightarrow> stdout_text chunks) @ []
      else (case wc of None \<Rightarrow> msg_hello p @ msg_child c @ msg_no_print | Some chunks \<Rightarrow> stdout_text chunks) @ msg_hello p) @
     msg_parent_wait (int c) (int c) p"

definition callexec_errors :: "chunk list option \<Rightarrow> string" where
  "callexec_errors wc = (case wc of None \<Rightarrow> [] | Some chunks \<Rightarrow> stderr_text chunks)"

lemma forkandwait_runs:
  "always (proc_step e) (1 + Suc (2 + 4 + Suc 2))
    (\<lambda>w. console w = msg_hello p \<and> errors w = msg_failed \<or>
      errors w = [] \<and> (\<exists>c. c \<noteq> p \<and> console w = forkandwait_text (tty e) p c))
    (boot fs p callingforkandwait)"
  by (cases "tty e"; rule always_forking_wait [where j = 3 and B = "boot_proc p callingforkandwait" and rest = "drop 2 callingforkandwait"
        and rest' = "[Printf (\<lambda>v. msg_parent (rc v) (pid v))]", OF _ _ refl _ _ _ _ _ refl _ refl _ refl])
    (auto simp: local_simps callingforkandwait_def forkandwait_text_def)

text \<open>The program that \<open>execvp\<close> started: its writes, and its end.\<close>

lemma writes_run:
  assumes "todo P = map Write chunks" "exited P = None" "buffered P = []"
  shows "undisturbed e (Suc (length chunks)) P \<and> exited (after e (Suc (length chunks)) P) = Some 0 \<and>
    trace e (Suc (length chunks)) P = map (chunk_effect (stdout_fd P)) chunks @ [Out (stdout_fd P) []]"
  using assms
proof (induction chunks arbitrary: P)
  case Nil
  then show ?case by (simp add: talks_def local_step_def exit_proc_def)
next
  case (Cons c chunks)
  let ?P = "P\<lparr>todo := map Write chunks\<rparr>"
  have "local_step e P = (?P, chunk_effect (stdout_fd P) c)" "\<not> talks P"
    using Cons.prems by (simp_all add: local_step_def local_stmt_def talks_def)
  then show ?case using Cons.IH [of ?P] Cons.prems by simp
qed

lemma after_add: "after e (m + n) P = after e n (after e m P)"
  by (induction m arbitrary: P) simp_all

lemma trace_add: "trace e (m + n) P = trace e m P @ trace e n (after e m P)"
  by (induction m arbitrary: P) simp_all

lemma undisturbed_add: "undisturbed e (m + n) P \<longleftrightarrow> undisturbed e m P \<and> undisturbed e n (after e m P)"
  by (induction m arbitrary: P) auto

lemma exec_run:
  assumes "undisturbed e m P" "todo (after e m P) = map Write chunks" "exited (after e m P) = None" "buffered (after e m P) = []"
  shows "undisturbed e (m + Suc (length chunks)) P \<and> exited (after e (m + Suc (length chunks)) P) \<noteq> None"
    and "apply_all (seen e (m + Suc (length chunks)) P) w =
      apply_all (map (chunk_effect (stdout_fd (after e m P))) chunks) (apply_all (seen e m P) w)"
  using writes_run [OF assms(2-4), of e] assms(1)
  by (simp_all only: undisturbed_add after_add apply_all_seen trace_add apply_all_append apply_all_simps apply_invisible visible_simps
      not_False_eq_True option.distinct simp_thms)

lemma apply_writes:
  "apply_all (map (Out (Some Console)) chunks) w = w\<lparr>console := console w @ concat chunks\<rparr>"
  by (induction chunks arbitrary: w) simp_all

lemma apply_chunks:
  "apply_all (map (chunk_effect (Some Console)) cs) w =
     w\<lparr>console := console w @ stdout_text cs, errors := errors w @ stderr_text cs\<rparr>"
  "apply_all (map (chunk_effect None) cs) w = w\<lparr>errors := errors w @ stderr_text cs\<rparr>"
  "apply_all (map (chunk_effect (Some (File f))) cs) w = w\<lparr>errors := errors w @ stderr_text cs,
     files := (files w)(f := map_option (\<lambda>t. t @ stdout_text cs) (files w f))\<rparr>"
proof (induction cs arbitrary: w)
  case Nil
  { case 1 show ?case by simp }
  { case 2 show ?case by simp }
  { case 3 show ?case by (simp add: option.map_ident) }
next
  case (Cons c cs)
  { case 1 show ?case by (cases c) (simp_all add: Cons.IH(1)) }
  { case 2 show ?case by (cases c) (simp_all add: Cons.IH(2)) }
  { case 3 show ?case by (cases c) (simp_all add: Cons.IH(3) option.map_comp comp_def cong: if_cong) }
qed

lemma callexec_fails:
  assumes "program e [''wc'', ''callexec.c''] (Some Console) = None"
  shows "always (proc_step e) (1 + Suc (2 + 6 + Suc 2))
    (\<lambda>w. console w = msg_hello p \<and> errors w = msg_failed \<or>
      errors w = callexec_errors None \<and> (\<exists>c. c \<noteq> p \<and> console w = callexec_text (tty e) None p c))
    (boot fs p callexec)"
  by (cases "tty e"; rule always_forking_wait [where j = 3 and B = "boot_proc p callexec" and rest = "drop 2 callexec"
        and rest' = "[Printf (\<lambda>v. msg_parent_wait (rc v) (rc_wait v) (pid v))]", OF _ _ refl _ _ _ _ _ refl _ refl _ refl])
    (auto simp: local_simps callexec_def callexec_text_def callexec_errors_def assms)

lemma callexec_child:
  assumes "program e [''wc'', ''callexec.c''] (Some Console) = Some chunks"
    and C: "C = forked c (after e 1 (boot_proc p callexec)\<lparr>todo := drop 2 callexec\<rparr>)" and k: "k = 4 + Suc (length chunks)"
  shows "undisturbed e k C \<and> exited (after e k C) \<noteq> None \<and>
    apply_all (seen e k C) w = w\<lparr>console := console w @ (if tty e then msg_child c else []) @ stdout_text chunks,
      errors := errors w @ stderr_text chunks\<rparr>"
proof -
  have "undisturbed e 4 C" "todo (after e 4 C) = map Write chunks" "exited (after e 4 C) = None" "buffered (after e 4 C) = []"
    "stdout_fd (after e 4 C) = Some Console" "seen e 4 C = (if tty e then [Out (Some Console) (msg_child c)] else [])"
    unfolding C by (cases "tty e"; simp add: local_simps callexec_def assms)+
  then show ?thesis using exec_run [of e 4 C chunks] by (simp add: k apply_chunks)
qed

lemma callexec_execs:
  assumes "program e [''wc'', ''callexec.c''] (Some Console) = Some chunks" and k: "k = 4 + Suc (length chunks)"
  shows "always (proc_step e) (1 + Suc (2 + k + Suc 2))
    (\<lambda>w. console w = msg_hello p \<and> errors w = msg_failed \<or>
      errors w = callexec_errors (Some chunks) \<and> (\<exists>c. c \<noteq> p \<and> console w = callexec_text (tty e) (Some chunks) p c))
    (boot fs p callexec)"
proof -
  let ?Q = "\<lambda>w. console w = msg_hello p \<and> errors w = msg_failed \<or>
      errors w = callexec_errors (Some chunks) \<and> (\<exists>c. c \<noteq> p \<and> console w = callexec_text (tty e) (Some chunks) p c)"
  let ?B = "boot_proc p callexec" and ?rest = "drop 2 callexec" and ?rest' = "[Printf (\<lambda>v. msg_parent_wait (rc v) (rc_wait v) (pid v))]"
  let ?P = "after e 1 ?B"
  define A where "A c = set_rc (int c) (?P\<lparr>todo := ?rest, children := c # children ?P\<rparr>)" for c
  define C where "C c = forked c (?P\<lparr>todo := ?rest\<rparr>)" for c
  define D where "D c = set_rc_wait (int c) (after e 2 (A c)\<lparr>todo := ?rest', children := []\<rparr>)" for c
  note simps = local_simps callexec_def callexec_text_def callexec_errors_def
  note child = callexec_child [OF assms(1) C_def k]
  have a: "undisturbed e 2 (A c)" "exited (after e 2 (A c)) = None" "seen e 2 (A c) = []"
      "todo (after e 2 (A c)) = Wait # ?rest'" "children (after e 2 (A c)) = [c]" if "0 < c" for c
    using that by (cases "tty e"; simp add: A_def simps)+
  have d: "undisturbed e 2 (D c)" "exited (after e 2 (D c)) \<noteq> None"
      "apply_all (seen e 2 (D c)) w = w\<lparr>console := console w @ (if tty e then [] else msg_hello p) @ msg_parent_wait (int c) (int c) p\<rparr>"
    if "0 < c" for c w
    using that by (cases "tty e"; simp add: D_def A_def simps)+
  have s: "apply_all (seen e (Suc 0) ?B) w = w\<lparr>console := console w @ (if tty e then msg_hello p else [])\<rparr>" for w
    by (cases "tty e"; simp add: simps)
  show ?thesis
  proof (rule always_forking_wait [where j = 3 and B = ?B and rest = ?rest and rest' = ?rest' and A = A and C = C and D = D and Q = ?Q and k = k])
    show "?Q ((apply_all (seen e 1 ?B @ seen e k (C c) @ seen e 2 (D c)) (boot fs p callexec))\<lparr>procs := X\<rparr>)"
      if "c \<noteq> p" "0 < c" for c X
      using that by (auto simp: apply_all_append s d child callexec_text_def callexec_errors_def)
    show "?Q ((apply_all (seen e 1 ?B @ seen e 3 (set_rc (- 1) (?P\<lparr>todo := ?rest\<rparr>))) (boot fs p callexec))\<lparr>procs := X\<rparr>)" for X
      by (cases "tty e"; simp add: simps)
    show "undisturbed e 1 ?B" "exited ?P = None" "todo ?P = Fork # ?rest" "undisturbed e 3 (set_rc (- 1) (?P\<lparr>todo := ?rest\<rparr>))"
      "exited (after e 3 (set_rc (- 1) (?P\<lparr>todo := ?rest\<rparr>))) \<noteq> None"
      by (cases "tty e"; simp add: simps)+
  qed (use a d child in \<open>simp_all add: A_def C_def D_def\<close>)
qed

section \<open>The programs that do not wait\<close>

text \<open>The lines of the two processes, in the order of each, and the texts that their shuffles make.\<close>

definition shuffled_text :: "bool \<Rightarrow> string list \<Rightarrow> string list \<Rightarrow> string set" where
  "shuffled_text terminal xs ys =
     concat ` (if terminal then shuffles xs ys else shuffles [concat xs] [concat ys])"

lemma shuffles_map:
  "zs \<in> shuffles (map f xs) (map f ys) \<Longrightarrow> \<exists>ts \<in> shuffles xs ys. zs = map f ts"
proof (induction xs ys arbitrary: zs rule: shuffles.induct)
  case (3 x xs y ys)
  from 3(3) have "zs \<in> (#) (f x) ` shuffles (map f xs) (map f (y # ys)) \<union> (#) (f y) ` shuffles (map f (x # xs)) (map f ys)"
    by (simp only: list.map shuffles.simps)
  then consider us where "zs = f x # us" "us \<in> shuffles (map f xs) (map f (y # ys))"
    | us where "zs = f y # us" "us \<in> shuffles (map f (x # xs)) (map f ys)"
    by blast
  then show ?case
  proof cases
    case (1 us)
    then obtain ts where "ts \<in> shuffles xs (y # ys)" "us = map f ts" using 3(1) by blast
    then show ?thesis using 1(1) by (intro bexI [of _ "x # ts"]) (simp_all add: Cons_in_shuffles_leftI)
  next
    case (2 us)
    then obtain ts where "ts \<in> shuffles (x # xs) ys" "us = map f ts" using 3(2) by blast
    then show ?thesis using 2(1) by (intro bexI [of _ "y # ts"]) (simp_all add: Cons_in_shuffles_rightI)
  qed
qed simp_all

lemma shuffled_textI:
  assumes "es \<in> shuffles (map (Out (Some Console)) xs) (map (Out (Some Console)) ys)"
  shows "\<exists>t \<in> concat ` shuffles xs ys. \<forall>w. apply_all es w = w\<lparr>console := console w @ t\<rparr>"
proof -
  obtain ts where "ts \<in> shuffles xs ys" "es = map (Out (Some Console)) ts"
    using shuffles_map [OF assms] by blast
  then show ?thesis by (auto simp: apply_writes)
qed

definition callingfork_lines :: "nat \<Rightarrow> nat \<Rightarrow> string list \<times> string list" where
  "callingfork_lines p c = ([msg_parent_x (int c) 700 p], [msg_child_x 900 c])"

definition callfork2_lines :: "nat \<Rightarrow> nat \<Rightarrow> string list \<times> string list" where
  "callfork2_lines p c =
     ([msg_rc (int c), msg_initpid (int p), if c = p + 1 then msg_child_hello p else msg_goodbye p],
      [msg_rc 0, msg_initpid (int p), msg_goodbye c])"

lemma always_forking_lines:
  assumes start: "undisturbed e i B" "procs w = [p \<mapsto> B]" "after e i B = P" "exited P = None" "todo P = Fork # rest" "seen e i B = []"
    and failed: "undisturbed e j (set_rc (- 1) (P\<lparr>todo := rest\<rparr>))" "exited (after e j (set_rc (- 1) (P\<lparr>todo := rest\<rparr>))) \<noteq> None"
      "\<And>X. Q ((apply_all (seen e j (set_rc (- 1) (P\<lparr>todo := rest\<rparr>))) w)\<lparr>procs := X\<rparr>)"
    and A: "\<And>c. A c = set_rc (int c) (P\<lparr>todo := rest, children := c # children P\<rparr>)"
      "\<And>c. c \<noteq> p \<Longrightarrow> 0 < c \<Longrightarrow> undisturbed e n (A c) \<and> exited (after e n (A c)) \<noteq> None \<and>
         seen e n (A c) = map (Out (Some Console)) (if tty e then xs c else [concat (xs c)])"
    and C: "\<And>c. C c = forked c (P\<lparr>todo := rest\<rparr>)"
      "\<And>c. c \<noteq> p \<Longrightarrow> 0 < c \<Longrightarrow> undisturbed e k (C c) \<and> exited (after e k (C c)) \<noteq> None \<and>
         seen e k (C c) = map (Out (Some Console)) (if tty e then ys c else [concat (ys c)])"
    and Q: "\<And>c t X. c \<noteq> p \<Longrightarrow> 0 < c \<Longrightarrow> t \<in> shuffled_text (tty e) (xs c) (ys c) \<Longrightarrow>
      Q (w\<lparr>console := console w @ t, procs := X\<rparr>)"
    and len: "j \<le> n + k + 0"
  shows "always (proc_step e) (i + Suc (n + k + 0)) Q w"
proof (rule always_forking_both [where A = A and C = C and Q = Q, OF start(1-5) failed(1,2) _ A(1) _ C(1) _ _ len])
  fix c :: nat and es X assume c: "c \<noteq> p" "0 < c" and es: "es \<in> shuffles (seen e n (A c)) (seen e k (C c))"
  then have "es \<in> shuffles (map (Out (Some Console)) (if tty e then xs c else [concat (xs c)]))
      (map (Out (Some Console)) (if tty e then ys c else [concat (ys c)]))"
    using A(2) C(2) by simp
  from shuffled_textI [OF this] obtain t where t: "t \<in> shuffled_text (tty e) (xs c) (ys c)"
    "\<forall>w. apply_all es w = w\<lparr>console := console w @ t\<rparr>"
    unfolding shuffled_text_def by (auto split: if_splits)
  show "Q ((apply_all (seen e i B @ es) w)\<lparr>procs := X\<rparr>)" using Q [OF c t(1)] t(2) start(6) by simp
qed (use A(2) C(2) failed(3) start(6) in simp_all)

lemma callingfork_runs:
  "always (proc_step e) (1 + Suc (5 + 5 + 0))
    (\<lambda>w. console w = [] \<and> errors w = msg_failed \<or>
      errors w = [] \<and> (\<exists>c. c \<noteq> p \<and> console w \<in> shuffled_text (tty e) (fst (callingfork_lines p c)) (snd (callingfork_lines p c))))
    (boot fs p callingfork)"
  (is "always _ _ ?Q _")
proof (rule always_forking_lines [where j = 3 and B = "boot_proc p callingfork" and rest = "drop 2 callingfork" and Q = ?Q
      and xs = "\<lambda>c. fst (callingfork_lines p c)" and ys = "\<lambda>c. snd (callingfork_lines p c)", OF _ _ refl _ _ _ _ _ _ refl _ refl])
  show "?Q ((boot fs p callingfork)\<lparr>console := console (boot fs p callingfork) @ t, procs := X\<rparr>)"
    if "c \<noteq> p" "t \<in> shuffled_text (tty e) (fst (callingfork_lines p c)) (snd (callingfork_lines p c))" for c t X
    using that by auto
qed (cases "tty e"; simp add: local_simps callingfork_def callingfork_lines_def)+

lemma callfork2_runs:
  "always (proc_step e) (1 + Suc (6 + 6 + 0))
    (\<lambda>w. console w = msg_rc (- 1) @ msg_initpid (int p) \<and> errors w = msg_failed \<or>
      errors w = [] \<and> (\<exists>c. c \<noteq> p \<and> console w \<in> shuffled_text (tty e) (fst (callfork2_lines p c)) (snd (callfork2_lines p c))))
    (boot fs p callfork2)"
  (is "always _ _ ?Q _")
proof (rule always_forking_lines [where j = 5 and B = "boot_proc p callfork2" and rest = "drop 2 callfork2" and Q = ?Q
      and xs = "\<lambda>c. fst (callfork2_lines p c)" and ys = "\<lambda>c. snd (callfork2_lines p c)", OF _ _ refl _ _ _ _ _ _ refl _ refl])
  show "?Q ((boot fs p callfork2)\<lparr>console := console (boot fs p callfork2) @ t, procs := X\<rparr>)"
    if "c \<noteq> p" "t \<in> shuffled_text (tty e) (fst (callfork2_lines p c)) (snd (callfork2_lines p c))" for c t X
    using that by auto
qed (cases "tty e"; simp add: local_simps callfork2_def callfork2_lines_def)+

section \<open>The programs that redirect their output\<close>

text \<open>The writes of a program with the standard output \<open>d\<close>, or of what is done when it cannot be run.\<close>

definition exec_chunks :: "setting \<Rightarrow> sink option \<Rightarrow> string list \<Rightarrow> chunk list \<Rightarrow> chunk list" where
  "exec_chunks e d args otherwise = (case program e args d of None \<Rightarrow> otherwise | Some chunks \<Rightarrow> chunks)"

definition exec_steps :: "setting \<Rightarrow> sink option \<Rightarrow> string list \<Rightarrow> nat \<Rightarrow> nat" where
  "exec_steps e d args otherwise = (case program e args d of None \<Rightarrow> otherwise | Some chunks \<Rightarrow> Suc (length chunks))"

definition effects :: "sink option \<Rightarrow> chunk list \<Rightarrow> effect list" where
  "effects d cs = filter visible (map (chunk_effect d) cs)"

lemma seen_exec:
  assumes "undisturbed e m P" "todo (after e m P) = map Write chunks" "exited (after e m P) = None" "buffered (after e m P) = []"
  shows "undisturbed e (m + Suc (length chunks)) P \<and> exited (after e (m + Suc (length chunks)) P) \<noteq> None \<and>
    seen e (m + Suc (length chunks)) P = seen e m P @ effects (stdout_fd (after e m P)) chunks"
proof -
  note run = writes_run [OF assms(2-4), of e]
  have "filter visible (trace e (Suc (length chunks)) (after e m P)) = effects (stdout_fd (after e m P)) chunks"
    using run by (simp only: filter_append effects_def) simp
  then show ?thesis using run assms(1)
    by (simp only: undisturbed_add after_add seen_def trace_add filter_append option.distinct simp_thms)
qed

definition file_sink :: "setting \<Rightarrow> string \<Rightarrow> sink option" where
  "file_sink e f = (if opens e f then Some (File f) else None)"

lemma apply_effects:
  "apply_all (effects (file_sink e f) cs) w = w\<lparr>errors := errors w @ stderr_text cs,
     files := (if opens e f then (files w)(f := map_option (\<lambda>t. t @ stdout_text cs) (files w f)) else files w)\<rparr>"
  by (simp add: effects_def apply_all_visible file_sink_def apply_chunks)

abbreviation (input) wc_redirection :: "string list" where
  "wc_redirection \<equiv> [''wc'', ''redirection.c'']"

definition redirected :: "setting \<Rightarrow> chunk list" where
  "redirected e = exec_chunks e (file_sink e redirect_output) wc_redirection [Stdout msg_no_print]"

text \<open>The child of \<open>redirection\<close>: after five statements it runs \<open>wc\<close>, or prints that it does not.\<close>

lemma redirection_child:
  assumes C: "C = forked c (after e 0 (boot_proc p redirection)\<lparr>todo := drop 1 redirection\<rparr>)"
    and k: "k = 5 + exec_steps e (file_sink e redirect_output) wc_redirection 2"
  shows "undisturbed e k C \<and> exited (after e k C) \<noteq> None \<and>
    seen e k C = (if opens e redirect_output then [Create redirect_output] else []) @ effects (file_sink e redirect_output) (redirected e)"
proof (cases "program e wc_redirection (file_sink e redirect_output)")
  case None
  then show ?thesis unfolding C k
    by (cases "opens e redirect_output") (simp_all add: local_simps redirection_def exec_steps_def exec_chunks_def redirected_def effects_def file_sink_def)
next
  case (Some chunks)
  have "undisturbed e 5 C" "todo (after e 5 C) = map Write chunks" "exited (after e 5 C) = None" "buffered (after e 5 C) = []"
    "stdout_fd (after e 5 C) = file_sink e redirect_output"
    "seen e 5 C = (if opens e redirect_output then [Create redirect_output] else [])"
    unfolding C using Some by (cases "opens e redirect_output"; simp add: local_simps redirection_def file_sink_def)+
  then show ?thesis using seen_exec [of e 5 C chunks] Some
    by (simp add: k exec_steps_def exec_chunks_def redirected_def del: undisturbed.simps after.simps)
qed

lemma redirection_runs:
  assumes k: "k = 5 + exec_steps e (file_sink e redirect_output) wc_redirection 2"
  shows "always (proc_step e) (0 + Suc (2 + k + Suc 1))
    (\<lambda>w. console w = [] \<and> (errors w = msg_failed \<and> files w = fs \<or>
      errors w = stderr_text (redirected e) \<and>
      files w = (if opens e redirect_output then fs(redirect_output \<mapsto> stdout_text (redirected e)) else fs)))
    (boot fs p redirection)"
  (is "always _ _ ?Q _")
proof -
  let ?B = "boot_proc p redirection" and ?rest = "drop 1 redirection"
  let ?P = "after e 0 ?B"
  define A where "A c = set_rc (int c) (?P\<lparr>todo := ?rest, children := c # children ?P\<rparr>)" for c
  define C where "C c = forked c (?P\<lparr>todo := ?rest\<rparr>)" for c
  define D where "D c = set_rc_wait (int c) (after e 2 (A c)\<lparr>todo := [], children := []\<rparr>)" for c
  note simps = local_simps redirection_def
  note child = redirection_child [OF C_def k]
  have a: "undisturbed e 2 (A c)" "exited (after e 2 (A c)) = None" "seen e 2 (A c) = []"
      "todo (after e 2 (A c)) = [Wait]" "children (after e 2 (A c)) = [c]" if "0 < c" for c
    using that by (simp_all add: A_def simps)
  have d: "undisturbed e 1 (D c)" "exited (after e 1 (D c)) \<noteq> None" "seen e 1 (D c) = []" if "0 < c" for c
    using that by (simp_all add: D_def A_def simps)
  show ?thesis
  proof (rule always_forking_wait [where j = 3 and B = ?B and rest = ?rest and rest' = "[]" and A = A and C = C and D = D and Q = ?Q and k = k])
    show "?Q ((apply_all (seen e 0 ?B @ seen e k (C c) @ seen e 1 (D c)) (boot fs p redirection))\<lparr>procs := X\<rparr>)"
      if "c \<noteq> p" "0 < c" for c X
      using child [of c] d(3) [OF that(2)] by (simp add: apply_all_append apply_effects seen_def [of e 0])
  qed (use a d child in \<open>simp_all add: A_def C_def D_def\<close>, simp_all add: simps)
qed

abbreviation (input) wc_fkfile :: "string list" where
  "wc_fkfile \<equiv> [''wc'', ''fkfile.c'']"

abbreviation (input) ls_fkfile :: "string list" where
  "ls_fkfile \<equiv> [''ls'', ''..'']"

definition ls_chunks :: "setting \<Rightarrow> chunk list" where
  "ls_chunks e = exec_chunks e (file_sink e fkfile_output) ls_fkfile []"

definition wc_chunks :: "setting \<Rightarrow> chunk list" where
  "wc_chunks e = exec_chunks e (file_sink e fkfile_output) wc_fkfile [Stdout msg_no_print]"

lemma fkfile_parent:
  assumes A: "A = set_rc (int c) (after e 2 (boot_proc p fkfile)\<lparr>todo := drop 3 fkfile, children := [c]\<rparr>)"
    and c: "0 < c" and n: "n = 3 + exec_steps e (file_sink e fkfile_output) ls_fkfile 1"
  shows "undisturbed e n A \<and> exited (after e n A) \<noteq> None \<and> seen e n A = effects (file_sink e fkfile_output) (ls_chunks e)"
proof (cases "program e ls_fkfile (file_sink e fkfile_output)")
  case None
  then show ?thesis unfolding A n using c
    by (cases "opens e fkfile_output") (simp_all add: local_simps fkfile_def exec_steps_def exec_chunks_def ls_chunks_def wc_chunks_def effects_def file_sink_def)
next
  case (Some chunks)
  have "undisturbed e 3 A" "todo (after e 3 A) = map Write chunks" "exited (after e 3 A) = None" "buffered (after e 3 A) = []"
    "stdout_fd (after e 3 A) = file_sink e fkfile_output" "seen e 3 A = []"
    unfolding A using c Some by (cases "opens e fkfile_output"; simp add: local_simps fkfile_def file_sink_def)+
  then show ?thesis using seen_exec [of e 3 A chunks] Some
    by (simp add: n exec_steps_def exec_chunks_def ls_chunks_def wc_chunks_def del: undisturbed.simps after.simps)
qed

lemma fkfile_child:
  assumes C: "C = forked c (after e 2 (boot_proc p fkfile)\<lparr>todo := drop 3 fkfile\<rparr>)" and k: "k = 3 + exec_steps e (file_sink e fkfile_output) wc_fkfile 2"
  shows "undisturbed e k C \<and> exited (after e k C) \<noteq> None \<and>
    seen e k C = effects (file_sink e fkfile_output) (wc_chunks e)"
proof (cases "program e wc_fkfile (file_sink e fkfile_output)")
  case None
  then show ?thesis unfolding C k
    by (cases "opens e fkfile_output") (simp_all add: local_simps fkfile_def exec_steps_def exec_chunks_def ls_chunks_def wc_chunks_def effects_def file_sink_def)
next
  case (Some chunks)
  have "undisturbed e 3 C" "todo (after e 3 C) = map Write chunks" "exited (after e 3 C) = None" "buffered (after e 3 C) = []"
    "stdout_fd (after e 3 C) = file_sink e fkfile_output" "seen e 3 C = []"
    unfolding C using Some by (cases "opens e fkfile_output"; simp add: local_simps fkfile_def file_sink_def)+
  then show ?thesis using seen_exec [of e 3 C chunks] Some
    by (simp add: k exec_steps_def exec_chunks_def ls_chunks_def wc_chunks_def del: undisturbed.simps after.simps)
qed

lemma shuffles_effects:
  assumes "es \<in> shuffles (effects d xs) (effects d ys)"
  shows "\<exists>ts \<in> shuffles xs ys. es = effects d ts"
proof -
  have "es \<in> filter visible ` shuffles (map (chunk_effect d) xs) (map (chunk_effect d) ys)"
    using assms by (simp only: effects_def filter_shuffles)
  then obtain zs where "zs \<in> shuffles (map (chunk_effect d) xs) (map (chunk_effect d) ys)" "es = filter visible zs"
    by blast
  then show ?thesis using shuffles_map unfolding effects_def by blast
qed

text \<open>What the two programs write, shuffled.\<close>

definition fkfile_writes :: "setting \<Rightarrow> chunk list set" where
  "fkfile_writes e = shuffles (ls_chunks e) (wc_chunks e)"

lemma fkfile_runs:
  assumes n: "n = 3 + exec_steps e (file_sink e fkfile_output) ls_fkfile 1" and k: "k = 3 + exec_steps e (file_sink e fkfile_output) wc_fkfile 2"
  shows "always (proc_step e) (2 + Suc (n + k + 0))
    (\<lambda>w. console w = [] \<and> (errors w = msg_failed \<and> files w = (if opens e fkfile_output then fs(fkfile_output \<mapsto> []) else fs) \<or>
      (\<exists>ts\<in>fkfile_writes e. errors w = stderr_text ts \<and>
        files w = (if opens e fkfile_output then fs(fkfile_output \<mapsto> stdout_text ts) else fs))))
    (boot fs p fkfile)"
  (is "always _ _ ?Q _")
proof -
  let ?B = "boot_proc p fkfile" and ?rest = "drop 3 fkfile"
  let ?P = "after e 2 ?B"
  define A where "A c = set_rc (int c) (?P\<lparr>todo := ?rest, children := c # children ?P\<rparr>)" for c
  define C where "C c = forked c (?P\<lparr>todo := ?rest\<rparr>)" for c
  note simps = local_simps fkfile_def
  have ch: "children ?P = []" by (cases "opens e fkfile_output"; simp add: simps)
  have A': "A c = set_rc (int c) (?P\<lparr>todo := ?rest, children := [c]\<rparr>)" for c by (simp add: A_def ch)
  note parent = fkfile_parent [OF A' _ n] and child = fkfile_child [OF C_def k]
  have s: "seen e 2 ?B = (if opens e fkfile_output then [Create fkfile_output] else [])"
    by (cases "opens e fkfile_output"; simp add: simps)
  have fin: "?Q ((apply_all (seen e 2 ?B @ es) (boot fs p fkfile))\<lparr>procs := X\<rparr>)"
    if c: "0 < c" and es: "es \<in> shuffles (seen e n (A c)) (seen e k (C c))" for c es X
  proof -
    obtain ts where ts: "ts \<in> fkfile_writes e" "es = effects (file_sink e fkfile_output) ts"
      using es parent [OF c] child [of c] shuffles_effects unfolding fkfile_writes_def by metis
    then show ?thesis by (auto simp: s apply_effects apply_all_append intro!: bexI [of _ ts])
  qed
  show ?thesis
  proof (rule always_forking_both [where j = 3 and B = ?B and rest = ?rest and A = A and C = C and Q = ?Q and k = k and n = n])
    show "undisturbed e 2 ?B" "exited ?P = None" "todo ?P = Fork # ?rest" "undisturbed e 3 (set_rc (- 1) (?P\<lparr>todo := ?rest\<rparr>))"
      "exited (after e 3 (set_rc (- 1) (?P\<lparr>todo := ?rest\<rparr>))) \<noteq> None"
      "?Q ((apply_all (seen e 2 ?B @ seen e 3 (set_rc (- 1) (?P\<lparr>todo := ?rest\<rparr>))) (boot fs p fkfile))\<lparr>procs := X\<rparr>)" for X
      by (cases "opens e fkfile_output"; simp add: simps)+
  qed (use parent child fin n in \<open>simp_all add: A_def C_def\<close>)
qed

section \<open>The properties\<close>

text \<open>Property C10.
  With \<open>wait\<close> the order of the output is determined: every run of \<open>callingforkandwait\<close> and of \<open>callexec\<close> ends, and unless \<open>fork\<close> fails
  the lines of the child (and what \<open>wc\<close> writes) come before the last line of the parent, which names the pid that \<open>wait\<close> returned.
  When standard output is no terminal, \<open>fork\<close> also copies what is in the buffer: the first line is printed twice by
  \<open>callingforkandwait\<close>, and in \<open>callexec\<close> the child loses its lines when it runs \<open>wc\<close>. The text behind \<open>execvp\<close> is printed if and
  only if \<open>wc\<close> cannot be run; standard error shows what \<open>wc\<close> writes there, and nothing else.
\<close>

theorem wait_orders_output:
  "(\<exists>n. always (proc_step e) n
     (\<lambda>w. console w = msg_hello p \<and> errors w = msg_failed \<or>
       errors w = [] \<and> (\<exists>c. c \<noteq> p \<and> console w = forkandwait_text (tty e) p c))
     (boot fs p callingforkandwait)) \<and>
   (\<exists>n. always (proc_step e) n
     (\<lambda>w. console w = msg_hello p \<and> errors w = msg_failed \<or>
       errors w = callexec_errors (program e [''wc'', ''callexec.c''] (Some Console)) \<and>
       (\<exists>c. c \<noteq> p \<and> console w = callexec_text (tty e) (program e [''wc'', ''callexec.c''] (Some Console)) p c))
     (boot fs p callexec))"
proof
  show "\<exists>n. always (proc_step e) n
     (\<lambda>w. console w = msg_hello p \<and> errors w = msg_failed \<or>
       errors w = [] \<and> (\<exists>c. c \<noteq> p \<and> console w = forkandwait_text (tty e) p c))
     (boot fs p callingforkandwait)"
    using forkandwait_runs by blast
  show "\<exists>n. always (proc_step e) n
     (\<lambda>w. console w = msg_hello p \<and> errors w = msg_failed \<or>
       errors w = callexec_errors (program e [''wc'', ''callexec.c''] (Some Console)) \<and>
       (\<exists>c. c \<noteq> p \<and> console w = callexec_text (tty e) (program e [''wc'', ''callexec.c''] (Some Console)) p c))
     (boot fs p callexec)"
  proof (cases "program e [''wc'', ''callexec.c''] (Some Console)")
    case None
    then show ?thesis unfolding None using callexec_fails [OF None] by blast
  next
    case (Some chunks)
    then show ?thesis unfolding Some using callexec_execs [OF Some refl] by blast
  qed
qed

lemma parent_first: "\<exists>w. run (proc_step e) [(p, None), (p, Some (Suc p)), (p, None), (p, None), (p, None), (p, None), (p, None),
    (Suc p, None), (Suc p, None), (Suc p, None), (Suc p, None), (Suc p, None)] (boot fs p callingfork) = Some w \<and>
    console w = msg_parent_x (int (Suc p)) 700 p @ msg_child_x 900 (Suc p)"
  by (cases "tty e")
    (simp_all add: proc_step_def callingfork_def stmt_simps do_fork_def set_proc_def alone_def boot_def flip: One_nat_def)

lemma child_first: "\<exists>w. run (proc_step e) [(p, None), (p, Some (Suc p)), (Suc p, None), (Suc p, None), (Suc p, None), (Suc p, None),
    (Suc p, None), (p, None), (p, None), (p, None), (p, None), (p, None)] (boot fs p callingfork) = Some w \<and>
    console w = msg_child_x 900 (Suc p) @ msg_parent_x (int (Suc p)) 700 p"
  by (cases "tty e")
    (simp_all add: proc_step_def callingfork_def stmt_simps do_fork_def set_proc_def alone_def boot_def flip: One_nat_def)

text \<open>Property C27.
  Without \<open>wait\<close> the order is open. Every run of \<open>callingfork\<close> and of \<open>callfork2\<close> ends and prints the lines of both processes, each in its
  order (as blocks, when standard output is no terminal); both orders of \<open>callingfork\<close> happen. The two processes have their own \<open>x\<close>: 700
  in the parent and 900 in the child. In \<open>callfork2\<close> it is the parent that says hello as the child, if the child has the next pid, and
  the child says goodbye as the parent.
\<close>

theorem fork_shuffles_output:
  "(\<exists>n. always (proc_step e) n
     (\<lambda>w. console w = [] \<and> errors w = msg_failed \<or>
       errors w = [] \<and> (\<exists>c. c \<noteq> p \<and> console w \<in> shuffled_text (tty e) [msg_parent_x (int c) 700 p] [msg_child_x 900 c]))
     (boot fs p callingfork)) \<and>
   (\<exists>as w. run (proc_step e) as (boot fs p callingfork) = Some w \<and>
      console w = msg_parent_x (int (Suc p)) 700 p @ msg_child_x 900 (Suc p)) \<and>
   (\<exists>as w. run (proc_step e) as (boot fs p callingfork) = Some w \<and>
      console w = msg_child_x 900 (Suc p) @ msg_parent_x (int (Suc p)) 700 p) \<and>
   (\<exists>n. always (proc_step e) n
     (\<lambda>w. console w = msg_rc (- 1) @ msg_initpid (int p) \<and> errors w = msg_failed \<or>
       errors w = [] \<and> (\<exists>c. c \<noteq> p \<and> console w \<in> shuffled_text (tty e)
         [msg_rc (int c), msg_initpid (int p), if c = p + 1 then msg_child_hello p else msg_goodbye p]
         [msg_rc 0, msg_initpid (int p), msg_goodbye c]))
     (boot fs p callfork2))"
  using callingfork_runs [of e p, unfolded callingfork_lines_def fst_conv snd_conv]
    callfork2_runs [of e p, unfolded callfork2_lines_def fst_conv snd_conv] parent_first [of e p] child_first [of e p]
  by blast

text \<open>Property C28.
  With standard output redirected nothing reaches the console, whatever files there were before. \<open>redirection\<close> waits for its child, and
  then the text of its file is exactly what \<open>wc\<close> wrote to standard output (or the text behind \<open>execvp\<close>), without anything that an older
  file held; standard error shows what \<open>wc\<close> wrote there. If the file cannot be opened the text is lost, and if \<open>fork\<close> fails the old file
  stays. In \<open>fkfile\<close> the two programs share one open file and nothing waits: the new text is the writes of both, shuffled, and the file
  is emptied even if \<open>fork\<close> fails. No other file is touched.
\<close>

theorem redirected_output:
  "(\<exists>n. always (proc_step e) n
     (\<lambda>w. console w = [] \<and> (errors w = msg_failed \<and> files w = fs \<or>
       errors w = stderr_text (redirected e) \<and>
       files w = (if opens e redirect_output then fs(redirect_output \<mapsto> stdout_text (redirected e)) else fs)))
     (boot fs p redirection)) \<and>
   (\<exists>n. always (proc_step e) n
     (\<lambda>w. console w = [] \<and> (errors w = msg_failed \<and> files w = (if opens e fkfile_output then fs(fkfile_output \<mapsto> []) else fs) \<or>
       (\<exists>ts\<in>fkfile_writes e. errors w = stderr_text ts \<and>
         files w = (if opens e fkfile_output then fs(fkfile_output \<mapsto> stdout_text ts) else fs))))
     (boot fs p fkfile))"
  using redirection_runs [OF refl, of e fs p] fkfile_runs [OF refl refl, of e fs p] by blast

end
