(* ===== verification/Cntxtsw.thy ===== *)
theory Cntxtsw
  imports Ctext
begin

text \<open>
  \<open>src/directexec/cntxtsw/cntxtsw.c\<close>: a parent and a child that pass a message of 20 bytes back and forth over two pipes, 1000 times, to
  measure context switches. The two loops are interleaved steps; a pipe is a list of bytes with its open ends, so that a read from
  an empty pipe blocks as long as somebody could write, and a write without a reader kills the process.
\<close>

section \<open>The two loops\<close>

definition num_syscalls :: nat where "num_syscalls = 1000"

definition pipe1writemessage :: "char list" where
  "pipe1writemessage = ''hi'' @ replicate 18 (CHR 0x00)"

definition pipe2writemessage :: "char list" where
  "pipe2writemessage = ''hello'' @ replicate 15 (CHR 0x00)"

datatype who = Parent | Child

datatype pipe_end = R1 | W1 | R2 | W2

datatype sw_pc =
    Close        \<comment> \<open>close the two ends that are not used\<close>
  | Say          \<comment> \<open>print the message to write\<close>
  | Write
  | Read
  | Tell         \<comment> \<open>print the message read\<close>
  | Exit         \<comment> \<open>behind the loop\<close>
  | Exited
  | Killed

record switch =
  pc :: "who \<Rightarrow> sw_pc"
  idx :: "who \<Rightarrow> nat"
  pipe1 :: "char list"
  pipe2 :: "char list"
  open_end :: "who \<Rightarrow> pipe_end \<Rightarrow> bool"
  readmessage :: "who \<Rightarrow> char list option"    \<comment> \<open>\<open>None\<close>: uninitialised\<close>
  printed :: "string list"                       \<comment> \<open>the calls of \<open>printf\<close> in the loops, in their order\<close>
  bad :: "fault option"

definition at :: "who \<Rightarrow> sw_pc \<Rightarrow> switch \<Rightarrow> switch" where
  "at w c s = s\<lparr>pc := (pc s)(w := c)\<rparr>"

definition print_message :: "who \<Rightarrow> string \<Rightarrow> char list option \<Rightarrow> sw_pc \<Rightarrow> switch \<Rightarrow> switch" where
  "print_message w prefix m c s = (case m of
       None \<Rightarrow> s\<lparr>bad := Some Uninitialised\<rparr>
     | Some b \<Rightarrow> (case c_string b of
           Inl e \<Rightarrow> s\<lparr>bad := Some e\<rparr>
         | Inr t \<Rightarrow> at w c (s\<lparr>printed := printed s @ [prefix @ t]\<rparr>)))"

definition parent_says :: string where "parent_says = ''In parent: Writing to pipe 1 - Message is ''"

definition parent_tells :: string where "parent_tells = ''In parent: Reading from pipe 2 - Message is ''"

definition child_says :: string where "child_says = ''In child: Writing to pipe 2 - Message is ''"

definition child_tells :: string where "child_tells = ''In child: Reading from pipe 1 - Message is ''"

text \<open>The next round, or the end of the loop.\<close>

definition next_round :: "nat \<Rightarrow> who \<Rightarrow> switch \<Rightarrow> switch" where
  "next_round n w s = at w (if Suc (idx s w) < n then Close else Exit) (s\<lparr>idx := (idx s)(w := Suc (idx s w))\<rparr>)"

definition close_ends :: "who \<Rightarrow> pipe_end set \<Rightarrow> switch \<Rightarrow> switch" where
  "close_ends w es s = s\<lparr>open_end := (open_end s)(w := \<lambda>p. open_end s w p \<and> p \<notin> es)\<rparr>"

definition some_open :: "pipe_end \<Rightarrow> switch \<Rightarrow> bool" where
  "some_open p s \<longleftrightarrow> open_end s Parent p \<or> open_end s Child p"

text \<open>
  \<open>read\<close> of at most 20 bytes: it blocks on an empty pipe with a writer, and returns 0 without one. The array keeps the bytes that
  are not overwritten; here every read gets none or at least 20.
\<close>

definition read_into :: "char list \<Rightarrow> char list option \<Rightarrow> char list option" where
  "read_into got old = (case old of
       None \<Rightarrow> if length got = 20 then Some got else None
     | Some b \<Rightarrow> Some (got @ drop (length got) b))"

definition read_pipe1 :: "switch \<Rightarrow> switch option" where
  "read_pipe1 s =
     (if pipe1 s = [] \<and> some_open W1 s then None
      else Some (s\<lparr>pipe1 := drop 20 (pipe1 s), readmessage := (readmessage s)(Child := read_into (take 20 (pipe1 s)) (readmessage s Child))\<rparr>))"

definition read_pipe2 :: "switch \<Rightarrow> switch option" where
  "read_pipe2 s =
     (if pipe2 s = [] \<and> some_open W2 s then None
      else Some (s\<lparr>pipe2 := drop 20 (pipe2 s), readmessage := (readmessage s)(Parent := read_into (take 20 (pipe2 s)) (readmessage s Parent))\<rparr>))"

definition parent_step :: "nat \<Rightarrow> switch \<Rightarrow> switch option" where
  "parent_step n s = (case pc s Parent of
       Close \<Rightarrow> Some (at Parent Say (close_ends Parent {R1, W2} s))
     | Say \<Rightarrow> Some (print_message Parent parent_says (Some pipe1writemessage) Write s)
     | Write \<Rightarrow>
         if some_open R1 s then Some (at Parent Read (s\<lparr>pipe1 := pipe1 s @ pipe1writemessage\<rparr>))
         else Some (at Parent Killed (close_ends Parent UNIV s))
     | Read \<Rightarrow> map_option (at Parent Tell) (read_pipe2 s)
     | Tell \<Rightarrow>
         Some (let t = print_message Parent parent_tells (readmessage s Parent) Tell s
               in if bad t = None then next_round n Parent t else t)
     | Exit \<Rightarrow> Some (at Parent Exited (close_ends Parent UNIV s))
     | _ \<Rightarrow> None)"

definition child_step :: "nat \<Rightarrow> switch \<Rightarrow> switch option" where
  "child_step n s = (case pc s Child of
       Close \<Rightarrow> Some (at Child Read (close_ends Child {W1, R2} s))
     | Read \<Rightarrow> map_option (at Child Tell) (read_pipe1 s)
     | Tell \<Rightarrow> Some (print_message Child child_tells (readmessage s Child) Say s)
     | Say \<Rightarrow> Some (print_message Child child_says (Some pipe2writemessage) Write s)
     | Write \<Rightarrow>
         if some_open R2 s then Some (next_round n Child (s\<lparr>pipe2 := pipe2 s @ pipe2writemessage\<rparr>))
         else Some (at Child Killed (close_ends Child UNIV s))
     | Exit \<Rightarrow> Some (at Child Exited (close_ends Child UNIV s))
     | _ \<Rightarrow> None)"

definition switch_step :: "nat \<Rightarrow> who \<Rightarrow> switch \<Rightarrow> switch option" where
  "switch_step n w s = (if bad s \<noteq> None then None else case w of Parent \<Rightarrow> parent_step n s | Child \<Rightarrow> child_step n s)"

text \<open>After \<open>fork\<close>: both processes have all ends of both pipes.\<close>

definition switch_initial :: "nat \<Rightarrow> switch" where
  "switch_initial n = \<lparr>pc = (\<lambda>_. if 0 < n then Close else Exit), idx = (\<lambda>_. 0), pipe1 = [], pipe2 = [], open_end = (\<lambda>_ _. True),
     readmessage = (\<lambda>_. None), printed = [], bad = None\<rparr>"

section \<open>One message at a time\<close>

definition rounds :: "nat \<Rightarrow> string list" where
  "rounds r = concat (replicate r [parent_says @ ''hi'', child_tells @ ''hi'', child_says @ ''hello'', parent_tells @ ''hello''])"

text \<open>The child before its read of round \<open>r\<close>, or behind its loop.\<close>

definition child_ready :: "nat \<Rightarrow> nat \<Rightarrow> switch \<Rightarrow> bool" where
  "child_ready n r s \<longleftrightarrow> idx s Child = r \<and>
     (if r < n then (pc s Child = Close \<or> pc s Child = Read) \<and> open_end s Child R1 \<and> open_end s Child W2
      else pc s Child = Exit \<or> pc s Child = Exited)"

text \<open>The five stages of a round, and the end.\<close>

datatype stage = Parent_writes | Message1 | Child_writes | Message2 | Parent_tells | Over

definition in_stage :: "nat \<Rightarrow> nat \<Rightarrow> stage \<Rightarrow> switch \<Rightarrow> bool" where
  "in_stage n r g s \<longleftrightarrow> (case g of
       Parent_writes \<Rightarrow> r < n \<and> idx s Parent = r \<and> child_ready n r s \<and> pipe1 s = [] \<and> pipe2 s = [] \<and>
         (pc s Parent \<in> {Close, Say} \<and> printed s = rounds r \<or> pc s Parent = Write \<and> printed s = rounds r @ [parent_says @ ''hi''])
     | Message1 \<Rightarrow> r < n \<and> idx s Parent = r \<and> child_ready n r s \<and> pipe1 s = pipe1writemessage \<and> pipe2 s = [] \<and>
         pc s Parent = Read \<and> printed s = rounds r @ [parent_says @ ''hi'']
     | Child_writes \<Rightarrow> r < n \<and> idx s Parent = r \<and> idx s Child = r \<and> open_end s Child R1 \<and> open_end s Child W2 \<and> pipe1 s = [] \<and> pipe2 s = [] \<and>
         pc s Parent = Read \<and> readmessage s Child = Some pipe1writemessage \<and>
         (pc s Child = Tell \<and> printed s = rounds r @ [parent_says @ ''hi''] \<or>
          pc s Child = Say \<and> printed s = rounds r @ [parent_says @ ''hi'', child_tells @ ''hi''] \<or>
          pc s Child = Write \<and> printed s = rounds r @ [parent_says @ ''hi'', child_tells @ ''hi'', child_says @ ''hello''])
     | Message2 \<Rightarrow> r < n \<and> idx s Parent = r \<and> child_ready n (Suc r) s \<and> pipe1 s = [] \<and> pipe2 s = pipe2writemessage \<and>
         pc s Parent = Read \<and> printed s = rounds r @ [parent_says @ ''hi'', child_tells @ ''hi'', child_says @ ''hello'']
     | Parent_tells \<Rightarrow> r < n \<and> idx s Parent = r \<and> child_ready n (Suc r) s \<and> pipe1 s = [] \<and> pipe2 s = [] \<and>
         pc s Parent = Tell \<and> readmessage s Parent = Some pipe2writemessage \<and> printed s = rounds r @ [parent_says @ ''hi'', child_tells @ ''hi'', child_says @ ''hello'']
     | Over \<Rightarrow> r = n \<and> idx s Parent = n \<and> child_ready n n s \<and> pipe1 s = [] \<and> pipe2 s = [] \<and>
         (pc s Parent = Exit \<or> pc s Parent = Exited) \<and> printed s = rounds n)"

definition sides :: "nat \<Rightarrow> switch \<Rightarrow> bool" where
  "sides n s \<longleftrightarrow> bad s = None \<and> (idx s Parent < n \<longrightarrow> open_end s Parent W1 \<and> open_end s Parent R2) \<and>
     (\<forall>w b. readmessage s w = Some b \<longrightarrow> length b = 20)"

definition switch_inv :: "nat \<Rightarrow> switch \<Rightarrow> bool" where
  "switch_inv n s \<longleftrightarrow> sides n s \<and> (\<exists>r g. in_stage n r g s)"

lemma rounds_Suc: "rounds (Suc r) = rounds r @ [parent_says @ ''hi'', child_tells @ ''hi'', child_says @ ''hello'', parent_tells @ ''hello'']"
  by (simp add: rounds_def replicate_append_same [symmetric] del: replicate_append_same)

lemma at_simps [simp]:
  "pc (at w c s) = (pc s)(w := c)" "idx (at w c s) = idx s" "pipe1 (at w c s) = pipe1 s" "pipe2 (at w c s) = pipe2 s"
  "open_end (at w c s) = open_end s" "readmessage (at w c s) = readmessage s" "printed (at w c s) = printed s" "bad (at w c s) = bad s"
  by (simp_all add: at_def)

lemma close_simps [simp]:
  "pc (close_ends w es s) = pc s" "idx (close_ends w es s) = idx s" "pipe1 (close_ends w es s) = pipe1 s"
  "pipe2 (close_ends w es s) = pipe2 s" "readmessage (close_ends w es s) = readmessage s"
  "printed (close_ends w es s) = printed s" "bad (close_ends w es s) = bad s"
  "open_end (close_ends w es s) v p \<longleftrightarrow> open_end s v p \<and> (v = w \<longrightarrow> p \<notin> es)"
  by (auto simp: close_ends_def)

lemma messages [simp]:
  "c_string pipe1writemessage = Inr ''hi''" "c_string pipe2writemessage = Inr ''hello''"
  "length pipe1writemessage = 20" "length pipe2writemessage = 20" "pipe1writemessage \<noteq> []" "pipe2writemessage \<noteq> []"
  by (simp_all add: c_string_def pipe1writemessage_def pipe2writemessage_def)

lemma read_whole: "length m = 20 \<Longrightarrow> (\<And>c. b = Some c \<Longrightarrow> length c = 20) \<Longrightarrow> read_into m b = Some m"
  by (cases b) (auto simp: read_into_def)

lemmas step_simps = switch_step_def parent_step_def child_step_def print_message_def next_round_def read_pipe1_def read_pipe2_def
  some_open_def Let_def

lemma parent_moves:
  assumes "switch_inv n s" "switch_step n Parent s = Some t"
  shows "switch_inv n t"
proof -
  have inv: "sides n s" and "\<exists>r g. in_stage n r g s" using assms(1) by (simp_all add: switch_inv_def)
  then obtain r g where st: "in_stage n r g s" by blast
  have m: "b = pipe2writemessage \<Longrightarrow> read_into b (readmessage s Parent) = Some b" for b
    using inv by (intro read_whole) (simp_all add: sides_def)
  show ?thesis
  proof (cases g)
    case Parent_writes
    then consider "pc s Parent = Close" | "pc s Parent = Say" | "pc s Parent = Write" using st by (auto simp: in_stage_def)
    then show ?thesis
    proof cases
      case 1
      then have "in_stage n r Parent_writes t \<and> sides n t"
        using st inv assms(2) Parent_writes by (auto simp: in_stage_def child_ready_def sides_def step_simps)
      then show ?thesis unfolding switch_inv_def by blast
    next
      case 2
      then have "in_stage n r Parent_writes t \<and> sides n t"
        using st inv assms(2) Parent_writes by (auto simp: in_stage_def child_ready_def sides_def step_simps)
      then show ?thesis unfolding switch_inv_def by blast
    next
      case 3
      then have "in_stage n r Message1 t \<and> sides n t"
        using st inv assms(2) Parent_writes by (auto simp: in_stage_def child_ready_def sides_def step_simps)
      then show ?thesis unfolding switch_inv_def by blast
    qed
  next
    case Message1
    then have False using st inv assms(2) by (auto simp: in_stage_def child_ready_def sides_def step_simps split: if_splits)
    then show ?thesis ..
  next
    case Child_writes
    then have False using st inv assms(2) by (auto simp: in_stage_def sides_def step_simps split: if_splits)
    then show ?thesis ..
  next
    case Message2
    then have "in_stage n r Parent_tells t \<and> sides n t"
      using st inv assms(2) m by (auto simp: in_stage_def child_ready_def sides_def step_simps split: if_splits)
    then show ?thesis unfolding switch_inv_def by blast
  next
    case Parent_tells
    then have "r < n" using st by (simp add: in_stage_def)
    then consider "Suc r < n" | "Suc r = n" by linarith
    then have "in_stage n (Suc r) (if Suc r < n then Parent_writes else Over) t \<and> sides n t"
      using st inv assms(2) Parent_tells
      by cases (auto simp: in_stage_def child_ready_def sides_def rounds_Suc step_simps)
    then show ?thesis unfolding switch_inv_def by blast
  next
    case Over
    then have "in_stage n r Over t \<and> sides n t"
      using st inv assms(2) by (auto simp: in_stage_def child_ready_def sides_def step_simps)
    then show ?thesis unfolding switch_inv_def by blast
  qed
qed

lemma child_moves:
  assumes "switch_inv n s" "switch_step n Child s = Some t"
  shows "switch_inv n t"
proof -
  have inv: "sides n s" and "\<exists>r g. in_stage n r g s" using assms(1) by (simp_all add: switch_inv_def)
  then obtain r g where st: "in_stage n r g s" by blast
  have m: "b = pipe1writemessage \<Longrightarrow> read_into b (readmessage s Child) = Some b" for b
    using inv by (intro read_whole) (simp_all add: sides_def)
  show ?thesis
  proof (cases g)
    case Parent_writes
    then have "in_stage n r Parent_writes t \<and> sides n t"
      using st inv assms(2) by (auto simp: in_stage_def child_ready_def sides_def step_simps split: if_splits)
    then show ?thesis unfolding switch_inv_def by blast
  next
    case Message1
    then consider "pc s Child = Close" | "pc s Child = Read" using st by (auto simp: in_stage_def child_ready_def)
    then show ?thesis
    proof cases
      case 1
      then have "in_stage n r Message1 t \<and> sides n t"
        using st inv assms(2) Message1 by (auto simp: in_stage_def child_ready_def sides_def step_simps)
      then show ?thesis unfolding switch_inv_def by blast
    next
      case 2
      then have "in_stage n r Child_writes t \<and> sides n t"
        using st inv assms(2) Message1 m by (auto simp: in_stage_def child_ready_def sides_def step_simps split: if_splits)
      then show ?thesis unfolding switch_inv_def by blast
    qed
  next
    case Child_writes
    then consider "pc s Child = Tell" | "pc s Child = Say" | "pc s Child = Write" "Suc r < n" | "pc s Child = Write" "Suc r = n"
      using st by (fastforce simp: in_stage_def)
    then show ?thesis
    proof cases
      case 1
      then have "in_stage n r Child_writes t \<and> sides n t"
        using st inv assms(2) Child_writes by (auto simp: in_stage_def sides_def step_simps)
      then show ?thesis unfolding switch_inv_def by blast
    next
      case 2
      then have "in_stage n r Child_writes t \<and> sides n t"
        using st inv assms(2) Child_writes by (auto simp: in_stage_def sides_def step_simps)
      then show ?thesis unfolding switch_inv_def by blast
    next
      case 3
      then have "in_stage n r Message2 t \<and> sides n t"
        using st inv assms(2) Child_writes by (auto simp: in_stage_def child_ready_def sides_def step_simps)
      then show ?thesis unfolding switch_inv_def by blast
    next
      case 4
      then have "in_stage n r Message2 t \<and> sides n t"
        using st inv assms(2) Child_writes by (auto simp: in_stage_def child_ready_def sides_def step_simps)
      then show ?thesis unfolding switch_inv_def by blast
    qed
  next
    case Message2
    then have "in_stage n r Message2 t \<and> sides n t"
      using st inv assms(2) by (auto simp: in_stage_def child_ready_def sides_def step_simps split: if_splits)
    then show ?thesis unfolding switch_inv_def by blast
  next
    case Parent_tells
    then have "in_stage n r Parent_tells t \<and> sides n t"
      using st inv assms(2) by (auto simp: in_stage_def child_ready_def sides_def step_simps split: if_splits)
    then show ?thesis unfolding switch_inv_def by blast
  next
    case Over
    then have "in_stage n r Over t \<and> sides n t"
      using st inv assms(2) by (auto simp: in_stage_def child_ready_def sides_def step_simps split: if_splits)
    then show ?thesis unfolding switch_inv_def by blast
  qed
qed

lemma switch_inv_start: "switch_inv n (switch_initial n)"
proof -
  have "in_stage n 0 (if 0 < n then Parent_writes else Over) (switch_initial n)"
    by (simp add: in_stage_def child_ready_def switch_initial_def rounds_def)
  moreover have "sides n (switch_initial n)" by (simp add: sides_def switch_initial_def)
  ultimately show ?thesis unfolding switch_inv_def by blast
qed

text \<open>How far a process is from its end.\<close>

fun loop_rank :: "who \<Rightarrow> sw_pc \<Rightarrow> nat" where
  "loop_rank _ Close = 6"
| "loop_rank Parent Say = 5"
| "loop_rank Parent Write = 4"
| "loop_rank Parent Read = 3"
| "loop_rank Parent Tell = 2"
| "loop_rank Child Read = 5"
| "loop_rank Child Tell = 4"
| "loop_rank Child Say = 3"
| "loop_rank Child Write = 2"
| "loop_rank _ Exit = 1"
| "loop_rank _ _ = 0"

definition side_rank :: "nat \<Rightarrow> who \<Rightarrow> switch \<Rightarrow> nat" where
  "side_rank n w s = 6 * (n - idx s w) + loop_rank w (pc s w)"

definition switch_rank :: "nat \<Rightarrow> switch \<Rightarrow> nat" where
  "switch_rank n s = side_rank n Parent s + side_rank n Child s"

definition both_exited :: "switch \<Rightarrow> bool" where
  "both_exited s \<longleftrightarrow> pc s Parent = Exited \<and> pc s Child = Exited"

lemma in_loop:
  assumes "in_stage n r g s"
  shows "pc s Parent = Tell \<Longrightarrow> idx s Parent < n" "pc s Child = Write \<Longrightarrow> idx s Child < n"
  using assms by (cases g; auto simp: in_stage_def child_ready_def split: if_splits)+

lemma print_message_ok:
  "bad (print_message w x m c s) = None \<Longrightarrow> pc (print_message w x m c s) = (pc s)(w := c)"
  "idx (print_message w x m c s) = idx s"
  by (simp_all add: print_message_def split: option.splits sum.splits)

lemma next_round_simps:
  "pc (next_round n w s) = (pc s)(w := if Suc (idx s w) < n then Close else Exit)"
  "idx (next_round n w s) = (idx s)(w := Suc (idx s w))"
  by (simp_all add: next_round_def)

lemma read_pipe_same:
  "read_pipe1 s = Some t \<Longrightarrow> pc t = pc s \<and> idx t = idx s"
  "read_pipe2 s = Some t \<Longrightarrow> pc t = pc s \<and> idx t = idx s"
  by (auto simp: read_pipe1_def read_pipe2_def split: if_splits)

lemma round_less: "i < n \<Longrightarrow> 6 * (n - Suc i) + 6 < 6 * (n - i) + (2::nat)"
  by (simp add: Suc_diff_Suc [symmetric])

lemma parent_rank:
  assumes "parent_step n s = Some t" "bad t = None" "pc s Parent = Tell \<Longrightarrow> idx s Parent < n"
  shows "side_rank n Parent t < side_rank n Parent s \<and> side_rank n Child t = side_rank n Child s"
proof (cases "pc s Parent")
  case Say
  then show ?thesis using assms print_message_ok by (auto simp: parent_step_def side_rank_def)
next
  case Read
  then show ?thesis using assms read_pipe_same(2) by (auto simp: parent_step_def side_rank_def)
next
  case Tell
  then show ?thesis using assms print_message_ok round_less [of "idx s Parent" n]
    by (auto simp: parent_step_def side_rank_def next_round_simps Let_def split: if_splits)
qed (use assms in \<open>auto simp: parent_step_def side_rank_def split: if_splits\<close>)

lemma child_rank:
  assumes "child_step n s = Some t" "bad t = None" "pc s Child = Write \<Longrightarrow> idx s Child < n"
  shows "side_rank n Child t < side_rank n Child s \<and> side_rank n Parent t = side_rank n Parent s"
proof (cases "pc s Child")
  case Say
  then show ?thesis using assms print_message_ok by (auto simp: child_step_def side_rank_def)
next
  case Tell
  then show ?thesis using assms print_message_ok by (auto simp: child_step_def side_rank_def)
next
  case Read
  then show ?thesis using assms read_pipe_same(1) by (auto simp: child_step_def side_rank_def)
next
  case Write
  then show ?thesis using assms round_less [of "idx s Child" n]
    by (auto simp: child_step_def side_rank_def next_round_simps split: if_splits)
qed (use assms in \<open>auto simp: child_step_def side_rank_def split: if_splits\<close>)

lemma switch_progress:
  assumes "in_stage n r g s" "sides n s" "\<not> both_exited s"
  shows "switch_step n Parent s \<noteq> None \<or> switch_step n Child s \<noteq> None"
  using assms
  by (cases g) (auto simp: in_stage_def child_ready_def sides_def both_exited_def step_simps split: if_splits)

definition switch_start :: "nat \<Rightarrow> switch \<Rightarrow> bool" where
  "switch_start n s \<longleftrightarrow> s = switch_initial n"

interpretation sw: terminating_program "switch_step n" "switch_start n" "switch_inv n" "\<lambda>_. True" both_exited "switch_rank n" for n
proof unfold_locales
  fix s assume "switch_start n s"
  then show "switch_inv n s" by (simp add: switch_start_def switch_inv_start)
next
  fix s a t assume a: "switch_inv n s" "switch_step n a s = Some t"
  then show t: "switch_inv n t" using parent_moves child_moves by (cases a) blast+
  obtain r g where g: "in_stage n r g s" "sides n s" "sides n t" using a(1) t by (auto simp: switch_inv_def)
  show "switch_rank n t < switch_rank n s"
    using a(2) parent_rank [of n s t] child_rank [of n s t] in_loop [OF g(1)] g(3)
    by (cases a) (auto simp: switch_step_def switch_rank_def sides_def split: if_splits)
next
  fix s assume "switch_inv n s" "\<not> both_exited s"
  then show "\<exists>a t. True \<and> switch_step n a s = Some t" using switch_progress unfolding switch_inv_def by blast
qed

section \<open>The property\<close>

lemma rounds_add: "rounds (m + k) = rounds m @ rounds k"
  by (simp add: rounds_def replicate_add)

lemma stage_printed:
  assumes "in_stage n r g s"
  shows "\<exists>xs. printed s @ xs = rounds n"
proof (cases "g = Over")
  case True
  then show ?thesis using assms by (simp add: in_stage_def)
next
  case False
  then have "r < n" using assms by (cases g) (simp_all add: in_stage_def)
  then have "rounds n = rounds (Suc r) @ rounds (n - Suc r)" using rounds_add [of "Suc r" "n - Suc r"] by simp
  then have n: "rounds n = rounds r @ [parent_says @ ''hi'', child_tells @ ''hi'', child_says @ ''hello'', parent_tells @ ''hello''] @ rounds (n - Suc r)"
    by (simp add: rounds_Suc)
  show ?thesis unfolding n using assms False by (cases g) (auto simp: in_stage_def)
qed

lemma stage_facts:
  assumes "in_stage n r g s"
  shows "length (pipe1 s @ pipe2 s) \<le> 20 \<and> idx s Parent \<le> idx s Child \<and> idx s Child \<le> Suc (idx s Parent)"
    and "pc s w \<noteq> Killed" and "both_exited s \<Longrightarrow> printed s = rounds n"
  using assms
  by (cases g; cases w; auto simp: in_stage_def child_ready_def both_exited_def split: if_splits)+

text \<open>Property C18.
  The two processes of \<open>cntxtsw.c\<close> take turns, whatever the schedule and for every number of rounds: at most one message of 20 bytes is in
  the pipes, the child is at most one round ahead, no read returns a part of a message and no write is without a reader. What the loops
  print is always a beginning of the same sequence, four lines a round with the messages "hi" and "hello". Every run is bounded, it can
  always go on until both processes have exited, and then all rounds are printed. That the processes run on one processor does not
  follow from the code, which never passes the set that it fills in to the kernel.
\<close>

theorem switch_rounds:
  assumes "reach (switch_step n) (switch_start n) s"
  shows "bad s = None \<and> pc s w \<noteq> Killed \<and> length (pipe1 s @ pipe2 s) \<le> 20 \<and>
    idx s Parent \<le> idx s Child \<and> idx s Child \<le> Suc (idx s Parent) \<and>
    (\<exists>xs. printed s @ xs = rounds n) \<and>
    (\<forall>as t. run (switch_step n) as s = Some t \<longrightarrow> length as \<le> switch_rank n s) \<and>
    (\<exists>as t. run (switch_step n) as s = Some t \<and> both_exited t) \<and>
    (both_exited s \<longrightarrow> printed s = rounds n)"
proof -
  obtain r g where g: "in_stage n r g s" and "sides n s"
    using sw.invar_reach [OF assms] unfolding switch_inv_def by blast
  moreover have "\<forall>as t. run (switch_step n) as s = Some t \<longrightarrow> length as \<le> switch_rank n s"
    using sw.run_length [OF assms] by (simp add: list_all_iff)
  moreover have "\<exists>as t. run (switch_step n) as s = Some t \<and> both_exited t" using sw.can_finish [OF assms] by blast
  ultimately show ?thesis using stage_printed [OF g] stage_facts [OF g] by (simp add: sides_def)
qed

theorem switch_rounds_witness:
  "\<exists>as t. run (switch_step num_syscalls) as (switch_initial num_syscalls) = Some t \<and> printed t = rounds num_syscalls"
proof -
  have start: "reach (switch_step num_syscalls) (switch_start num_syscalls) (switch_initial num_syscalls)"
    by (rule reach_start) (simp add: switch_start_def)
  then obtain as t where t: "run (switch_step num_syscalls) as (switch_initial num_syscalls) = Some t" "both_exited t"
    using switch_rounds by blast
  then show ?thesis using switch_rounds [OF reach_run_extend [OF start t(1)]] by blast
qed

end
