(* ===== verification/Chat.thy ===== *)
theory Chat
  imports Ctext
begin

text \<open>
  The chat of \<open>src/ostep-projects/simpleTCP\<close>: \<open>chatfun\<close> of \<open>TCPclient.c\<close> and of \<open>TCPserver.c\<close>, each with a buffer of \<open>MAX\<close> bytes, as two
  processes over a connection of two byte streams; and the start of both programs. What is typed is a list of characters for each
  side. TCP keeps no message boundaries: a \<open>read\<close> may return fewer bytes than there are, and one flag of the model says whether it does.
\<close>

section \<open>The buffer\<close>

definition MAXBUF :: nat where "MAXBUF = 80"

definition nul :: char where "nul = CHR 0x00"

definition zeros :: "char list" where
  "zeros = replicate MAXBUF nul"

text \<open>At the end of the input \<open>getchar\<close> returns \<open>EOF\<close>, -1, again and again; stored in a \<open>char\<close> that is this character.\<close>

definition EOF_char :: char where "EOF_char = CHR 0xFF"

text \<open>\<open>while ((buff[n++] = getchar()) != '\n') ;\<close> with what is left of the input.\<close>

function fill :: "char list \<Rightarrow> nat \<Rightarrow> string \<Rightarrow> (char list \<times> string) res" where
  "fill buff n keys =
     (if length buff \<le> n then Inl Out_of_bounds
      else (case keys of
          [] \<Rightarrow> fill (buff[n := EOF_char]) (Suc n) []
        | c # rest \<Rightarrow>
            if c = newline then Inr (buff[n := c], rest) else fill (buff[n := c]) (Suc n) rest))"
  by pat_completeness auto
termination by (relation "measure (\<lambda>(buff, n, keys). length buff - n)") auto

declare fill.simps [simp del]

text \<open>\<open>strncmp (buff, "exit", 4) == 0\<close>\<close>

definition is_exit :: "char list \<Rightarrow> bool" where
  "is_exit buff \<longleftrightarrow> take 4 buff = ''exit''"

section \<open>The two loops\<close>

datatype side = Client | Server

datatype chat_pc =
    Prompt | C_fill | C_write | C_read | C_print
  | S_read | S_print | S_fill | S_write | S_test
  | Gone                        \<comment> \<open>returned from \<open>chatfun\<close>, the connection closed\<close>
  | Killed                      \<comment> \<open>by the signal of a write to a closed connection\<close>

record chat =
  at :: "side \<Rightarrow> chat_pc"
  buff :: "side \<Rightarrow> char list"
  typed :: "side \<Rightarrow> string"
  said :: "side \<Rightarrow> string"       \<comment> \<open>standard output\<close>
  wire :: "side \<Rightarrow> char list"    \<comment> \<open>the bytes on their way to a side\<close>
  bad :: "fault option"

definition peer :: "side \<Rightarrow> side" where
  "peer w = (case w of Client \<Rightarrow> Server | Server \<Rightarrow> Client)"

definition goto :: "side \<Rightarrow> chat_pc \<Rightarrow> chat \<Rightarrow> chat" where
  "goto w c s = s\<lparr>at := (at s)(w := c)\<rparr>"

definition set_buff :: "side \<Rightarrow> char list \<Rightarrow> chat \<Rightarrow> chat" where
  "set_buff w b s = s\<lparr>buff := (buff s)(w := b)\<rparr>"

definition say :: "side \<Rightarrow> string \<Rightarrow> chat \<Rightarrow> chat" where
  "say w x s = s\<lparr>said := (said s)(w := said s w @ x)\<rparr>"

definition over :: "side \<Rightarrow> chat \<Rightarrow> bool" where
  "over w s \<longleftrightarrow> at s w = Gone \<or> at s w = Killed"

text \<open>\<open>printf\<close> of the buffer between two texts.\<close>

definition print_buff :: "side \<Rightarrow> string \<Rightarrow> string \<Rightarrow> chat_pc \<Rightarrow> chat \<Rightarrow> chat" where
  "print_buff w pre post c s = (case c_string (buff s w) of
       Inl e \<Rightarrow> s\<lparr>bad := Some e\<rparr>
     | Inr t \<Rightarrow> goto w c (say w (pre @ t @ post) s))"

definition fill_buff :: "side \<Rightarrow> chat_pc \<Rightarrow> chat \<Rightarrow> chat" where
  "fill_buff w c s = (case fill (buff s w) 0 (typed s w) of
       Inl e \<Rightarrow> s\<lparr>bad := Some e\<rparr>
     | Inr (b, rest) \<Rightarrow> goto w c (set_buff w b (s\<lparr>typed := (typed s)(w := rest)\<rparr>)))"

text \<open>
  \<open>read\<close> of at most \<open>MAXBUF\<close> bytes into a buffer of zeros. It blocks as long as there are none and the other side may send some; then it
  returns 0. Otherwise it returns \<open>k\<close> bytes, all that there are if \<open>whole\<close>.
\<close>

definition read_wire :: "bool \<Rightarrow> nat \<Rightarrow> side \<Rightarrow> chat_pc \<Rightarrow> chat \<Rightarrow> chat option" where
  "read_wire whole k w c s =
     (if wire s w = [] then
        (if over (peer w) s \<and> k = 0 then Some (goto w c (set_buff w zeros s)) else None)
      else if 0 < k \<and> k \<le> min MAXBUF (length (wire s w)) \<and> (whole \<longrightarrow> k = min MAXBUF (length (wire s w)))
      then Some (goto w c (set_buff w (take k (wire s w) @ drop k zeros) (s\<lparr>wire := (wire s)(w := drop k (wire s w))\<rparr>)))
      else None)"

text \<open>\<open>write\<close> of the buffer. When the other side has gone the bytes are lost (\<open>k = 0\<close>) or the process is killed (\<open>k = 1\<close>).\<close>

definition write_wire :: "nat \<Rightarrow> side \<Rightarrow> chat_pc \<Rightarrow> chat \<Rightarrow> chat option" where
  "write_wire k w c s =
     (if \<not> over (peer w) s then
        (if k = 0 then Some (goto w c (s\<lparr>wire := (wire s)(peer w := wire s (peer w) @ buff s w)\<rparr>)) else None)
      else if k = 0 then Some (goto w c s)
      else if k = 1 then Some (goto w Killed s) else None)"

definition text_prompt :: string where "text_prompt = ''Enter a message : ''"

definition text_from_server :: string where "text_from_server = ''From Server : ''"

definition text_client_exit :: string where "text_client_exit = ''Client Exit...'' @ [newline]"

definition text_from_client :: string where "text_from_client = ''From client: ''"

definition text_to_client :: string where "text_to_client = [CHR 0x09] @ '' To client : ''"

definition text_server_exit :: string where "text_server_exit = ''Server Exit...'' @ [newline]"

definition client_chatfun :: "bool \<Rightarrow> nat \<Rightarrow> chat \<Rightarrow> chat option" where
  "client_chatfun whole k s = (case at s Client of
       C_write \<Rightarrow> write_wire k Client C_read s
     | C_read \<Rightarrow> read_wire whole k Client C_print s
     | c \<Rightarrow> if k \<noteq> 0 then None else (case c of
         Prompt \<Rightarrow> Some (goto Client C_fill (say Client text_prompt (set_buff Client zeros s)))
       | C_fill \<Rightarrow> Some (fill_buff Client C_write s)
       | C_print \<Rightarrow> Some (let t = print_buff Client text_from_server [] Prompt s in
           if bad t = None \<and> is_exit (buff s Client) then goto Client Gone (say Client text_client_exit t) else t)
       | _ \<Rightarrow> None))"

definition server_chatfun :: "bool \<Rightarrow> nat \<Rightarrow> chat \<Rightarrow> chat option" where
  "server_chatfun whole k s = (case at s Server of
       S_read \<Rightarrow> read_wire whole k Server S_print s
     | S_write \<Rightarrow> write_wire k Server S_test s
     | c \<Rightarrow> if k \<noteq> 0 then None else (case c of
         S_print \<Rightarrow> Some (print_buff Server text_from_client text_to_client S_fill s)
       | S_fill \<Rightarrow> Some (fill_buff Server S_write (set_buff Server zeros s))
       | S_test \<Rightarrow> Some (if is_exit (buff s Server) then goto Server Gone (say Server text_server_exit s) else goto Server S_read s)
       | _ \<Rightarrow> None))"

definition chat_step :: "bool \<Rightarrow> side \<times> nat \<Rightarrow> chat \<Rightarrow> chat option" where
  "chat_step whole a s = (if bad s \<noteq> None then None
     else case a of (w, k) \<Rightarrow> (case w of Client \<Rightarrow> client_chatfun whole k s | Server \<Rightarrow> server_chatfun whole k s))"

definition chat_initial :: "string \<Rightarrow> string \<Rightarrow> chat" where
  "chat_initial ckeys skeys = \<lparr>at = (\<lambda>w. case w of Client \<Rightarrow> Prompt | Server \<Rightarrow> S_read), buff = (\<lambda>_. zeros),
     typed = (\<lambda>w. case w of Client \<Rightarrow> ckeys | Server \<Rightarrow> skeys), said = (\<lambda>_. []), wire = (\<lambda>_. []), bad = None\<rparr>"

section \<open>The start of the programs\<close>

text \<open>The messages before \<open>chatfun\<close>, and whether it is called. The results of the socket calls are parameters.\<close>

definition client_main :: "bool \<Rightarrow> bool \<Rightarrow> string list \<times> bool" where
  "client_main socket_ok connect_ok =
     (if \<not> socket_ok then ([''socket creation failed...''], False)
      else if \<not> connect_ok then ([''Socket successfully created...'', ''connection to server failed...''], False)
      else ([''Socket successfully created...'', ''connected to server...''], True))"

definition server_main :: "bool \<Rightarrow> bool \<Rightarrow> bool \<Rightarrow> bool \<Rightarrow> string list \<times> bool" where
  "server_main socket_ok bind_ok listen_ok accept_ok =
     (if \<not> socket_ok then ([''socket creation failed ...''], False)
      else if \<not> bind_ok then ([''Socket successfully created..'', ''socket bind failed...''], False)
      else if \<not> listen_ok then ([''Socket successfully created..'', ''Success! Socket bound..'', ''Listen failed..''], False)
      else ([''Socket successfully created..'', ''Success! Socket bound..'', ''Server listening...'',
        if accept_ok then ''server accepts client request...'' else ''server accept failed...''], True))"

lemma fill_keys_less: "fill b n keys = Inr (b', rest) \<Longrightarrow> length rest < length keys"
proof (induction b n keys rule: fill.induct)
  case (1 b n keys)
  then show ?case
    by (subst (asm) fill.simps [of b n keys]) (auto split: if_splits list.splits intro: less_SucI dest: less_SucI)
qed

text \<open>\<open>chatfun\<close> of the server on the descriptor -1 of a failed \<open>accept\<close>: no call of \<open>read\<close> or \<open>write\<close> has an effect.\<close>

function server_without_client :: "string \<Rightarrow> string \<Rightarrow> string res" where
  "server_without_client keys out =
     (let out = out @ text_from_client @ text_to_client
      in (case fill zeros 0 keys of
          Inl e \<Rightarrow> Inl e
        | Inr (b, rest) \<Rightarrow> if is_exit b then Inr (out @ text_server_exit) else server_without_client rest out))"
  by pat_completeness auto
termination by (relation "measure (\<lambda>(keys, out). length keys)") (auto dest: fill_keys_less)

declare server_without_client.simps [simp del]

section \<open>One line\<close>

text \<open>The buffer after a line was typed into it.\<close>

definition pad :: "string \<Rightarrow> char list" where
  "pad l = l @ [newline] @ replicate (MAXBUF - Suc (length l)) nul"

lemma fill_line:
  "newline \<notin> set l \<Longrightarrow> fill (pre @ replicate m nul) (length pre) (l @ newline # rest) =
    (if length l < m then Inr (pre @ l @ [newline] @ replicate (m - Suc (length l)) nul, rest) else Inl Out_of_bounds)"
proof (induction l arbitrary: pre m)
  case Nil
  then show ?case by (subst fill.simps) (auto simp: list_update_append Cons_replicate_eq gr0_conv_Suc)
next
  case (Cons c l)
  show ?case
  proof (cases m)
    case 0
    then show ?thesis by (subst fill.simps) simp
  next
    case (Suc k)
    have "fill ((pre @ [c]) @ replicate k nul) (length (pre @ [c])) (l @ newline # rest) =
        (if length l < k then Inr ((pre @ [c]) @ l @ [newline] @ replicate (k - Suc (length l)) nul, rest) else Inl Out_of_bounds)"
      using Cons by (intro Cons.IH) simp
    moreover have "c \<noteq> newline" using Cons.prems by auto
    ultimately show ?thesis using Suc by (subst fill.simps) (simp add: list_update_append)
  qed
qed

lemma fill_no_line: "newline \<notin> set keys \<Longrightarrow> fill b n keys = Inl Out_of_bounds"
proof (induction b n keys rule: fill.induct)
  case (1 b n keys)
  then show ?case by (subst fill.simps) (auto split: list.splits)
qed

lemma fill_pad:
  assumes "newline \<notin> set l" "length l < MAXBUF"
  shows "fill zeros 0 (l @ newline # rest) = Inr (pad l, rest)"
  using fill_line [OF assms(1), of "[]" MAXBUF rest] assms(2) by (simp add: zeros_def pad_def)

lemma length_pad: "length l < MAXBUF \<Longrightarrow> length (pad l) = MAXBUF"
  by (simp add: pad_def)

lemma c_string_pad:
  assumes "nul \<notin> set l" "length l < MAXBUF - 1"
  shows "c_string (pad l) = Inr (l @ [newline])"
proof -
  obtain k where k: "MAXBUF - Suc (length l) = Suc k" using assms(2) by (metis Suc_diff_Suc diff_Suc_eq_diff_pred)
  have "takeWhile (\<lambda>c. c \<noteq> nul) (l @ [newline] @ nul # replicate k nul) = l @ [newline]"
    using assms(1) by (subst takeWhile_append2) (auto simp: newline_def nul_def)
  then show ?thesis by (simp add: c_string_def pad_def k nul_def)
qed

lemma c_string_full:
  assumes "nul \<notin> set l" "length l = MAXBUF - 1"
  shows "c_string (pad l) = Inl Out_of_bounds"
  using assms by (simp add: c_string_def pad_def MAXBUF_def nul_def newline_def)


lemma pad_not_nil: "pad l \<noteq> []"
  by (simp add: pad_def)

lemma is_exit_pad: "is_exit (pad l) \<longleftrightarrow> is_exit l"
proof -
  have "take 4 (pad l) = take 4 l" if "4 \<le> length l" using that by (simp add: pad_def)
  moreover have "take 4 (pad l) \<noteq> ''exit'' \<and> take 4 l \<noteq> ''exit''" if "length l < 4"
  proof -
    have "take 4 (pad l) ! length l = newline" using that by (simp add: pad_def nth_append MAXBUF_def)
    moreover have "''exit'' ! length l \<noteq> newline" using that by (auto simp: newline_def less_Suc_eq numeral_eq_Suc)
    moreover have "length (take 4 l) \<noteq> length ''exit''" using that by simp
    ultimately show ?thesis by metis
  qed
  ultimately show ?thesis unfolding is_exit_def by (metis not_less)
qed

section \<open>A conversation\<close>

text \<open>A line that fits: no newline, no null byte, shorter than the buffer by two.\<close>

definition plain :: "string \<Rightarrow> bool" where
  "plain l \<longleftrightarrow> newline \<notin> set l \<and> nul \<notin> set l \<and> length l < MAXBUF - 1"

text \<open>Rounds of a line of the client and one of the server, of which the last and no other is the exit.\<close>

definition talk :: "(string \<times> string) list \<Rightarrow> bool" where
  "talk rs \<longleftrightarrow> rs \<noteq> [] \<and> list_all (\<lambda>(c, a). plain c \<and> plain a) rs \<and>
    list_all (\<lambda>(c, a). \<not> is_exit a) (butlast rs) \<and> is_exit (snd (last rs))"

definition keys :: "string list \<Rightarrow> string" where
  "keys ls = concat (map (\<lambda>l. l @ [newline]) ls)"

definition client_text :: "(string \<times> string) list \<Rightarrow> string" where
  "client_text rs = concat (map (\<lambda>(c, a). text_prompt @ text_from_server @ a @ [newline]) rs)"

definition server_text :: "(string \<times> string) list \<Rightarrow> string" where
  "server_text rs = concat (map (\<lambda>(c, a). text_from_client @ c @ [newline] @ text_to_client) rs)"

text \<open>Where a process is: its program counter, the lines it has read from the keyboard, and what it printed in this round.\<close>

definition client_is :: "(string \<times> string) list \<Rightarrow> string \<Rightarrow> nat \<Rightarrow> nat \<Rightarrow> string \<Rightarrow> chat_pc \<Rightarrow> chat \<Rightarrow> bool" where
  "client_is rs ce r k x c s \<longleftrightarrow> at s Client = c \<and> typed s Client = keys (map fst (drop k rs)) @ ce \<and> said s Client = client_text (take r rs) @ x"

definition server_is :: "(string \<times> string) list \<Rightarrow> string \<Rightarrow> nat \<Rightarrow> nat \<Rightarrow> string \<Rightarrow> chat_pc \<Rightarrow> chat \<Rightarrow> bool" where
  "server_is rs se r k x c s \<longleftrightarrow> at s Server = c \<and> typed s Server = keys (map snd (drop k rs)) @ se \<and> said s Server = server_text (take r rs) @ x"

text \<open>The server before round \<open>r\<close>, or at its end.\<close>

definition server_ready :: "(string \<times> string) list \<Rightarrow> string \<Rightarrow> nat \<Rightarrow> chat \<Rightarrow> bool" where
  "server_ready rs se r s \<longleftrightarrow>
     server_is rs se r r [] S_test s \<and> 0 < r \<and> buff s Server = pad (snd (rs ! (r - 1))) \<or>
     server_is rs se r r [] S_read s \<and> r < length rs \<or>
     server_is rs se r r text_server_exit Gone s \<and> r = length rs"

datatype stage = Composing | Asked | Answering | Answered | Reading | Finished

definition in_stage :: "(string \<times> string) list \<Rightarrow> string \<Rightarrow> string \<Rightarrow> nat \<Rightarrow> stage \<Rightarrow> chat \<Rightarrow> bool" where
  "in_stage rs ce se r g s \<longleftrightarrow> (case g of
       Composing \<Rightarrow> r < length rs \<and> wire s Client = [] \<and> wire s Server = [] \<and> server_ready rs se r s \<and>
         (client_is rs ce r r [] Prompt s \<or>
          client_is rs ce r r text_prompt C_fill s \<and> buff s Client = zeros \<or>
          client_is rs ce r (Suc r) text_prompt C_write s \<and> buff s Client = pad (fst (rs ! r)))
     | Asked \<Rightarrow> r < length rs \<and> wire s Client = [] \<and> wire s Server = pad (fst (rs ! r)) \<and> server_ready rs se r s \<and>
         client_is rs ce r (Suc r) text_prompt C_read s
     | Answering \<Rightarrow> r < length rs \<and> wire s Client = [] \<and> wire s Server = [] \<and> client_is rs ce r (Suc r) text_prompt C_read s \<and>
         (server_is rs se r r [] S_print s \<and> buff s Server = pad (fst (rs ! r)) \<or>
          server_is rs se (Suc r) r [] S_fill s \<or>
          server_is rs se (Suc r) (Suc r) [] S_write s \<and> buff s Server = pad (snd (rs ! r)))
     | Answered \<Rightarrow> r < length rs \<and> wire s Client = pad (snd (rs ! r)) \<and> wire s Server = [] \<and> server_ready rs se (Suc r) s \<and>
         client_is rs ce r (Suc r) text_prompt C_read s
     | Reading \<Rightarrow> r < length rs \<and> wire s Client = [] \<and> wire s Server = [] \<and> server_ready rs se (Suc r) s \<and>
         client_is rs ce r (Suc r) text_prompt C_print s \<and> buff s Client = pad (snd (rs ! r))
     | Finished \<Rightarrow> r = length rs \<and> wire s Client = [] \<and> wire s Server = [] \<and> server_ready rs se r s \<and>
         client_is rs ce r r text_client_exit Gone s)"

definition chat_inv :: "(string \<times> string) list \<Rightarrow> string \<Rightarrow> string \<Rightarrow> chat \<Rightarrow> bool" where
  "chat_inv rs ce se s \<longleftrightarrow> bad s = None \<and> (\<exists>r g. in_stage rs ce se r g s)"


lemma keys_Cons:
  "r < length rs \<Longrightarrow> keys (map f (drop r rs)) @ e = f (rs ! r) @ newline # (keys (map f (drop (Suc r) rs)) @ e)"
  by (simp add: keys_def Cons_nth_drop_Suc [symmetric])

lemma text_Suc:
  assumes "r < length rs"
  shows "client_text (take (Suc r) rs) = client_text (take r rs) @ text_prompt @ text_from_server @ snd (rs ! r) @ [newline]"
    and "server_text (take (Suc r) rs) = server_text (take r rs) @ text_from_client @ fst (rs ! r) @ [newline] @ text_to_client"
  using assms by (simp_all add: client_text_def server_text_def take_Suc_conv_app_nth split_def)

lemma talk_plain: "talk rs \<Longrightarrow> r < length rs \<Longrightarrow> plain (fst (rs ! r)) \<and> plain (snd (rs ! r))"
  by (auto simp: talk_def list_all_length split_def)

lemma talk_exit: "talk rs \<Longrightarrow> r < length rs \<Longrightarrow> is_exit (snd (rs ! r)) \<longleftrightarrow> Suc r = length rs"
proof -
  assume a: "talk rs" "r < length rs"
  show ?thesis
  proof (cases "Suc r = length rs")
    case True
    then have "r = length rs - 1" by simp
    then have "rs ! r = last rs" using a(1) by (simp add: talk_def last_conv_nth)
    then show ?thesis using a(1) True by (simp add: talk_def)
  next
    case False
    then have "r < length (butlast rs)" using a(2) by simp
    then have "\<not> is_exit (snd (butlast rs ! r))" using a(1) by (auto simp: talk_def list_all_length split_def)
    then show ?thesis using False a(2) by (simp add: nth_butlast)
  qed
qed

lemma fill_buff_line:
  "typed s w = l @ newline # rest \<Longrightarrow> buff s w = zeros \<Longrightarrow> plain l \<Longrightarrow>
    fill_buff w c s = goto w c (set_buff w (pad l) (s\<lparr>typed := (typed s)(w := rest)\<rparr>))"
proof -
  assume a: "typed s w = l @ newline # rest" "buff s w = zeros" "plain l"
  then have "fill zeros 0 (l @ newline # rest) = Inr (pad l, rest)" by (intro fill_pad) (auto simp: plain_def)
  then show ?thesis using a by (simp add: fill_buff_def)
qed

lemma print_buff_line:
  "buff s w = pad l \<Longrightarrow> plain l \<Longrightarrow> print_buff w pre post c s = goto w c (say w (pre @ l @ [newline] @ post) s)"
  by (simp add: print_buff_def plain_def c_string_pad)

lemma read_wire_line:
  "wire s w = pad l \<Longrightarrow> plain l \<Longrightarrow> read_wire True k w c s =
    (if k = MAXBUF then Some (goto w c (set_buff w (pad l) (s\<lparr>wire := (wire s)(w := [])\<rparr>))) else None)"
  using length_pad [of l] pad_not_nil [of l] by (auto simp: read_wire_def plain_def zeros_def MAXBUF_def)

lemma read_wire_blocks: "wire s w = [] \<Longrightarrow> \<not> over (peer w) s \<Longrightarrow> read_wire b k w c s = None"
  by (simp add: read_wire_def)

lemma write_wire_line:
  "\<not> over (peer w) s \<Longrightarrow> write_wire k w c s =
    (if k = 0 then Some (goto w c (s\<lparr>wire := (wire s)(peer w := wire s (peer w) @ buff s w)\<rparr>)) else None)"
  by (simp add: write_wire_def)

lemmas move_simps = chat_step_def client_chatfun_def server_chatfun_def goto_def set_buff_def say_def Let_def

lemmas here_simps = client_is_def server_is_def

lemma not_over:
  "server_ready rs se r s \<Longrightarrow> r < length rs \<Longrightarrow> \<not> over Server s"
  "client_is rs ce r k x c s \<Longrightarrow> c \<noteq> Gone \<Longrightarrow> c \<noteq> Killed \<Longrightarrow> \<not> over Client s"
  by (auto simp: server_ready_def here_simps over_def)

lemma server_ready_cong:
  "at t Server = at s Server \<Longrightarrow> typed t Server = typed s Server \<Longrightarrow> said t Server = said s Server \<Longrightarrow> buff t Server = buff s Server \<Longrightarrow>
    server_ready rs se r t = server_ready rs se r s"
  by (simp add: server_ready_def here_simps)

lemma client_is_cong:
  "at t Client = at s Client \<Longrightarrow> typed t Client = typed s Client \<Longrightarrow> said t Client = said s Client \<Longrightarrow>
    client_is rs ce r k x c t = client_is rs ce r k x c s"
  by (simp add: here_simps)

lemma client_in_stage:
  assumes talk: "talk rs" and st: "in_stage rs ce se r g s" and ok: "bad s = None"
    and move: "chat_step True (Client, k) s = Some t"
  shows "bad t = None \<and> (\<exists>r g. in_stage rs ce se r g t)"
proof (cases g)
  case Composing
  then have r: "r < length rs" and w: "wire s Client = []" "wire s Server = []" and sr: "server_ready rs se r s"
    using st by (simp_all add: in_stage_def)
  from st Composing consider "client_is rs ce r r [] Prompt s" | "client_is rs ce r r text_prompt C_fill s" "buff s Client = zeros"
    | "client_is rs ce r (Suc r) text_prompt C_write s" "buff s Client = pad (fst (rs ! r))"
    by (auto simp: in_stage_def)
  then show ?thesis
  proof cases
    case 1
    then have t: "t = goto Client C_fill (say Client text_prompt (set_buff Client zeros s))"
      using move ok by (simp add: client_is_def chat_step_def client_chatfun_def split: if_splits)
    then have "server_ready rs se r t" using sr t by (intro iffD2 [OF server_ready_cong [of t s]]) (simp_all add: goto_def say_def set_buff_def)
    then have "in_stage rs ce se r Composing t"
      using 1 r w t by (simp add: in_stage_def client_is_def goto_def say_def set_buff_def)
    then show ?thesis using t ok by (auto simp: goto_def say_def set_buff_def)
  next
    case 2
    have "typed s Client = fst (rs ! r) @ newline # (keys (map fst (drop (Suc r) rs)) @ ce)"
      using 2 keys_Cons [OF r] by (simp add: client_is_def)
    then have t: "t = goto Client C_write (set_buff Client (pad (fst (rs ! r))) (s\<lparr>typed := (typed s)(Client := keys (map fst (drop (Suc r) rs)) @ ce)\<rparr>))"
      using move ok 2 talk_plain [OF talk r]
      by (simp add: client_is_def chat_step_def client_chatfun_def fill_buff_line split: if_splits)
    then have "server_ready rs se r t" using sr t by (intro iffD2 [OF server_ready_cong [of t s]]) (simp_all add: goto_def say_def set_buff_def)
    then have "in_stage rs ce se r Composing t"
      using 2 r w t by (simp add: in_stage_def client_is_def goto_def set_buff_def)
    then show ?thesis using t ok by (auto simp: goto_def set_buff_def)
  next
    case 3
    have t: "t = goto Client C_read (s\<lparr>wire := (wire s)(Server := pad (fst (rs ! r)))\<rparr>)"
      using move ok 3 w not_over(1) [OF sr r]
      by (simp add: client_is_def chat_step_def client_chatfun_def write_wire_line peer_def split: if_splits)
    then have "server_ready rs se r t" using sr t by (intro iffD2 [OF server_ready_cong [of t s]]) (simp_all add: goto_def)
    then have "in_stage rs ce se r Asked t" using 3 r w t by (simp add: in_stage_def client_is_def goto_def)
    then show ?thesis using t ok by (auto simp: goto_def)
  qed
next
  case Asked
  then have "at s Client = C_read" "wire s Client = []" "\<not> over Server s"
    using st not_over(1) by (auto simp: in_stage_def client_is_def)
  then have False using move ok by (simp add: chat_step_def client_chatfun_def read_wire_blocks peer_def)
  then show ?thesis ..
next
  case Answering
  then have "at s Client = C_read" "wire s Client = []" "\<not> over Server s"
    using st by (auto simp: in_stage_def client_is_def server_is_def over_def)
  then have False using move ok by (simp add: chat_step_def client_chatfun_def read_wire_blocks peer_def)
  then show ?thesis ..
next
  case Answered
  then have r: "r < length rs" and w: "wire s Client = pad (snd (rs ! r))" "wire s Server = []" and sr: "server_ready rs se (Suc r) s"
    and c: "client_is rs ce r (Suc r) text_prompt C_read s"
    using st by (simp_all add: in_stage_def)
  then have t: "t = goto Client C_print (set_buff Client (pad (snd (rs ! r))) (s\<lparr>wire := (wire s)(Client := [])\<rparr>))"
    using move ok talk_plain [OF talk r] by (simp add: client_is_def chat_step_def client_chatfun_def read_wire_line split: if_splits)
  then have "server_ready rs se (Suc r) t" using sr t by (intro iffD2 [OF server_ready_cong [of t s]]) (simp_all add: goto_def set_buff_def)
  then have "in_stage rs ce se r Reading t" using r w t c by (simp add: in_stage_def client_is_def goto_def set_buff_def)
  then show ?thesis using t ok by (auto simp: goto_def set_buff_def)
next
  case Reading
  then have r: "r < length rs" and w: "wire s Client = []" "wire s Server = []" and sr: "server_ready rs se (Suc r) s"
    and c: "client_is rs ce r (Suc r) text_prompt C_print s" and b: "buff s Client = pad (snd (rs ! r))"
    using st by (simp_all add: in_stage_def)
  have t: "t = (let u = goto Client Prompt (say Client (text_from_server @ snd (rs ! r) @ [newline]) s)
       in if Suc r = length rs then goto Client Gone (say Client text_client_exit u) else u)"
    using move ok c b talk_plain [OF talk r] talk_exit [OF talk r]
    by (auto simp: client_is_def chat_step_def client_chatfun_def print_buff_line is_exit_pad Let_def say_def goto_def split: if_splits)
  have "server_ready rs se (Suc r) t" using sr t by (intro iffD2 [OF server_ready_cong [of t s]]) (simp_all add: goto_def say_def Let_def)
  then have "in_stage rs ce se (Suc r) (if Suc r = length rs then Finished else Composing) t"
    using r w c text_Suc(1) [OF r] unfolding t
    by (cases "Suc r = length rs") (simp_all add: in_stage_def client_is_def goto_def say_def Let_def)
  moreover have "bad t = None" using t ok by (simp add: goto_def say_def Let_def)
  ultimately show ?thesis by blast
next
  case Finished
  then have False using st move ok by (simp add: in_stage_def client_is_def chat_step_def client_chatfun_def split: if_splits)
  then show ?thesis ..
qed


text \<open>The server's first step of a round.\<close>

lemma server_ready_moves:
  assumes talk: "talk rs" and r: "r \<le> length rs" and sr: "server_ready rs se r s" and ok: "bad s = None" and live: "r < length rs \<Longrightarrow> \<not> over Client s"
    and w: "wire s Server = []"
    and move: "chat_step True (Server, k) s = Some t"
  shows "server_ready rs se r t \<and> bad t = None \<and> wire t = wire s \<and> at t Client = at s Client \<and> typed t Client = typed s Client \<and>
    said t Client = said s Client \<and> buff t Client = buff s Client"
proof -
  from sr consider "server_is rs se r r [] S_test s" "0 < r" "buff s Server = pad (snd (rs ! (r - 1)))"
    | "server_is rs se r r [] S_read s" "r < length rs" | "server_is rs se r r text_server_exit Gone s" "r = length rs"
    by (auto simp: server_ready_def)
  then show ?thesis
  proof cases
    case 1
    then have "is_exit (buff s Server) \<longleftrightarrow> r = length rs" using talk_exit [OF talk, of "r - 1"] r by (auto simp: is_exit_pad)
    then have t: "t = (if r = length rs then goto Server Gone (say Server text_server_exit s) else goto Server S_read s)"
      using move ok 1 by (simp add: server_is_def chat_step_def server_chatfun_def split: if_splits)
    then show ?thesis using r 1 ok by (cases "r = length rs") (simp_all add: server_ready_def server_is_def goto_def say_def)
  next
    case 2
    then show ?thesis using move ok w live by (simp add: server_is_def chat_step_def server_chatfun_def read_wire_blocks peer_def)
  next
    case 3
    then show ?thesis using move ok by (simp add: server_is_def chat_step_def server_chatfun_def split: if_splits)
  qed
qed


lemma server_waits:
  assumes talk: "talk rs" and g: "g = Composing \<or> g = Answered \<or> g = Reading \<or> g = Finished" and st: "in_stage rs ce se r g s"
    and ok: "bad s = None" and move: "chat_step True (Server, k) s = Some t"
  shows "bad t = None \<and> (\<exists>r g. in_stage rs ce se r g t)"
proof -
  obtain q where q: "q = (if g = Answered \<or> g = Reading then Suc r else r)" by simp
  have "q \<le> length rs" and w: "wire s Server = []" and sr: "server_ready rs se q s" and "q < length rs \<Longrightarrow> \<not> over Client s"
    using g st q by (auto simp: in_stage_def client_is_def over_def)
  then have t: "server_ready rs se q t \<and> bad t = None \<and> wire t = wire s \<and> at t Client = at s Client \<and> typed t Client = typed s Client \<and>
      said t Client = said s Client \<and> buff t Client = buff s Client"
    by (intro server_ready_moves [OF talk _ _ ok _ _ move])
  then have "in_stage rs ce se r g t" using g st q by (auto simp: in_stage_def client_is_def)
  then show ?thesis using t by blast
qed

lemma server_in_stage:
  assumes talk: "talk rs" and st: "in_stage rs ce se r g s" and ok: "bad s = None"
    and move: "chat_step True (Server, k) s = Some t"
  shows "bad t = None \<and> (\<exists>r g. in_stage rs ce se r g t)"
proof (cases g)
  case Composing
  then show ?thesis using server_waits [OF talk _ st ok move] by blast
next
  case Asked
  then have r: "r < length rs" and w: "wire s Client = []" "wire s Server = pad (fst (rs ! r))" and sr: "server_ready rs se r s"
    and c: "client_is rs ce r (Suc r) text_prompt C_read s"
    using st by (simp_all add: in_stage_def)
  from sr r consider "server_is rs se r r [] S_test s" "0 < r" "buff s Server = pad (snd (rs ! (r - 1)))"
    | "server_is rs se r r [] S_read s"
    by (auto simp: server_ready_def)
  then show ?thesis
  proof cases
    case 1
    then have "\<not> is_exit (buff s Server)" using talk_exit [OF talk, of "r - 1"] r by (auto simp: is_exit_pad)
    then have t: "t = goto Server S_read s"
      using move ok 1 by (simp add: server_is_def chat_step_def server_chatfun_def split: if_splits)
    then have "in_stage rs ce se r Asked t"
      using 1 r w c by (simp add: in_stage_def server_ready_def client_is_def server_is_def goto_def)
    then show ?thesis using t ok by (auto simp: goto_def)
  next
    case 2
    have t: "t = goto Server S_print (set_buff Server (pad (fst (rs ! r))) (s\<lparr>wire := (wire s)(Server := [])\<rparr>))"
      using move ok 2 w talk_plain [OF talk r] by (simp add: server_is_def chat_step_def server_chatfun_def read_wire_line split: if_splits)
    then have "in_stage rs ce se r Answering t"
      using 2 r w c by (simp add: in_stage_def client_is_def server_is_def goto_def set_buff_def)
    then show ?thesis using t ok by (auto simp: goto_def set_buff_def)
  qed
next
  case Answering
  then have r: "r < length rs" and w: "wire s Client = []" "wire s Server = []" and c: "client_is rs ce r (Suc r) text_prompt C_read s"
    using st by (simp_all add: in_stage_def)
  from st Answering consider "server_is rs se r r [] S_print s" "buff s Server = pad (fst (rs ! r))" | "server_is rs se (Suc r) r [] S_fill s"
    | "server_is rs se (Suc r) (Suc r) [] S_write s" "buff s Server = pad (snd (rs ! r))"
    by (auto simp: in_stage_def)
  then show ?thesis
  proof cases
    case 1
    have t: "t = goto Server S_fill (say Server (text_from_client @ fst (rs ! r) @ [newline] @ text_to_client) s)"
      using move ok 1 talk_plain [OF talk r] by (simp add: server_is_def chat_step_def server_chatfun_def print_buff_line split: if_splits)
    then have "in_stage rs ce se r Answering t"
      using 1 r w c text_Suc(2) [OF r] by (simp add: in_stage_def client_is_def server_is_def goto_def say_def)
    then show ?thesis using t ok by (auto simp: goto_def say_def)
  next
    case 2
    have "typed s Server = snd (rs ! r) @ newline # (keys (map snd (drop (Suc r) rs)) @ se)"
      using 2 keys_Cons [OF r] by (simp add: server_is_def)
    then have t: "t = goto Server S_write (set_buff Server (pad (snd (rs ! r)))
        ((set_buff Server zeros s)\<lparr>typed := (typed s)(Server := keys (map snd (drop (Suc r) rs)) @ se)\<rparr>))"
      using move ok 2 talk_plain [OF talk r]
      by (simp add: server_is_def chat_step_def server_chatfun_def fill_buff_line set_buff_def split: if_splits)
    then have "in_stage rs ce se r Answering t"
      using 2 r w c by (simp add: in_stage_def client_is_def server_is_def goto_def set_buff_def)
    then show ?thesis using t ok by (auto simp: goto_def set_buff_def)
  next
    case 3
    have t: "t = goto Server S_test (s\<lparr>wire := (wire s)(Client := pad (snd (rs ! r)))\<rparr>)"
      using move ok 3 w not_over(2) [OF c]
      by (simp add: server_is_def chat_step_def server_chatfun_def write_wire_line peer_def split: if_splits)
    then have "in_stage rs ce se r Answered t"
      using 3 r w c by (simp add: in_stage_def server_ready_def client_is_def server_is_def goto_def)
    then show ?thesis using t ok by (auto simp: goto_def)
  qed
next
  case Answered
  then show ?thesis using server_waits [OF talk _ st ok move] by blast
next
  case Reading
  then show ?thesis using server_waits [OF talk _ st ok move] by blast
next
  case Finished
  then show ?thesis using server_waits [OF talk _ st ok move] by blast
qed


section \<open>Every run ends\<close>

fun pc_rank :: "chat_pc \<Rightarrow> nat" where
  "pc_rank C_write = 5"
| "pc_rank C_read = 4"
| "pc_rank C_print = 3"
| "pc_rank Prompt = 2"
| "pc_rank C_fill = 1"
| "pc_rank S_write = 5"
| "pc_rank S_test = 4"
| "pc_rank S_read = 3"
| "pc_rank S_print = 2"
| "pc_rank S_fill = 1"
| "pc_rank Gone = 0"
| "pc_rank Killed = 0"

definition pair_rank :: "side \<Rightarrow> chat \<Rightarrow> nat" where
  "pair_rank w s = 6 * length (typed s w) + pc_rank (at s w)"

definition chat_rank :: "chat \<Rightarrow> nat" where
  "chat_rank s = pair_rank Client s + pair_rank Server s"

lemma same_typed:
  "read_wire b k w c s = Some t \<Longrightarrow> typed t = typed s \<and> at t = (at s)(w := c)"
  "write_wire k w c s = Some t \<Longrightarrow> typed t = typed s \<and> (at t = (at s)(w := c) \<or> at t = (at s)(w := Killed))"
  "bad (print_buff w x y c s) = None \<Longrightarrow> typed (print_buff w x y c s) = typed s \<and> at (print_buff w x y c s) = (at s)(w := c)"
  by (auto simp: read_wire_def write_wire_def print_buff_def goto_def set_buff_def say_def split: if_splits sum.splits)

lemma fill_buff_typed:
  assumes "bad (fill_buff w c s) = None"
  shows "at (fill_buff w c s) = (at s)(w := c) \<and> length (typed (fill_buff w c s) w) < length (typed s w) \<and>
    (w' \<noteq> w \<longrightarrow> typed (fill_buff w c s) w' = typed s w')"
proof (cases "fill (buff s w) 0 (typed s w)")
  case (Inr p)
  then show ?thesis using fill_keys_less [of "buff s w" 0 "typed s w" "fst p" "snd p"]
    by (cases p) (simp add: fill_buff_def goto_def set_buff_def)
qed (use assms in \<open>simp add: fill_buff_def\<close>)

lemma client_rank:
  assumes "client_chatfun b k s = Some t" "bad t = None"
  shows "chat_rank t < chat_rank s"
proof (cases "at s Client")
  case C_fill
  then have t: "t = fill_buff Client C_write s" using assms(1) by (simp add: client_chatfun_def split: if_splits)
  then have "typed t Server = typed s Server" "at t = (at s)(Client := C_write)" "length (typed t Client) < length (typed s Client)"
    using fill_buff_typed [of Client C_write s Server] assms(2) by simp_all
  then show ?thesis using C_fill by (simp add: chat_rank_def pair_rank_def)
next
  case C_write
  then show ?thesis using assms(1) same_typed(2) [of k Client C_read s t]
    by (auto simp: client_chatfun_def chat_rank_def pair_rank_def)
next
  case C_read
  then show ?thesis using assms(1) same_typed(1) [of b k Client C_print s t]
    by (auto simp: client_chatfun_def chat_rank_def pair_rank_def)
next
  case C_print
  then have "typed t = typed s" "at t = (at s)(Client := Prompt) \<or> at t = (at s)(Client := Gone)"
    using assms same_typed(3) [of Client text_from_server "[]" Prompt s]
    by (auto simp: client_chatfun_def Let_def goto_def say_def split: if_splits)
  then show ?thesis using C_print by (auto simp: chat_rank_def pair_rank_def)
qed (use assms in \<open>auto simp: client_chatfun_def chat_rank_def pair_rank_def goto_def say_def set_buff_def split: if_splits\<close>)

lemma server_rank:
  assumes "server_chatfun b k s = Some t" "bad t = None"
  shows "chat_rank t < chat_rank s"
proof (cases "at s Server")
  case S_fill
  then have t: "t = fill_buff Server S_write (set_buff Server zeros s)"
    using assms(1) by (simp add: server_chatfun_def split: if_splits)
  then have "typed t Client = typed s Client" "at t = (at s)(Server := S_write)" "length (typed t Server) < length (typed s Server)"
    using fill_buff_typed [of Server S_write "set_buff Server zeros s" Client] assms(2) by (simp_all add: set_buff_def)
  then show ?thesis using S_fill by (simp add: chat_rank_def pair_rank_def)
next
  case S_write
  then show ?thesis using assms(1) same_typed(2) [of k Server S_test s t]
    by (auto simp: server_chatfun_def chat_rank_def pair_rank_def)
next
  case S_read
  then show ?thesis using assms(1) same_typed(1) [of b k Server S_print s t]
    by (auto simp: server_chatfun_def chat_rank_def pair_rank_def)
next
  case S_print
  then show ?thesis using assms same_typed(3) [of Server text_from_client text_to_client S_fill s]
    by (auto simp: server_chatfun_def chat_rank_def pair_rank_def split: if_splits)
qed (use assms in \<open>auto simp: server_chatfun_def chat_rank_def pair_rank_def goto_def say_def set_buff_def split: if_splits\<close>)

lemma chat_step_rank: "chat_step b a s = Some t \<Longrightarrow> bad t = None \<Longrightarrow> chat_rank t < chat_rank s"
  using client_rank server_rank by (cases a; cases "fst a") (auto simp: chat_step_def split: if_splits)

definition both_gone :: "chat \<Rightarrow> bool" where
  "both_gone s \<longleftrightarrow> at s Client = Gone \<and> at s Server = Gone"

lemma chat_progress:
  assumes talk: "talk rs" and st: "in_stage rs ce se r g s" and ok: "bad s = None" and nf: "\<not> both_gone s"
  shows "\<exists>a t. chat_step True a s = Some t"
proof -
  have client: "\<exists>t. chat_step True (Client, if at s Client = C_read then MAXBUF else 0) s = Some t"
    if "at s Client = Prompt \<or> at s Client = C_fill \<or> at s Client = C_print \<or> at s Client = C_write \<and> \<not> over Server s \<or>
      at s Client = C_read \<and> r < length rs \<and> wire s Client = pad (snd (rs ! r))"
    using that ok talk_plain [OF talk, of r]
    by (auto simp: chat_step_def client_chatfun_def write_wire_line read_wire_line peer_def MAXBUF_def)
  have server: "\<exists>t. chat_step True (Server, if at s Server = S_read then MAXBUF else 0) s = Some t"
    if "at s Server = S_print \<or> at s Server = S_fill \<or> at s Server = S_test \<or> at s Server = S_write \<and> \<not> over Client s \<or>
      at s Server = S_read \<and> r < length rs \<and> wire s Server = pad (fst (rs ! r))"
    using that ok talk_plain [OF talk, of r]
    by (auto simp: chat_step_def server_chatfun_def write_wire_line read_wire_line peer_def MAXBUF_def)
  show ?thesis
  proof (cases g)
    case Composing
    then have "at s Client = Prompt \<or> at s Client = C_fill \<or> at s Client = C_write \<and> \<not> over Server s"
      using st not_over(1) by (auto simp: in_stage_def client_is_def)
    then show ?thesis using client by blast
  next
    case Asked
    then show ?thesis using st server by (auto simp: in_stage_def server_ready_def server_is_def)
  next
    case Answering
    then show ?thesis using st server by (auto simp: in_stage_def server_is_def client_is_def over_def)
  next
    case Answered
    then show ?thesis using st client by (auto simp: in_stage_def client_is_def)
  next
    case Reading
    then show ?thesis using st client by (auto simp: in_stage_def client_is_def)
  next
    case Finished
    then show ?thesis using st server nf by (auto simp: in_stage_def client_is_def server_ready_def server_is_def both_gone_def)
  qed
qed

definition chat_start :: "(string \<times> string) list \<Rightarrow> string \<Rightarrow> string \<Rightarrow> chat \<Rightarrow> bool" where
  "chat_start rs ce se s \<longleftrightarrow> talk rs \<and> s = chat_initial (keys (map fst rs) @ ce) (keys (map snd rs) @ se)"

lemma chat_starts: "chat_start rs ce se s \<Longrightarrow> talk rs \<and> bad s = None \<and> in_stage rs ce se 0 Composing s"
  by (simp add: chat_start_def chat_initial_def in_stage_def client_is_def server_is_def server_ready_def client_text_def
      server_text_def talk_def)

interpretation tcp: terminating_program "chat_step True" "chat_start rs ce se" "\<lambda>s. talk rs \<and> chat_inv rs ce se s" "\<lambda>_. True"
  both_gone chat_rank for rs ce se
proof unfold_locales
  fix s assume "chat_start rs ce se s"
  then show "talk rs \<and> chat_inv rs ce se s" unfolding chat_inv_def using chat_starts by blast
next
  fix s a t assume a: "talk rs \<and> chat_inv rs ce se s" "chat_step True a s = Some t"
  then obtain r g where "in_stage rs ce se r g s" "bad s = None" by (auto simp: chat_inv_def)
  moreover obtain w k where "a = (w, k)" by fastforce
  ultimately show t: "talk rs \<and> chat_inv rs ce se t"
    using a client_in_stage server_in_stage unfolding chat_inv_def by (cases w) blast+
  then show "chat_rank t < chat_rank s" using chat_step_rank a(2) by (simp add: chat_inv_def)
next
  fix s assume "talk rs \<and> chat_inv rs ce se s" "\<not> both_gone s"
  then show "\<exists>a t. True \<and> chat_step True a s = Some t" using chat_progress unfolding chat_inv_def by blast
qed


section \<open>The properties\<close>

lemma split_text:
  assumes "r \<le> length rs"
  shows "client_text rs = client_text (take r rs) @ client_text (drop r rs)" "server_text rs = server_text (take r rs) @ server_text (drop r rs)"
  by (simp_all add: client_text_def server_text_def concat_append [symmetric] map_append [symmetric] del: concat_append map_append)

lemma client_prefix:
  assumes "client_is rs ce r k x c s" "r < length rs" "x = [] \<or> x = text_prompt"
  shows "\<exists>y. said s Client @ y = client_text rs @ text_client_exit"
proof -
  have "client_text rs = client_text (take r rs) @ text_prompt @ text_from_server @ snd (rs ! r) @ [newline] @ client_text (drop (Suc r) rs)"
    using split_text(1) [of "Suc r" rs] text_Suc(1) assms(2) by simp
  then show ?thesis using assms(1,3) by (auto simp: client_is_def)
qed

lemma server_prefix:
  assumes "server_is rs se r k [] c s" "r \<le> length rs"
  shows "\<exists>y. said s Server @ y = server_text rs @ text_server_exit"
  using assms split_text(2) [of r rs] by (auto simp: server_is_def)

lemma ready_prefix:
  assumes "server_ready rs se r s" "r \<le> length rs"
  shows "(\<exists>y. said s Server @ y = server_text rs @ text_server_exit) \<and> at s Server \<noteq> Killed"
proof -
  from assms(1) consider c where "server_is rs se r r [] c s" "c \<noteq> Killed" | "server_is rs se r r text_server_exit Gone s" "r = length rs"
    by (auto simp: server_ready_def)
  then show ?thesis
  proof cases
    case 1
    then show ?thesis using server_prefix [OF 1(1) assms(2)] by (simp add: server_is_def)
  next
    case 2
    then show ?thesis by (simp add: server_is_def)
  qed
qed

lemma stage_said:
  assumes "in_stage rs ce se r g s"
  shows "(\<exists>y. said s Client @ y = client_text rs @ text_client_exit) \<and> at s Client \<noteq> Killed"
    and "(\<exists>y. said s Server @ y = server_text rs @ text_server_exit) \<and> at s Server \<noteq> Killed"
proof -
  show "(\<exists>y. said s Client @ y = client_text rs @ text_client_exit) \<and> at s Client \<noteq> Killed"
  proof (cases "g = Finished")
    case True
    then show ?thesis using assms by (simp add: in_stage_def client_is_def)
  next
    case False
    then obtain k x c where c: "client_is rs ce r k x c s" "r < length rs" "x = [] \<or> x = text_prompt" "c \<noteq> Killed"
      using assms by (cases g) (auto simp: in_stage_def)
    then have "at s Client \<noteq> Killed" by (simp add: client_is_def)
    then show ?thesis using client_prefix [OF c(1-3)] by blast
  qed
  show "(\<exists>y. said s Server @ y = server_text rs @ text_server_exit) \<and> at s Server \<noteq> Killed"
  proof (cases g)
    case Answering
    then obtain q k c where "server_is rs se q k [] c s" "q \<le> length rs" "c \<noteq> Killed" using assms by (auto simp: in_stage_def)
    then show ?thesis using server_prefix by (auto simp: server_is_def)
  next
    case Answered
    then show ?thesis using assms ready_prefix [of rs se "Suc r"] by (simp add: in_stage_def)
  next
    case Reading
    then show ?thesis using assms ready_prefix [of rs se "Suc r"] by (simp add: in_stage_def)
  next
    case Finished
    then have r: "r = length rs" and sr: "server_ready rs se r s" using assms by (auto simp: in_stage_def)
    then show ?thesis using ready_prefix [OF sr] by simp
  qed (use assms ready_prefix [of rs se r] in \<open>simp_all add: in_stage_def\<close>)
qed

lemma stage_wires:
  assumes "talk rs" "in_stage rs ce se r g s"
  shows "length (wire s Client @ wire s Server) \<le> MAXBUF"
proof (cases "r < length rs")
  case True
  then have "length (pad (fst (rs ! r))) = MAXBUF" "length (pad (snd (rs ! r))) = MAXBUF"
    using talk_plain [OF assms(1) True] by (auto simp: plain_def intro!: length_pad)
  then show ?thesis using assms(2) by (cases g) (auto simp: in_stage_def)
next
  case False
  then show ?thesis using assms(2) by (cases g) (simp_all add: in_stage_def)
qed

lemma stage_gone:
  assumes "in_stage rs ce se r g s" "both_gone s"
  shows "said s Client = client_text rs @ text_client_exit \<and> said s Server = server_text rs @ text_server_exit \<and>
    typed s Client = ce \<and> typed s Server = se"
proof -
  have "g = Finished" using assms by (cases g) (auto simp: in_stage_def client_is_def both_gone_def)
  then show ?thesis
    using assms by (auto simp: in_stage_def client_is_def server_ready_def server_is_def both_gone_def keys_def)
qed

text \<open>Property C17.
  A conversation over TCP, for any lines that fit the buffers (shorter than 79 characters, no null bytes) of which only the last of the
  server starts with "exit", and if a read takes all the bytes of a message: whatever the schedule, no buffer is overrun, nobody writes to
  a connection whose other end is gone, and at most one message is on its way. Each side prints, line by line and in order, what was typed
  at the other, and nothing else is ever on its output than a beginning of this text. Every run is bounded, it can always go on until both
  programs have left their loops, and then both have printed all and taken exactly their lines from the keyboard. The client never looks
  at what it sends: it leaves the loop only when the server's line was the exit.
\<close>

theorem chat_conversation:
  assumes "reach (chat_step True) (chat_start rs ce se) s"
  shows "bad s = None \<and> at s w \<noteq> Killed \<and> length (wire s Client @ wire s Server) \<le> MAXBUF \<and>
    (\<exists>y. said s Client @ y = client_text rs @ text_client_exit) \<and>
    (\<exists>y. said s Server @ y = server_text rs @ text_server_exit) \<and>
    (\<forall>as t. run (chat_step True) as s = Some t \<longrightarrow> length as \<le> chat_rank s) \<and>
    (\<exists>as t. run (chat_step True) as s = Some t \<and> both_gone t) \<and>
    (both_gone s \<longrightarrow> said s Client = client_text rs @ text_client_exit \<and> said s Server = server_text rs @ text_server_exit \<and>
      typed s Client = ce \<and> typed s Server = se)"
proof -
  obtain r g where talk: "talk rs" and g: "in_stage rs ce se r g s" and ok: "bad s = None"
    using tcp.invar_reach [OF assms] unfolding chat_inv_def by blast
  have "at s w \<noteq> Killed" using stage_said [OF g] by (cases w) simp_all
  moreover have "\<forall>as t. run (chat_step True) as s = Some t \<longrightarrow> length as \<le> chat_rank s"
    using tcp.run_length [OF assms] by (simp add: list_all_iff)
  moreover have "\<exists>as t. run (chat_step True) as s = Some t \<and> both_gone t" using tcp.can_finish [OF assms] by blast
  ultimately show ?thesis using ok stage_said [OF g] stage_wires [OF talk g] stage_gone [OF g] by simp
qed

theorem chat_conversation_witness:
  "\<exists>as t. run (chat_step True) as (chat_initial (''hi'' @ newline # ''bye'' @ [newline]) (''hello'' @ newline # ''exit'' @ [newline])) = Some t \<and>
    said t Server = text_from_client @ ''hi'' @ newline # text_to_client @ text_from_client @ ''bye'' @ newline # text_to_client @ text_server_exit"
proof -
  let ?rs = "[(''hi'', ''hello''), (''bye'', ''exit'')]"
  let ?s = "chat_initial (''hi'' @ newline # ''bye'' @ [newline]) (''hello'' @ newline # ''exit'' @ [newline])"
  have "talk ?rs" by (simp add: talk_def plain_def is_exit_def newline_def nul_def MAXBUF_def)
  then have start: "reach (chat_step True) (chat_start ?rs [] []) ?s"
    by (intro reach_start) (simp add: chat_start_def keys_def)
  then obtain as t where t: "run (chat_step True) as ?s = Some t" "both_gone t" using chat_conversation by blast
  then have "said t Server = server_text ?rs @ text_server_exit" using chat_conversation [OF reach_run_extend [OF start t(1)]] by blast
  then show ?thesis using t(1) by (auto simp: server_text_def)
qed

text \<open>Property C30.
  What fits the buffer, exactly. A line of fewer than 80 characters is stored with its newline, and the bytes behind it are null; a longer
  one, and an input that ends before its line does, is written past the end of the array. A line of 79 characters fills the array, so that
  the \<open>printf\<close> of whoever receives it finds no end; a shorter one is printed as it is.
\<close>

theorem chat_limits:
  assumes "newline \<notin> set l"
  shows "fill zeros 0 (l @ newline # rest) = (if length l < MAXBUF then Inr (pad l, rest) else Inl Out_of_bounds) \<and>
    fill zeros 0 l = Inl Out_of_bounds \<and>
    (nul \<notin> set l \<longrightarrow> length l < MAXBUF \<longrightarrow>
      c_string (pad l) = (if length l = MAXBUF - 1 then Inl Out_of_bounds else Inr (l @ [newline])))"
proof -
  have "fill zeros 0 (l @ newline # rest) = (if length l < MAXBUF then Inr (pad l, rest) else Inl Out_of_bounds)"
    using fill_line [OF assms, of "[]" MAXBUF rest] by (simp add: zeros_def pad_def)
  moreover have "c_string (pad l) = (if length l = MAXBUF - 1 then Inl Out_of_bounds else Inr (l @ [newline]))"
    if "nul \<notin> set l" "length l < MAXBUF"
    using that c_string_full [of l] c_string_pad [of l] by (cases "length l = MAXBUF - 1") auto
  ultimately show ?thesis using fill_no_line [OF assms] by blast
qed


theorem chat_limits_witness:
  "fill zeros 0 (''exit'' @ [newline]) = Inr (pad ''exit'', []) \<and> fill zeros 0 ''exit'' = Inl Out_of_bounds \<and>
    fill zeros 0 (replicate 80 (CHR 0x61) @ [newline]) = Inl Out_of_bounds \<and> c_string (pad (replicate 79 (CHR 0x61))) = Inl Out_of_bounds"
  using chat_limits [of "''exit''" "[]"] chat_limits [of "replicate 80 (CHR 0x61)" "[]"] chat_limits [of "replicate 79 (CHR 0x61)" "[]"]
  by (simp add: newline_def nul_def MAXBUF_def)

text \<open>When one byte of a message arrives before the others, the server takes it for a message of its own, and the rest for another.\<close>

theorem chat_splits:
  "map_option (\<lambda>t. said t Server)
    (run (chat_step False)
      ([(Client, 0), (Client, 0), (Client, 0), (Server, 1), (Server, 0), (Server, 0), (Server, 0), (Server, 0), (Server, 79), (Server, 0)])
      (chat_initial (''hi'' @ [newline]) (''a'' @ [newline]))) =
   Some (text_from_client @ ''h'' @ text_to_client @ text_from_client @ ''i'' @ [newline] @ text_to_client)"
  by code_simp

text \<open>After a failed \<open>accept\<close> the server chats with itself: it answers nobody until it is told to exit.\<close>

theorem server_accept_unchecked:
  "snd (server_main True True True False)"
  "server_without_client (''a'' @ newline # ''exit'' @ [newline]) [] =
    Inr (text_from_client @ text_to_client @ text_from_client @ text_to_client @ text_server_exit)"
  "server_without_client ''a'' [] = Inl Out_of_bounds"
  by code_simp+

end
