(* ===== verification/Memory.thy ===== *)
theory Memory
  imports Ctext
begin

text \<open>
  Two small programs on addresses and bytes: the segmented address translation of \<open>src/memory/realtranslation/src/vmseg.c\<close>, and the bytes
  of objects in memory that \<open>src/prstrexec/byteordering/showbytes.c\<close> prints. The order of the bytes of an integer is that of a little
  endian machine.
\<close>

unbundle bit_operations_syntax

section \<open>Segments\<close>

definition SEG0_MASK :: int where "SEG0_MASK = 0x0"
definition SEG1_MASK :: int where "SEG1_MASK = 0x1000"
definition SEG_SHIFT :: nat where "SEG_SHIFT = 12"
definition OFFSET_MASK :: int where "OFFSET_MASK = 0xFFF"
definition ADDRESS_SPACE_SZ :: int where "ADDRESS_SPACE_SZ = 128"

definition seg_base :: "int list" where "seg_base = [SEG0_MASK, SEG1_MASK]"

definition seg_bounds :: "int list" where
  "seg_bounds = [SEG0_MASK + ADDRESS_SPACE_SZ, SEG1_MASK - ADDRESS_SPACE_SZ]"

definition seg_segment :: "int \<Rightarrow> int" where
  "seg_segment va = drop_bit SEG_SHIFT (va AND SEG1_MASK)"

definition seg_offset :: "int \<Rightarrow> int" where
  "seg_offset va = va AND OFFSET_MASK"

text \<open>An element of an array of \<open>int\<close>.\<close>

definition elem :: "int list \<Rightarrow> int \<Rightarrow> int res" where
  "elem xs i = (if 0 \<le> i \<and> i < int (length xs) then Inr (xs ! nat i) else Inl Out_of_bounds)"

definition RaiseException :: "nat \<Rightarrow> string list" where
  "RaiseException extyp = (if extyp = 1 then [''Error: Segmentation Fault''] else [])"

text \<open>\<open>main\<close> for a virtual address: the lines that it prints.\<close>

definition vmseg_main :: "int \<Rightarrow> string list res" where
  "vmseg_main va =
     and_then (elem seg_bounds (seg_segment va)) (\<lambda>bound.
     and_then
       (if bound \<le> seg_offset va then Inr (RaiseException 1)
        else and_then (elem seg_base (seg_segment va)) (\<lambda>base. Inr [''Phys Addr: '' @ decimal (nat (base + seg_offset va))]))
       (\<lambda>ls. Inr (ls @ [''Segment: '' @ decimal (nat (seg_segment va)), ''Offset: '' @ decimal (nat (seg_offset va))])))"

lemma seg_offset_mod: "seg_offset va = va mod 4096"
proof -
  have "OFFSET_MASK = mask 12" by (simp add: OFFSET_MASK_def mask_eq_exp_minus_1)
  then have "seg_offset va = take_bit 12 va" by (simp only: seg_offset_def take_bit_eq_mask)
  then show ?thesis by (simp add: take_bit_eq_mod)
qed

lemma seg_segment_div: "seg_segment va = va div 4096 mod 2"
proof -
  have "seg_segment va = drop_bit 12 va AND drop_bit 12 SEG1_MASK" by (simp add: seg_segment_def SEG_SHIFT_def drop_bit_and)
  also have "drop_bit 12 SEG1_MASK = 1" by (simp add: SEG1_MASK_def drop_bit_eq_div)
  finally show ?thesis by (simp add: and_one_eq drop_bit_eq_div)
qed

text \<open>
  The translation of \<open>vmseg.c\<close>, for every virtual address: bit 12 alone chooses the segment, so that no index is out of the two arrays,
  and the twelve bits below it are the offset; it prints a physical address, which is the address without the bits above, exactly if the
  offset is below 128 in segment 0 and below 3968 in segment 1, and otherwise the fault, whose handler returns, so that the segment and
  the offset are printed as well. A comment speaks of the top two bits of a virtual address of 14 bits.
\<close>

theorem vmseg_translates:
  "vmseg_main va = Inr
    ((if va mod 8192 < 128 \<or> 4096 \<le> va mod 8192 \<and> va mod 8192 < 8064 then [''Phys Addr: '' @ decimal (nat (va mod 8192))]
      else [''Error: Segmentation Fault'']) @
     [''Segment: '' @ decimal (nat (va div 4096 mod 2)), ''Offset: '' @ decimal (nat (va mod 4096))])"
proof -
  have m: "va mod 8192 = 4096 * (va div 4096 mod 2) + va mod 4096" using mod_mult2_eq' [of va 4096 2] by simp
  have o: "0 \<le> va mod 4096" "va mod 4096 < 4096" by simp_all
  have "va div 4096 mod 2 = 0 \<or> va div 4096 mod 2 = 1" by presburger
  then show ?thesis
  proof
    assume s: "va div 4096 mod 2 = 0"
    then have "va mod 8192 = va mod 4096" using m by simp
    then show ?thesis using s o
      by (simp add: vmseg_main_def elem_def seg_segment_div seg_offset_mod seg_bounds_def seg_base_def SEG0_MASK_def SEG1_MASK_def
          ADDRESS_SPACE_SZ_def RaiseException_def)
  next
    assume s: "va div 4096 mod 2 = 1"
    then have "va mod 8192 = 4096 + va mod 4096" using m by simp
    then show ?thesis using s o
      by (simp add: vmseg_main_def elem_def seg_segment_div seg_offset_mod seg_bounds_def seg_base_def SEG0_MASK_def SEG1_MASK_def
          ADDRESS_SPACE_SZ_def RaiseException_def)
  qed
qed

lemma vmseg_program: "vmseg_main (SEG1_MASK + 108) = Inr [''Phys Addr: 4204'', ''Segment: 1'', ''Offset: 108'']"
  by (simp add: vmseg_main_def elem_def seg_segment_div seg_offset_mod seg_bounds_def seg_base_def SEG0_MASK_def SEG1_MASK_def
      ADDRESS_SPACE_SZ_def decimal.simps digit_char_def) code_simp

section \<open>Bytes\<close>

definition hex_digit :: "nat \<Rightarrow> char" where
  "hex_digit n = ''0123456789abcdef'' ! n"

text \<open>\<open>printf(" %.2x", b)\<close>\<close>

definition show_byte :: "8 word \<Rightarrow> string" where
  "show_byte b = [CHR '' '', hex_digit (unat b div 16), hex_digit (unat b mod 16)]"

text \<open>
  The loop of \<open>show_bytes\<close> from index \<open>i\<close> over the bytes that \<open>start\<close> points to. The index is an \<open>int\<close>, and converted to
  \<open>size_t\<close> for the comparison; it can leave the range of \<open>int\<close> before it reaches a large \<open>len\<close>.
\<close>

function show_bytes_from :: "8 word list \<Rightarrow> size_t \<Rightarrow> int \<Rightarrow> string res" where
  "show_bytes_from start len i =
     (if word_of_int i < len then
        (if 0 \<le> i \<and> i < int (length start) then
           (if int_ok (i + 1)
            then and_then (show_bytes_from start len (i + 1)) (\<lambda>t. Inr (show_byte (start ! nat i) @ t))
            else Inl Int_overflow)
         else Inl Out_of_bounds)
      else Inr [newline])"
  by pat_completeness auto
termination by (relation "measure (\<lambda>(start, len, i). nat (2 ^ 31 - i))") (auto simp: int_ok_def)

declare show_bytes_from.simps [simp del]

definition show_bytes :: "8 word list \<Rightarrow> size_t \<Rightarrow> string res" where
  "show_bytes start len = show_bytes_from start len 0"

definition int_bytes :: "32 word \<Rightarrow> 8 word list" where
  "int_bytes x = map (\<lambda>i. ucast (drop_bit (8 * i) x)) [0..<4]"

definition show_int :: "32 word \<Rightarrow> string res" where
  "show_int x = show_bytes (int_bytes x) 4"

definition string_bytes :: "string \<Rightarrow> 8 word list" where
  "string_bytes s = map of_char (s @ [CHR 0x00])"

text \<open>\<open>main\<close>: the first one, two and three bytes of an integer, and those of a string.\<close>

definition showbytes_main :: "string res" where
  "showbytes_main =
     (let val = int_bytes 0x87654321; s = ''abcdef'' in
      and_then (show_bytes val 1) (\<lambda>a. and_then (show_bytes val 2) (\<lambda>b. and_then (show_bytes val 3) (\<lambda>c.
      and_then (show_bytes (string_bytes s) (of_nat (length s))) (\<lambda>d. Inr (a @ b @ c @ d))))))"

lemma unat_index: "0 \<le> i \<Longrightarrow> i < 2 ^ 31 \<Longrightarrow> unat (word_of_int i :: size_t) = nat i"
  by (simp add: unsigned_of_int take_bit_int_eq_self)

lemma show_bytes_from_exact:
  "0 \<le> i \<Longrightarrow> i < 2 ^ 31 \<Longrightarrow> i \<le> int (length start) \<Longrightarrow> show_bytes_from start len i =
    (if unat len \<le> nat i \<or> unat len \<le> length start \<and> unat len < 2 ^ 31
     then Inr (concat (map show_byte (drop (nat i) (take (unat len) start))) @ [newline])
     else if length start < 2 ^ 31 then Inl Out_of_bounds else Inl Int_overflow)"
proof (induction start len i rule: show_bytes_from.induct)
  case (1 start len i)
  have lt: "word_of_int i < len \<longleftrightarrow> nat i < unat len"
    using unat_index [OF 1(2,3)] by (simp add: word_less_nat_alt)
  show ?case
  proof (cases "nat i < unat len \<and> i < int (length start) \<and> int_ok (i + 1)")
    case True
    have l: "nat i < length (take (unat len) start)" using True 1(2) by (simp add: nat_less_iff)
    have d: "drop (nat i) (take (unat len) start) = start ! nat i # drop (nat (i + 1)) (take (unat len) start)"
      using Cons_nth_drop_Suc [OF l, symmetric] True 1(2) by (simp add: nat_add_distrib)
    have "i + 1 < 2 ^ 31" using True by (simp add: int_ok_def)
    then have "show_bytes_from start len (i + 1) =
        (if unat len \<le> nat (i + 1) \<or> unat len \<le> length start \<and> unat len < 2 ^ 31
         then Inr (concat (map show_byte (drop (nat (i + 1)) (take (unat len) start))) @ [newline])
         else if length start < 2 ^ 31 then Inl Out_of_bounds else Inl Int_overflow)"
      using 1(1) [of] True lt 1(2) by simp
    moreover have "unat len \<le> nat (i + 1) \<Longrightarrow> unat len \<le> length start \<and> unat len < 2 ^ 31"
    proof -
      have "nat (i + 1) \<le> length start" "nat (i + 1) < 2 ^ 31" using True 1(2) \<open>i + 1 < 2 ^ 31\<close> by auto
      then show "unat len \<le> nat (i + 1) \<Longrightarrow> unat len \<le> length start \<and> unat len < 2 ^ 31" by linarith
    qed
    ultimately show ?thesis
      using True 1(2) lt d by (subst show_bytes_from.simps) auto
  next
    case False
    show ?thesis
    proof (cases "nat i < unat len")
      case True
      then show ?thesis
        using False 1(2-4) lt by (subst show_bytes_from.simps) (auto simp: int_ok_def)
    next
      case False
      then show ?thesis using lt by (subst show_bytes_from.simps) simp
    qed
  qed
qed

text \<open>Reading the bytes back.\<close>

definition hex_value :: "char \<Rightarrow> nat" where
  "hex_value c = (if isdigit c then of_char c - 48 else of_char c - 87)"

fun read_bytes :: "string \<Rightarrow> 8 word list" where
  "read_bytes (sp # a # b # cs) = of_nat (16 * hex_value a + hex_value b) # read_bytes cs"
| "read_bytes _ = []"

lemma hex_value_digit: "n < 16 \<Longrightarrow> hex_value (hex_digit n) = n"
proof -
  have "list_all (\<lambda>n. hex_value (hex_digit n) = n) [0..<16]" by code_simp
  then show "n < 16 \<Longrightarrow> hex_value (hex_digit n) = n" by (simp add: list_all_iff)
qed

lemma read_show_bytes: "read_bytes (concat (map show_byte bs) @ [newline]) = bs"
proof (induction bs)
  case (Cons b bs)
  have "unat b < 2 ^ LENGTH(8)" by (rule unsigned_less)
  then have "unat b < 256" by simp
  then have "hex_value (hex_digit (unat b div 16)) = unat b div 16" "hex_value (hex_digit (unat b mod 16)) = unat b mod 16"
    by (intro hex_value_digit; simp add: less_mult_imp_div_less)+
  then show ?case using Cons by (simp add: show_byte_def)
qed simp

definition bytes_int :: "8 word list \<Rightarrow> 32 word" where
  "bytes_int bs = foldr (\<lambda>b x. ucast b OR push_bit 8 x) bs 0"

lemma bytes_int_bytes: "bytes_int (int_bytes x) = x"
proof (rule bit_word_eqI)
  fix n assume "n < LENGTH(32)"
  then consider "n < 8" | "8 \<le> n" "n < 16" | "16 \<le> n" "n < 24" | "24 \<le> n" "n < 32" by fastforce
  then show "bit (bytes_int (int_bytes x)) n = bit x n"
    by cases (simp_all add: bytes_int_def int_bytes_def upt_conv_Cons bit_or_iff bit_push_bit_iff bit_ucast_iff bit_drop_bit_eq
        less_diff_conv2)
qed

text \<open>Property C31.
  \<open>show_bytes\<close> ends exactly if the length it is given is at most that of the object and below \<open>2 ^ 31\<close>. Then it prints two
  hexadecimal digits for every byte, so that the bytes can be read back from the output; and the four that \<open>show_int\<close> prints are
  the integer, the lowest byte first. Otherwise it reads behind an object of less than \<open>2 ^ 31\<close> bytes, and on a larger one
  its \<open>int\<close> index overflows.
\<close>

theorem show_bytes_roundtrip:
  "(case show_bytes start len of
      Inr t \<Rightarrow> unat len \<le> length start \<and> unat len < 2 ^ 31 \<and> read_bytes t = take (unat len) start
    | Inl e \<Rightarrow>
        if length start < 2 ^ 31 then length start < unat len \<and> e = Out_of_bounds
        else 2 ^ 31 \<le> unat len \<and> e = Int_overflow) \<and>
   (\<exists>t. show_int x = Inr t \<and> bytes_int (read_bytes t) = x)"
proof -
  have exact: "show_bytes start len =
      (if unat len \<le> length start \<and> unat len < 2 ^ 31
       then Inr (concat (map show_byte (take (unat len) start)) @ [newline])
       else if length start < 2 ^ 31 then Inl Out_of_bounds else Inl Int_overflow)" for start len
    using show_bytes_from_exact [of 0 start len] by (auto simp: show_bytes_def)
  have "length (int_bytes x) = 4" by (simp add: int_bytes_def)
  then have "show_int x = Inr (concat (map show_byte (int_bytes x)) @ [newline])"
    by (simp add: show_int_def exact)
  then have "\<exists>t. show_int x = Inr t \<and> bytes_int (read_bytes t) = x" using read_show_bytes bytes_int_bytes by simp
  then show ?thesis using read_show_bytes [of "take (unat len) start"] by (auto simp: exact)
qed

lemma showbytes_program:
  "showbytes_main = Inr ('' 21'' @ newline # '' 21 43'' @ newline # '' 21 43 65'' @ newline # '' 61 62 63 64 65 66'' @ [newline])"
  by code_simp

end
