(* ===== verification/Spec2Isabelle.thy ===== *)
theory Spec2Isabelle
  imports Wzip Dynvec Cdecl ProdCons_Progress ProdCons_Bugs Sysutil Callexec VecProps VecArgs PcArgs ConcList ConcQueue Counter
    RWProps Barrier ApiProps MainRace Wish QueueThreads ForkProps Cntxtsw Chat Memory
begin

text \<open>
  A verification library for the C programs of the repository \<open>sysprg\<close>: exercises in systems programming, most of them after the
  book "Operating Systems: Three Easy Pieces". There is no one program but many small ones, so that the parts interact little; what
  they share is their way of working (threads that meet in locks, condition variables and semaphores, processes that meet in pipes,
  files and \<open>wait\<close>, bytes and blocks of memory), and this is what the library shares between them.

  \<^bold>\<open>Shared theories.\<close>
  \<^item> \<open>Prelude\<close>: machine integers, the faults that undefined behaviour is recorded as, counting of threads, runs and reachable states of a
    step function, and the locales \<open>safe_program\<close>, \<open>live_program\<close>, \<open>terminating_program\<close> and \<open>wait_order\<close>, in which invariants, absence of
    deadlock, bounds on the length of runs and ordered locking are argued once.
  \<^item> \<open>Contracts\<close>: the sequential interfaces, a bounded stack, a FIFO and a set of keys. \<open>Ctext\<close>: decimal numbers, \<open>atoi\<close>, \<open>strtok_r\<close>, \<open>getopt\<close>.
    \<open>NodeHeap\<close>: linked nodes in a heap, with \<open>malloc\<close> as a parameter.

  \<^bold>\<open>Data and text.\<close>
  \<^item> \<open>Wzip\<close> (\<open>ostep-projects/initial-utilities/wzip/wzip.c\<close>): the scanner token by token, the loop over the files and \<open>main\<close>. The output is
    the run-length encoding of the files, if each later one goes on with the last character before it, and decodes to the input; an
    empty first file makes the program loop for ever, and where other files meet the counts are wrong. Lines of \<open>2 ^ 31\<close> bytes overflow
    an \<open>int\<close>.
  \<^item> \<open>Textutil\<close> (\<open>wcat.c\<close>, \<open>wgrep.c\<close>): what is printed for every list of files. \<open>Wish\<close> (\<open>process-shell/src/main.c\<close>): the tree of processes
    that indexes the path, and both modes of the shell, which end in an access out of bounds unless there is nothing to read.
  \<^item> \<open>Dynvec\<close> (\<open>datastructures/vector\<close>) and \<open>Cdecl\<close> (\<open>cdecl/src/main.c\<close>): a growing vector and a token stack, both instances of the stack
    contract as long as they stay inside their blocks, with the pushes that do not.
  \<^item> \<open>Sysutil\<close> (\<open>persistence/utils/stat/system.h\<close>): the functions and macros that compute, on \<open>size_t\<close> words.
  \<^item> \<open>Callexec\<close> (\<open>process_api/callexec2\<close>): reading with \<open>fscanf\<close>, sorting, binary search and \<open>main\<close>. The call of \<open>qsort\<close> is
    undefined with the comparison of the program; what its sorting and searching amount to otherwise is shown next to it.
  \<^item> \<open>Memory\<close> (\<open>memory/realtranslation/src/vmseg.c\<close>, \<open>prstrexec/byteordering/showbytes.c\<close>): an address translation by segments, and the
    bytes of objects.

  \<^bold>\<open>Threads.\<close> A program is a step function on a record that holds the globals, the locks and the point and locals of every thread; an
  action names the thread that moves. All numbers of threads and all schedules are covered.
  \<^item> \<open>Ring\<close>, \<open>ProdCons\<close>, \<open>PcArgs\<close> (\<open>concurrency/threads-cv\<close>): the shared buffer, the producers, the consumers and \<open>main\<close>, and the command
    line. \<open>ProdCons_Monitor\<close> and \<open>ProdCons_Safety\<close> show that \<open>main-two-cvs-while.c\<close> never fails a check and is a FIFO,
    \<open>ProdCons_Progress\<close> that it does not deadlock and that every value is consumed once, \<open>ProdCons_Bugs\<close> how its three variants break.
    What \<open>main\<close> stores for the joined consumers, in elements of \<open>int\<close> that the library takes for pointers, overruns its array behind the
    last join; \<open>store_results\<close> models it on its own, and the results about \<open>main\<close> are about its run up to there.
  \<^item> \<open>VecAdd\<close>, \<open>VecArgs\<close> (\<open>concurrency/threads-bugs\<close>): five versions of adding vectors. \<open>VecLock\<close>, \<open>VecSums\<close> and \<open>VecOrder\<close> state what they
    share as locales, and \<open>VecProps\<close> interprets these: which versions deadlock, livelock or end, and when the sums are exact.
  \<^item> \<open>ConcList\<close>, \<open>ConcQueue\<close>, \<open>Counter\<close> (\<open>concurrency/threads-locks\<close>): the list and the hash table, the queue as a sequential object, and the
    approximate counter. \<open>QueueThreads\<close> takes the queue statement by statement with its two locks: it is linearizable and never touches
    freed nodes, and it has a data race.
  \<^item> \<open>RWLock\<close>, \<open>RWProps\<close>, \<open>Barrier\<close> (\<open>concurrency/threads-sema\<close>): the reader-writer locks exclude what they must, and always deadlock, and one of
    them has a data race in its \<open>printf\<close>; the barrier does not hold anybody back and may deadlock.
  \<^item> \<open>ApiThreads\<close>, \<open>ApiProps\<close> (\<open>concurrency/threads-api\<close>): four programs as lists of calls on one machine, which stop at a
    failing call. \<open>MainRace\<close> (\<open>main-race.c\<close> there): the program that goes on behind failing calls, with the failures as part of its runs.

  \<^bold>\<open>Processes.\<close>
  \<^item> \<open>Forks\<close>, \<open>ForkProps\<close> (\<open>process_api\<close>): six programs that fork, as lists of calls on one machine with shared files and private
    buffers; what they can print, and what their files hold, whatever they held before.
  \<^item> \<open>Cntxtsw\<close> (\<open>directexec/cntxtsw\<close>): a parent and a child that take turns on two pipes. \<open>Chat\<close> (\<open>ostep-projects/simpleTCP\<close>): client and
    server over two byte streams; the conversation goes as it should for lines that fit and reads that are whole, and what happens
    otherwise.

  \<^bold>\<open>Parameters.\<close> What lies outside of the repository is an argument of the definitions: the file system, the results of \<open>malloc\<close>, \<open>fork\<close>,
  \<open>open\<close>, \<open>execvp\<close> and \<open>getopt\<close>'s argument vector, the sorting function, the addresses and pids that the kernel chooses, what other
  programs write. Where programs lean on a \<open>getline\<close> that allocates although the pointer is uninitialised and the size 0, or that leaves
  the pointer or sets it at the end of the input, that choice is a parameter (\<open>allocs\<close> in \<open>Wzip\<close> and \<open>Textutil\<close>, \<open>unwritten\<close> in \<open>Wish\<close>) and
  the other one is a fault. Hypotheses about parameters (an allocator that returns fresh addresses) are named and have instances.

  \<^bold>\<open>Bounds.\<close> Loops of the C programs are recursive functions with a proved measure where they end. Loops that may not
  end (the one over the files in \<open>Wzip\<close>, the lookup in a chain of \<open>ConcList\<close>) are partial functions, whose value \<open>None\<close> means that they do not
  end, so that a result is also a proof of termination. Runs of threads have no bound; where the program ends, the length of its runs is bounded by the rank of its first state.

  \<^bold>\<open>Not modelled.\<close>
  \<^item> \<open>persistence/utils/stat/stat.c\<close>: it calls functions that the repository does not have, and its \<open>main\<close> passes an uninitialised
    pointer to \<open>stat\<close>. In \<open>system.h\<close>: the includes, the compatibility definitions and the macros that only name constants.
  \<^item> The tokenizer and the parser of \<open>cdecl\<close>, which are comments; \<open>wunzip.c\<close>, which is empty; the unit tests of \<open>wzip\<close>, older copies of
    its functions of which one does not link; the templates \<open>rendezvous.c\<close>, \<open>mutex-nostarve.c\<close> and \<open>fork-join.c\<close>, in which the semaphores are
    still to be written; the headers whose macros assert that a call of the library succeeds.
  \<^item> Programs that print what a system call or the environment returns, or assign to locals and return (\<open>directexec/measurement\<close>,
    \<open>process/environment\<close>); \<open>process/setjmp_vars\<close>, which prints locals that C leaves indeterminate; and \<open>memory/null\<close>, which writes out
    of bounds in its first statement. \<open>fill\<close> of \<open>Chat\<close> and the readers of \<open>Callexec\<close> take the input as a list that ends.
  \<^item> Times, pauses and verbose output of the thread programs, and the weak memory behaviour of a data race: where one is reachable the
    theorem says so, and nothing is claimed about what comes after.
\<close>

end
